(* ===== verification/Prelude.thy ===== *)
theory Prelude
  imports Main "HOL-Library.Word"
begin

text \<open>
  Shared ground of the development: names for Rust's machine integers, the conversions and
  standard-library operations the sources use (casts, little-endian bytes, decimal printing
  and parsing, hash-map filtering), what the standard library supplies to one call of the
  core (clock readings and hash-map iteration order), and the generic lemmas and
  \<^theory_text>\<open>named_theorems\<close> collections the component theories draw on.
\<close>

unbundle bit_operations_syntax

named_theorems wf_defs \<open>definitions of the well-formedness predicates\<close>
named_theorems handler_defs \<open>definitions unfolded when a handler is executed symbolically\<close>

section \<open>Machine integers\<close>

text \<open>
  \<open>u8\<close>, \<open>u32\<close> and \<open>u64\<close> are words, so their arithmetic wraps. \<open>usize\<close> values of the
  sources are lengths and counters and are modelled by \<open>nat\<close>, \<open>i32\<close> values (file
  descriptors, process ids, error numbers, timeouts) by \<open>int\<close>, with \<open>as_i32\<close> written
  wherever the source casts a wider value down.
\<close>

type_synonym u8 = "8 word"
type_synonym u32 = "32 word"
type_synonym u64 = "64 word"
type_synonym usize = nat
type_synonym i32 = int
type_synonym bytes = "u8 list"

definition i32_max :: int where
  "i32_max = 2147483647"

definition as_i32 :: "int \<Rightarrow> i32" where
  "as_i32 x = (x + 2147483648) mod 4294967296 - 2147483648"

lemma as_i32_range: "- 2147483648 \<le> as_i32 x \<and> as_i32 x \<le> i32_max"
proof -
  have "0 \<le> (x + 2147483648) mod 4294967296" "(x + 2147483648) mod 4294967296 < 4294967296"
    by simp_all
  then show ?thesis by (simp add: as_i32_def i32_max_def)
qed

lemma as_i32_id [simp]: "- 2147483648 \<le> x \<Longrightarrow> x \<le> i32_max \<Longrightarrow> as_i32 x = x"
  by (simp add: as_i32_def i32_max_def)

section \<open>Clock and durations\<close>

text \<open>
  \<open>std::time::Instant\<close> is a number of nanoseconds since an arbitrary origin.
  \<open>Duration::from_millis\<close> and \<open>as_millis\<close> convert; \<open>duration_since\<close> saturates at
  zero, as subtraction on \<open>nat\<close> does.
\<close>

type_synonym instant = nat

definition from_millis :: "nat \<Rightarrow> nat" where
  "from_millis ms = ms * 1000000"

definition as_millis :: "nat \<Rightarrow> nat" where
  "as_millis d = d div 1000000"

definition from_secs :: "nat \<Rightarrow> nat" where
  "from_secs s = s * 1000000000"

lemma as_millis_from_millis [simp]: "as_millis (from_millis n) = n"
  by (simp add: as_millis_def from_millis_def)

lemma as_millis_mono: "d \<le> d' \<Longrightarrow> as_millis d \<le> as_millis d'"
  by (simp add: as_millis_def div_le_mono)

section \<open>What the standard library supplies to one call of the core\<close>

text \<open>
  A handler of the core may read the clock and may iterate over a \<open>HashMap\<close>, whose order
  is unspecified. \<open>env_now\<close> is the reading a handler takes, \<open>env_now'\<close> the later
  reading \<open>evict_results\<close> takes within the same call, and \<open>env_iter\<close> lists a finite key
  set in the order a hash map with these keys is visited. Nothing but \<open>env_ok\<close> is ever
  assumed of them.
\<close>

record std_env =
  env_now :: instant
  env_now' :: instant
  env_iter :: "u64 set \<Rightarrow> u64 list"

definition env_ok :: "std_env \<Rightarrow> bool" where
  "env_ok e \<longleftrightarrow> env_now e \<le> env_now' e \<and>
     (\<forall>K. finite K \<longrightarrow> distinct (env_iter e K) \<and> set (env_iter e K) = K)"

lemma env_ok_iter:
  assumes "env_ok e" and "finite K"
  shows "distinct (env_iter e K)" and "set (env_iter e K) = K"
  using assms by (simp_all add: env_ok_def)

lemma env_ok_iter_length: "env_ok e \<Longrightarrow> finite K \<Longrightarrow> length (env_iter e K) = card K"
  by (metis env_ok_iter distinct_card)

text \<open>The environment that visits the keys in increasing order, for closed instances.\<close>

definition env_at :: "instant \<Rightarrow> instant \<Rightarrow> std_env" where
  "env_at t t' = \<lparr>env_now = t, env_now' = t', env_iter = sorted_list_of_set\<rparr>"

lemma env_at_ok [simp]: "t \<le> t' \<Longrightarrow> env_ok (env_at t t')"
  by (simp add: env_ok_def env_at_def)

lemma env_at_sel [simp]:
  "env_now (env_at t t') = t" "env_now' (env_at t t') = t'"
  "env_iter (env_at t t') = sorted_list_of_set"
  by (simp_all add: env_at_def)

section \<open>Hash maps\<close>

text \<open>
  \<open>HashMap<K, V>\<close> is a finite partial function. \<open>retain\<close> is \<open>HashMap::retain\<close>;
  \<open>remove_keys\<close> removes a list of keys one after the other.
\<close>

definition retain :: "('k \<Rightarrow> 'v \<Rightarrow> bool) \<Rightarrow> ('k \<rightharpoonup> 'v) \<Rightarrow> ('k \<rightharpoonup> 'v)" where
  "retain P m = (\<lambda>k. case m k of None \<Rightarrow> None | Some v \<Rightarrow> if P k v then Some v else None)"

lemma retain_empty [simp]: "retain P Map.empty = Map.empty"
  by (simp add: retain_def)

lemma retain_upd [simp]:
  "retain P (m(k \<mapsto> v)) = (if P k v then (retain P m)(k \<mapsto> v) else (retain P m)(k := None))"
  by (auto simp: retain_def fun_eq_iff)

lemma retain_None_upd [simp]: "retain P (m(k := None)) = (retain P m)(k := None)"
  by (auto simp: retain_def fun_eq_iff)

lemma retain_Some_iff: "retain P m k = Some v \<longleftrightarrow> m k = Some v \<and> P k v"
  by (auto simp: retain_def split: option.splits)

lemma retain_le: "retain P m \<subseteq>\<^sub>m m"
  by (auto simp: map_le_def retain_def split: option.splits if_splits)

lemma dom_retain: "dom (retain P m) = {k \<in> dom m. P k (the (m k))}"
  by (auto simp: retain_def split: option.splits if_splits)

lemma finite_dom_retain [simp]: "finite (dom m) \<Longrightarrow> finite (dom (retain P m))"
  by (simp add: dom_retain)

primrec remove_keys :: "'k list \<Rightarrow> ('k \<rightharpoonup> 'v) \<Rightarrow> ('k \<rightharpoonup> 'v)" where
  "remove_keys [] m = m"
| "remove_keys (k # ks) m = remove_keys ks (m(k := None))"

lemma remove_keys_apply: "remove_keys ks m k = (if k \<in> set ks then None else m k)"
  by (induction ks arbitrary: m) auto

lemma dom_remove_keys: "dom (remove_keys ks m) = dom m - set ks"
  by (auto simp: remove_keys_apply split: if_splits)

lemma remove_keys_le: "remove_keys ks m \<subseteq>\<^sub>m m"
  by (auto simp: map_le_def remove_keys_apply domIff)

lemma dom_upd_None_subset: "dom (m(k := None)) \<subseteq> dom m"
  by auto

lemma map_le_upd_fresh: "f \<subseteq>\<^sub>m g \<Longrightarrow> k \<notin> dom g \<Longrightarrow> f \<subseteq>\<^sub>m g(k \<mapsto> v)"
  by (auto simp: map_le_def dom_def)

lemma inj_map_same: "inj_on f (dom f) \<Longrightarrow> f a = Some v \<Longrightarrow> f b = Some v \<Longrightarrow> a = b"
  by (auto simp: inj_on_def dom_def)

lemma inj_map_remove: "inj_on f (dom f) \<Longrightarrow> inj_on (f(k := None)) (dom (f(k := None)))"
  by (auto simp: inj_on_def)

lemma ran_remove:
  assumes "inj_on f (dom f)" and "f k = Some v"
  shows "ran (f(k := None)) = ran f - {v}"
proof (intro equalityI subsetI)
  fix x assume "x \<in> ran (f(k := None))"
  then obtain j where "j \<noteq> k" "f j = Some x" by (auto simp: ran_def split: if_splits)
  with inj_map_same [OF assms(1) _ assms(2)] show "x \<in> ran f - {v}" by (auto simp: ran_def)
next
  fix x assume "x \<in> ran f - {v}"
  then obtain j where j: "f j = Some x" "x \<noteq> v" by (auto simp: ran_def)
  with assms(2) have "j \<noteq> k" by auto
  with j(1) have "(f(k := None)) j = Some x" by simp
  then show "x \<in> ran (f(k := None))" by (rule ranI)
qed

lemma dom_upd_present: "m k = Some v \<Longrightarrow> dom (m(k \<mapsto> v')) = dom m"
  by auto

end
