(* ===== verification/CoreTypes.thy ===== *)
theory CoreTypes
  imports Prelude
begin

text \<open>
  The data of \<open>src/core/mod.rs\<close>: execution requests and their results, the three
  vocabularies of the action protocol (\<open>Action\<close>, \<open>Event\<close>, \<open>Effect\<close>), the job table
  and \<open>ExecutionState\<close>. Constructors keep the source's names; where two enums of the
  source share a variant name, the one of \<open>Action\<close> is kept and the other is prefixed
  (\<open>Ev_\<close>, \<open>Eff_\<close>, \<open>Log_\<close>, \<open>Lc_\<close>).
\<close>

section \<open>Requests and results\<close>

datatype cancel_policy = CancelNone | CancelGraceful | CancelKill

datatype process_handle = ProcessHandle u64
datatype io_handle = IoHandle u64

record exec_spec =
  spec_argv :: "string list"
  spec_stdin :: "bytes option"
  spec_capture_stdout :: bool
  spec_capture_stderr :: bool
  spec_max_output :: usize

record exec_policy =
  pol_timeout_ms :: "u32 option"
  pol_kill_grace_ms :: u32
  pol_cancel :: cancel_policy

record exec_result =
  res_status :: "i32 option"
  res_stdout :: bytes
  res_stderr :: bytes
  res_timed_out :: bool

datatype exec_error = SpawnFailed | RuntimeError | InternalError string

type_synonym exec_res = "exec_error + exec_result"

record exec_outcome =
  out_id :: u64
  out_result :: exec_res

section \<open>Logging and control\<close>

datatype log_level = Info | Warn | LevelError

datatype log_event =
    Log_Submit u64
  | Log_Spawn u64 i32
  | Log_Cancel u64
  | Log_ForceKill u64
  | Log_Exit u64 "i32 option"
  | Log_Timeout u64
  | Log_Error u64 string

datatype control_signal = GracefulStop | ForceKill

datatype io_stream = Stdout | Stderr | Stdin

section \<open>The action protocol\<close>

datatype event =
    Ev_ProcessStarted u64 process_handle io_handle
  | Ev_ProcessSpawnFailed u64 string
  | Ev_ProcessExited u64 "i32 option"
  | Ev_JobFdReady u64 bool bool bool

datatype action =
    Submit u64 u32 exec_spec exec_policy
  | Admitted u64 u32 exec_spec exec_policy
  | Rejected u64
  | Started u64
  | Controlled u64
  | Finished u64 exec_res
  | QueryResult u64 "exec_outcome option"
  | StartProcess u64 exec_spec exec_policy
  | SignalProcess u64 control_signal
  | PollProcess u64
  | PerformIo u64
  | RegisterInterest u64 io_stream
  | RemoveInterest u64 io_stream
  | EmitLog log_level log_event
  | Control u64 control_signal
  | Query u64
  | TimeoutReached u64
  | KillDeadlineReached u64

datatype effect =
    Eff_Log log_level log_event
  | Eff_WatchStream u64 io_handle io_stream
  | Eff_UnwatchStream u64 io_handle io_stream
  | Eff_StartProcess u64 exec_spec exec_policy
  | Eff_KillProcess u64 control_signal process_handle bool
  | Eff_PollProcess u64 process_handle
  | Eff_PerformIo u64 io_handle

section \<open>Execution state\<close>

datatype job_lifecycle =
  Lc_Submitted | Lc_Admitted | Lc_Running | Lc_Terminating | Lc_Killed | Lc_Finished

record job_state =
  job_id :: u64
  job_owner :: u32
  job_process :: "process_handle option"
  job_io :: "io_handle option"
  job_timed_out :: bool
  job_pgroup :: "i32 option"
  job_isolated :: bool

record stored_result =
  sr_result :: exec_res
  sr_owner :: u32
  sr_created :: instant

record execution_state =
  jobs :: "u64 \<rightharpoonup> job_state"
  lifecycle :: "u64 \<rightharpoonup> job_lifecycle"
  results :: "u64 \<rightharpoonup> stored_result"

definition execution_state_new :: execution_state where
  "execution_state_new = \<lparr>jobs = Map.empty, lifecycle = Map.empty, results = Map.empty\<rparr>"

section \<open>Job life cycle as a linear order\<close>

text \<open>
  The stages of a job in the order \<open>JobLifecycle\<close> declares them; \<open>\<le>\<close> is "at this stage
  or an earlier one".
\<close>

primrec stage_rank :: "job_lifecycle \<Rightarrow> nat" where
  "stage_rank Lc_Submitted = 0"
| "stage_rank Lc_Admitted = 1"
| "stage_rank Lc_Running = 2"
| "stage_rank Lc_Terminating = 3"
| "stage_rank Lc_Killed = 4"
| "stage_rank Lc_Finished = 5"

lemma stage_rank_inj: "stage_rank a = stage_rank b \<Longrightarrow> a = b"
  by (cases a; cases b) simp_all

instantiation job_lifecycle :: linorder
begin

definition less_eq_job_lifecycle :: "job_lifecycle \<Rightarrow> job_lifecycle \<Rightarrow> bool" where
  "a \<le> b \<longleftrightarrow> stage_rank a \<le> stage_rank b"

definition less_job_lifecycle :: "job_lifecycle \<Rightarrow> job_lifecycle \<Rightarrow> bool" where
  "a < b \<longleftrightarrow> stage_rank a < stage_rank b"

instance
  by standard
    (auto simp: less_eq_job_lifecycle_def less_job_lifecycle_def intro: stage_rank_inj)

end

section \<open>Well-formed execution states\<close>

text \<open>
  What every handler keeps of the job table: it is finite, each job is stored under its own
  identifier and has a life-cycle stage, a job has a process exactly when it has its I/O
  handle, and no job is in a process group of its own (nothing in the program ever sets
  \<open>pgroup\<close> or \<open>isolated\<close>).
\<close>

definition wf_job :: "u64 \<Rightarrow> job_state \<Rightarrow> bool" where
  [wf_defs]: "wf_job i j \<longleftrightarrow> job_id j = i \<and> (job_process j = None \<longleftrightarrow> job_io j = None)
     \<and> job_pgroup j = None \<and> \<not> job_isolated j"

definition wf_state :: "execution_state \<Rightarrow> bool" where
  [wf_defs]: "wf_state s \<longleftrightarrow> finite (dom (jobs s)) \<and> finite (dom (results s))
     \<and> dom (jobs s) \<subseteq> dom (lifecycle s) \<and> (\<forall>i j. jobs s i = Some j \<longrightarrow> wf_job i j)"

lemma wf_state_new: "wf_state execution_state_new"
  by (simp add: wf_defs execution_state_new_def)

lemma wf_state_job: "wf_state s \<Longrightarrow> jobs s i = Some j \<Longrightarrow> wf_job i j"
  by (simp add: wf_state_def)

lemma wf_state_put_job:
  assumes "wf_state s" and "wf_job i j" and "L = lifecycle s \<or> L = (lifecycle s)(i \<mapsto> st)"
    and "i \<in> dom L"
  shows "wf_state (s\<lparr>jobs := (jobs s)(i \<mapsto> j), lifecycle := L\<rparr>)"
  using assms by (auto simp: wf_state_def)

lemma wf_state_put_lifecycle:
  "wf_state s \<Longrightarrow> wf_state (s\<lparr>lifecycle := (lifecycle s)(i \<mapsto> st)\<rparr>)"
  by (auto simp: wf_state_def)

lemma wf_state_remove_job:
  "wf_state s \<Longrightarrow> wf_state (s\<lparr>jobs := (jobs s)(i := None)\<rparr>)"
  by (auto simp: wf_state_def split: if_splits)

lemma wf_state_put_results:
  "wf_state s \<Longrightarrow> finite (dom R) \<Longrightarrow> wf_state (s\<lparr>results := R\<rparr>)"
  by (simp add: wf_state_def)

end
