(* ===== verification/ModuleTrait.thy ===== *)
theory ModuleTrait
  imports CoreTypes
begin

text \<open>
  The trait \<open>Module\<close> of \<open>src/core/mod.rs\<close> as an interface. A module handles an action or an
  event with access to the shared \<open>ExecutionState\<close> and answers with new actions; here
  it returns the actions, the module and the state. The locale \<open>core_module\<close> states what the
  dispatcher relies on: a module keeps its own invariant and the state well-formed, touches
  no job but the one its input names, and answers with strictly less work than it was given.
  \<open>reactive_module\<close> adds the same laws for events.
\<close>

type_synonym 'm handler =
  "std_env \<Rightarrow> 'm \<Rightarrow> execution_state \<Rightarrow> action \<Rightarrow> action list \<times> 'm \<times> execution_state"

type_synonym 'm event_handler =
  "std_env \<Rightarrow> 'm \<Rightarrow> execution_state \<Rightarrow> event \<Rightarrow> action list \<times> 'm \<times> execution_state"

section \<open>The job an action or event is about\<close>

primrec action_job :: "action \<Rightarrow> u64" where
  "action_job (Submit i _ _ _) = i"
| "action_job (Admitted i _ _ _) = i"
| "action_job (Rejected i) = i"
| "action_job (Started i) = i"
| "action_job (Controlled i) = i"
| "action_job (Finished i _) = i"
| "action_job (QueryResult i _) = i"
| "action_job (StartProcess i _ _) = i"
| "action_job (SignalProcess i _) = i"
| "action_job (PollProcess i) = i"
| "action_job (PerformIo i) = i"
| "action_job (RegisterInterest i _) = i"
| "action_job (RemoveInterest i _) = i"
| "action_job (EmitLog _ ev) = (case ev of Log_Submit i \<Rightarrow> i | Log_Spawn i _ \<Rightarrow> i
     | Log_Cancel i \<Rightarrow> i | Log_ForceKill i \<Rightarrow> i | Log_Exit i _ \<Rightarrow> i | Log_Timeout i \<Rightarrow> i
     | Log_Error i _ \<Rightarrow> i)"
| "action_job (Control i _) = i"
| "action_job (Query i) = i"
| "action_job (TimeoutReached i) = i"
| "action_job (KillDeadlineReached i) = i"

primrec event_job :: "event \<Rightarrow> u64" where
  "event_job (Ev_ProcessStarted i _ _) = i"
| "event_job (Ev_ProcessSpawnFailed i _) = i"
| "event_job (Ev_ProcessExited i _) = i"
| "event_job (Ev_JobFdReady i _ _ _) = i"

definition same_but :: "u64 \<Rightarrow> execution_state \<Rightarrow> execution_state \<Rightarrow> bool" where
  "same_but i s s' \<longleftrightarrow> (\<forall>k. k \<noteq> i \<longrightarrow> jobs s' k = jobs s k \<and> lifecycle s' k = lifecycle s k)"

lemma same_but_refl [simp]: "same_but i s s"
  by (simp add: same_but_def)

lemma same_but_trans: "same_but i s s' \<Longrightarrow> same_but i s' s'' \<Longrightarrow> same_but i s s''"
  by (simp add: same_but_def)

section \<open>The work an action still causes\<close>

text \<open>
  A bound on the actions that handling an action can still give rise to. At most three
  modules handle an action, so a handler answers with less than a third of it; at most two
  handle an event.
\<close>

primrec event_weight :: "event \<Rightarrow> nat" where
  "event_weight (Ev_ProcessStarted _ _ _) = 7"
| "event_weight (Ev_ProcessSpawnFailed _ _) = 5"
| "event_weight (Ev_ProcessExited _ _) = 9"
| "event_weight (Ev_JobFdReady _ _ _ _) = 3"

primrec action_weight :: "action \<Rightarrow> nat" where
  "action_weight (Submit _ _ _ _) = 193"
| "action_weight (Admitted _ _ _ _) = 64"
| "action_weight (Rejected _) = 1"
| "action_weight (Started _) = 1"
| "action_weight (Controlled _) = 1"
| "action_weight (Finished _ _) = 4"
| "action_weight (QueryResult _ _) = 1"
| "action_weight (StartProcess _ _ _) = 21"
| "action_weight (SignalProcess _ _) = 1"
| "action_weight (PollProcess _) = 27"
| "action_weight (PerformIo _) = 1"
| "action_weight (RegisterInterest _ _) = 1"
| "action_weight (RemoveInterest _ _) = 1"
| "action_weight (EmitLog _ _) = 1"
| "action_weight (Control _ _) = 7"
| "action_weight (Query _) = 4"
| "action_weight (TimeoutReached _) = 4"
| "action_weight (KillDeadlineReached _) = 4"

lemma event_weight_pos [simp]: "0 < event_weight ev"
  by (cases ev) simp_all

definition queue_weight :: "action list \<Rightarrow> nat" where
  "queue_weight as = sum_list (map action_weight as)"

lemma action_weight_pos [simp]: "0 < action_weight a"
  by (cases a) simp_all

lemma queue_weight_simps [simp]:
  "queue_weight [] = 0"
  "queue_weight (a # as) = action_weight a + queue_weight as"
  "queue_weight (as @ bs) = queue_weight as + queue_weight bs"
  by (simp_all add: queue_weight_def)

lemma length_le_queue_weight: "length as \<le> queue_weight as"
proof (induction as)
  case (Cons a as)
  have "1 \<le> action_weight a" by (simp add: Suc_le_eq)
  with Cons show ?case by simp
qed simp

section \<open>Handlers within a budget\<close>

text \<open>
  A handler of a state \<open>'d\<close> that keeps \<open>dinv\<close>, stays with its job and answers with at most
  \<open>n\<close> shares of the work it was given. Shares add up when handlers run one after the other.
\<close>

definition good_handler :: "('d \<Rightarrow> bool) \<Rightarrow> nat \<Rightarrow> 'd handler \<Rightarrow> bool" where
  "good_handler dinv n h \<longleftrightarrow> (\<forall>e d s a as d' s'. h e d s a = (as, d', s') \<longrightarrow>
     3 * queue_weight as \<le> n * (action_weight a - 1)
     \<and> (\<forall>b \<in> set as. action_job b = action_job a) \<and> same_but (action_job a) s s'
     \<and> (env_ok e \<longrightarrow> dinv d \<longrightarrow> wf_state s \<longrightarrow> dinv d' \<and> wf_state s'))"

definition good_event_handler :: "('d \<Rightarrow> bool) \<Rightarrow> nat \<Rightarrow> 'd event_handler \<Rightarrow> bool" where
  "good_event_handler dinv n h \<longleftrightarrow> (\<forall>e d s ev as d' s'. h e d s ev = (as, d', s') \<longrightarrow>
     2 * queue_weight as \<le> n * (event_weight ev - 1)
     \<and> (\<forall>b \<in> set as. action_job b = event_job ev) \<and> same_but (event_job ev) s s'
     \<and> (env_ok e \<longrightarrow> dinv d \<longrightarrow> wf_state s \<longrightarrow> dinv d' \<and> wf_state s'))"

text \<open>Two handlers one after the other, their answers concatenated (\<open>actions.extend\<close>).\<close>

definition then_to :: "'d handler \<Rightarrow> 'd handler \<Rightarrow> 'd handler" where
  [handler_defs]: "then_to f g e d s a =
     (let (as, d1, s1) = f e d s a; (bs, d2, s2) = g e d1 s1 a in (as @ bs, d2, s2))"

definition then_event :: "'d event_handler \<Rightarrow> 'd event_handler \<Rightarrow> 'd event_handler" where
  [handler_defs]: "then_event f g e d s ev =
     (let (as, d1, s1) = f e d s ev; (bs, d2, s2) = g e d1 s1 ev in (as @ bs, d2, s2))"

lemma good_then:
  assumes "good_handler dinv m f" and "good_handler dinv n g"
  shows "good_handler dinv (m + n) (then_to f g)"
  unfolding good_handler_def
proof (intro allI impI)
  fix e d s a as d' s'
  assume "then_to f g e d s a = (as, d', s')"
  then obtain bs d1 s1 cs where f: "f e d s a = (bs, d1, s1)" and g: "g e d1 s1 a = (cs, d', s')"
    and as: "as = bs @ cs"
    by (auto simp: then_to_def Let_def split: prod.splits)
  note F = assms(1) [unfolded good_handler_def, rule_format, OF f]
  note G = assms(2) [unfolded good_handler_def, rule_format, OF g]
  show "3 * queue_weight as \<le> (m + n) * (action_weight a - 1)
     \<and> (\<forall>b \<in> set as. action_job b = action_job a) \<and> same_but (action_job a) s s'
     \<and> (env_ok e \<longrightarrow> dinv d \<longrightarrow> wf_state s \<longrightarrow> dinv d' \<and> wf_state s')"
    using F G as by (auto simp: add_mult_distrib intro: same_but_trans)
qed

lemma good_then_event:
  assumes "good_event_handler dinv m f" and "good_event_handler dinv n g"
  shows "good_event_handler dinv (m + n) (then_event f g)"
  unfolding good_event_handler_def
proof (intro allI impI)
  fix e d s ev as d' s'
  assume "then_event f g e d s ev = (as, d', s')"
  then obtain bs d1 s1 cs where f: "f e d s ev = (bs, d1, s1)"
    and g: "g e d1 s1 ev = (cs, d', s')" and as: "as = bs @ cs"
    by (auto simp: then_event_def Let_def split: prod.splits)
  note F = assms(1) [unfolded good_event_handler_def, rule_format, OF f]
  note G = assms(2) [unfolded good_event_handler_def, rule_format, OF g]
  show "2 * queue_weight as \<le> (m + n) * (event_weight ev - 1)
     \<and> (\<forall>b \<in> set as. action_job b = event_job ev) \<and> same_but (event_job ev) s s'
     \<and> (env_ok e \<longrightarrow> dinv d \<longrightarrow> wf_state s \<longrightarrow> dinv d' \<and> wf_state s')"
    using F G as by (auto simp: add_mult_distrib intro: same_but_trans)
qed

lemma good_handler_mono: "good_handler dinv m h \<Longrightarrow> m \<le> n \<Longrightarrow> good_handler dinv n h"
  unfolding good_handler_def by (meson le_trans mult_le_mono1)

lemma good_event_handler_mono:
  "good_event_handler dinv m h \<Longrightarrow> m \<le> n \<Longrightarrow> good_event_handler dinv n h"
  unfolding good_event_handler_def by (meson le_trans mult_le_mono1)

section \<open>The interface\<close>

locale core_module =
  fixes handle :: "'m handler"
    and handle_event :: "'m event_handler"
    and minv :: "'m \<Rightarrow> bool"
  assumes handle_inv: "env_ok e \<Longrightarrow> minv m \<Longrightarrow> wf_state s \<Longrightarrow> handle e m s a = (as, m', s') \<Longrightarrow>
      minv m' \<and> wf_state s'"
    and handle_event_inv: "env_ok e \<Longrightarrow> minv m \<Longrightarrow> wf_state s \<Longrightarrow>
      handle_event e m s ev = (as, m', s') \<Longrightarrow> minv m' \<and> wf_state s'"
    and handle_less: "handle e m s a = (as, m', s') \<Longrightarrow> 3 * queue_weight as < action_weight a"
    and handle_job: "handle e m s a = (as, m', s') \<Longrightarrow> b \<in> set as \<Longrightarrow> action_job b = action_job a"
    and handle_frame: "handle e m s a = (as, m', s') \<Longrightarrow> same_but (action_job a) s s'"
begin

lemma handle_wf: "env_ok e \<Longrightarrow> minv m \<Longrightarrow> wf_state s \<Longrightarrow> handle e m s a = (as, m', s') \<Longrightarrow>
    wf_state s'"
  by (blast dest: handle_inv)

lemma handle_minv: "env_ok e \<Longrightarrow> minv m \<Longrightarrow> wf_state s \<Longrightarrow> handle e m s a = (as, m', s') \<Longrightarrow>
    minv m'"
  by (blast dest: handle_inv)

lemma handle_not_self: "handle e m s a = (as, m', s') \<Longrightarrow> a \<notin> set as"
proof
  assume h: "handle e m s a = (as, m', s')" and "a \<in> set as"
  then have "action_weight a \<le> queue_weight as"
    by (auto simp: queue_weight_def intro: member_le_sum_list)
  with handle_less [OF h] show False by simp
qed

lemma handle_short: "handle e m s a = (as, m', s') \<Longrightarrow> 3 * length as < action_weight a"
  using handle_less length_le_queue_weight [of as] by fastforce

text \<open>A module held in a component of a larger state is a handler with one share.\<close>

lemma lift_good:
  assumes h: "\<And>e d s a. h e d s a = (let (as, m, s') = handle e (sel d) s a in (as, put m d, s'))"
    and sel: "\<And>d. dinv d \<Longrightarrow> minv (sel d)" and put: "\<And>d m. dinv d \<Longrightarrow> minv m \<Longrightarrow> dinv (put m d)"
  shows "good_handler dinv 1 h"
  unfolding good_handler_def
proof (intro allI impI)
  fix e d s a as d' s'
  assume "h e d s a = (as, d', s')"
  then obtain m where m: "handle e (sel d) s a = (as, m, s')" and d': "d' = put m d"
    by (auto simp: h Let_def split: prod.splits)
  show "3 * queue_weight as \<le> 1 * (action_weight a - 1)
     \<and> (\<forall>b \<in> set as. action_job b = action_job a) \<and> same_but (action_job a) s s'
     \<and> (env_ok e \<longrightarrow> dinv d \<longrightarrow> wf_state s \<longrightarrow> dinv d' \<and> wf_state s')"
    using handle_less [OF m] handle_job [OF m] handle_frame [OF m] handle_inv [OF _ _ _ m] sel put d'
    by auto
qed

end

locale reactive_module = core_module +
  assumes handle_event_less:
      "handle_event e m s ev = (as, m', s') \<Longrightarrow> 2 * queue_weight as < event_weight ev"
    and handle_event_job:
      "handle_event e m s ev = (as, m', s') \<Longrightarrow> b \<in> set as \<Longrightarrow> action_job b = event_job ev"
    and handle_event_frame: "handle_event e m s ev = (as, m', s') \<Longrightarrow> same_but (event_job ev) s s'"
begin

lemma handle_event_wf: "env_ok e \<Longrightarrow> minv m \<Longrightarrow> wf_state s \<Longrightarrow>
    handle_event e m s ev = (as, m', s') \<Longrightarrow> wf_state s'"
  by (blast dest: handle_event_inv)

lemma handle_event_minv: "env_ok e \<Longrightarrow> minv m \<Longrightarrow> wf_state s \<Longrightarrow>
    handle_event e m s ev = (as, m', s') \<Longrightarrow> minv m'"
  by (blast dest: handle_event_inv)

lemma lift_good_event:
  assumes h: "\<And>e d s ev. h e d s ev =
      (let (as, m, s') = handle_event e (sel d) s ev in (as, put m d, s'))"
    and sel: "\<And>d. dinv d \<Longrightarrow> minv (sel d)" and put: "\<And>d m. dinv d \<Longrightarrow> minv m \<Longrightarrow> dinv (put m d)"
  shows "good_event_handler dinv 1 h"
  unfolding good_event_handler_def
proof (intro allI impI)
  fix e d s ev as d' s'
  assume "h e d s ev = (as, d', s')"
  then obtain m where m: "handle_event e (sel d) s ev = (as, m, s')" and d': "d' = put m d"
    by (auto simp: h Let_def split: prod.splits)
  show "2 * queue_weight as \<le> 1 * (event_weight ev - 1)
     \<and> (\<forall>b \<in> set as. action_job b = event_job ev) \<and> same_but (event_job ev) s s'
     \<and> (env_ok e \<longrightarrow> dinv d \<longrightarrow> wf_state s \<longrightarrow> dinv d' \<and> wf_state s')"
    using handle_event_less [OF m] handle_event_job [OF m] handle_event_frame [OF m]
      handle_event_inv [OF _ _ _ m] sel put d'
    by auto
qed

end

text \<open>
  What the main loop relies on: an engine that answers every action with strictly less work,
  stays with the job and keeps its invariant. Every module is one; so is the dispatcher.
\<close>

locale action_engine =
  fixes act :: "'d handler" and react :: "'d event_handler" and dinv :: "'d \<Rightarrow> bool"
  assumes act_good: "good_handler dinv 3 act"
    and react_good: "good_event_handler dinv 2 react"
begin

lemma act_less: "act e d s a = (as, d', s') \<Longrightarrow> queue_weight as < action_weight a"
  using act_good unfolding good_handler_def
  by (metis (no_types, lifting) One_nat_def Suc_pred action_weight_pos le_imp_less_Suc
      mult_le_cancel1 zero_less_numeral)

lemma react_less: "react e d s ev = (as, d', s') \<Longrightarrow> queue_weight as < event_weight ev"
  using react_good unfolding good_event_handler_def
  by (metis (no_types, lifting) One_nat_def Suc_pred event_weight_pos le_imp_less_Suc
      mult_le_cancel1 zero_less_numeral)

lemma act_job: "act e d s a = (as, d', s') \<Longrightarrow> b \<in> set as \<Longrightarrow> action_job b = action_job a"
  using act_good unfolding good_handler_def by blast

lemma react_job: "react e d s ev = (as, d', s') \<Longrightarrow> b \<in> set as \<Longrightarrow> action_job b = event_job ev"
  using react_good unfolding good_event_handler_def by blast

lemma act_frame: "act e d s a = (as, d', s') \<Longrightarrow> same_but (action_job a) s s'"
  using act_good unfolding good_handler_def by blast

lemma react_frame: "react e d s ev = (as, d', s') \<Longrightarrow> same_but (event_job ev) s s'"
  using react_good unfolding good_event_handler_def by blast

lemma act_inv: "act e d s a = (as, d', s') \<Longrightarrow> env_ok e \<Longrightarrow> dinv d \<Longrightarrow> wf_state s \<Longrightarrow>
    dinv d' \<and> wf_state s'"
  using act_good unfolding good_handler_def by blast

lemma react_inv: "react e d s ev = (as, d', s') \<Longrightarrow> env_ok e \<Longrightarrow> dinv d \<Longrightarrow> wf_state s \<Longrightarrow>
    dinv d' \<and> wf_state s'"
  using react_good unfolding good_event_handler_def by blast

end

sublocale reactive_module \<subseteq> engine: action_engine handle handle_event minv
proof unfold_locales
  have "good_handler minv 1 handle"
    by (rule lift_good [where sel = "\<lambda>d. d" and put = "\<lambda>m d. m"]) (simp_all add: split_beta)
  then show "good_handler minv 3 handle" by (rule good_handler_mono) simp
  have "good_event_handler minv 1 handle_event"
    by (rule lift_good_event [where sel = "\<lambda>d. d" and put = "\<lambda>m d. m"]) (simp_all add: split_beta)
  then show "good_event_handler minv 2 handle_event" by (rule good_event_handler_mono) simp
qed

end
