(* ===== verification/Decimal.thy ===== *)
theory Decimal
  imports Prelude
begin

text \<open>
  Decimal text as the standard library writes and reads it: \<open>{}\<close> formatting of unsigned and
  signed integers, \<open>{:?}\<close> formatting of \<open>Option<i32>\<close>, and \<open>str::parse\<close> at \<open>i32\<close> and
  \<open>u32\<close>. The sources print identifiers, limits and error codes into log lines and parse
  the names of \<open>/proc/self/fd\<close> entries and the Android API level.
\<close>

section \<open>Printing\<close>

definition digit :: "nat \<Rightarrow> char" where
  "digit d = char_of (48 + d)"

fun dec_nat :: "nat \<Rightarrow> string" where
  "dec_nat n = (if n < 10 then [digit n] else dec_nat (n div 10) @ [digit (n mod 10)])"

declare dec_nat.simps [simp del]

definition dec_int :: "int \<Rightarrow> string" where
  "dec_int x = (if x < 0 then ''-'' @ dec_nat (nat (- x)) else dec_nat (nat x))"

definition debug_option_int :: "int option \<Rightarrow> string" where
  "debug_option_int x = (case x of None \<Rightarrow> ''None'' | Some v \<Rightarrow> ''Some('' @ dec_int v @ '')'')"

section \<open>Parsing\<close>

definition digit_val :: "char \<Rightarrow> nat option" where
  "digit_val c = (let n = of_char c in if 48 \<le> n \<and> n \<le> 57 then Some (n - 48) else None)"

fun parse_digits :: "nat \<Rightarrow> string \<Rightarrow> nat option" where
  "parse_digits acc [] = Some acc"
| "parse_digits acc (c # cs) =
     (case digit_val c of None \<Rightarrow> None | Some d \<Rightarrow> parse_digits (10 * acc + d) cs)"

text \<open>\<open>parse_int lo hi\<close>: optional sign, at least one digit, and the value within bounds.\<close>

definition parse_int :: "int \<Rightarrow> int \<Rightarrow> string \<Rightarrow> int option" where
  "parse_int lo hi s =
     (let (neg, ds) = (case s of [] \<Rightarrow> (False, [])
                       | c # cs \<Rightarrow> if c = CHR ''-'' \<and> lo < 0 then (True, cs)
                                    else if c = CHR ''+'' then (False, cs) else (False, s))
      in if ds = [] then None
         else case parse_digits 0 ds of None \<Rightarrow> None
              | Some n \<Rightarrow> let v = (if neg then - int n else int n)
                          in if lo \<le> v \<and> v \<le> hi then Some v else None)"

definition parse_i32 :: "string \<Rightarrow> i32 option" where
  "parse_i32 s = parse_int (- 2147483648) 2147483647 s"

definition parse_u32 :: "string \<Rightarrow> int option" where
  "parse_u32 s = parse_int 0 4294967295 s"

section \<open>Round trip\<close>

lemma digit_val_digit [simp]: "d < 10 \<Longrightarrow> digit_val (digit d) = Some d"
  by (simp add: digit_val_def digit_def Let_def)

lemma digit_not_sign [simp]:
  assumes "d < 10"
  shows "digit d \<noteq> CHR ''-''" and "digit d \<noteq> CHR ''+''"
proof -
  have code: "(of_char (digit d) :: nat) = 48 + d"
    using assms by (simp add: digit_def)
  show "digit d \<noteq> CHR ''-''"
  proof
    assume "digit d = CHR ''-''"
    then have "(of_char (digit d) :: nat) = of_char (CHR ''-'')" by simp
    then show False unfolding code by simp
  qed
  show "digit d \<noteq> CHR ''+''"
  proof
    assume "digit d = CHR ''+''"
    then have "(of_char (digit d) :: nat) = of_char (CHR ''+'')" by simp
    then show False unfolding code by simp
  qed
qed

lemma parse_digits_append:
  "parse_digits acc (xs @ ys) =
     (case parse_digits acc xs of None \<Rightarrow> None | Some n \<Rightarrow> parse_digits n ys)"
  by (induction xs arbitrary: acc) (auto split: option.splits)

lemma parse_digits_dec_nat: "parse_digits 0 (dec_nat n) = Some n"
proof (induction n rule: dec_nat.induct)
  case (1 n)
  show ?case
  proof (cases "n < 10")
    case True
    then show ?thesis by (subst dec_nat.simps) simp
  next
    case False
    with "1.IH" have "parse_digits 0 (dec_nat (n div 10)) = Some (n div 10)" by simp
    moreover have "dec_nat n = dec_nat (n div 10) @ [digit (n mod 10)]"
      using False by (subst dec_nat.simps) simp
    ultimately show ?thesis by (simp add: parse_digits_append)
  qed
qed

lemma dec_nat_Cons: "\<exists>d cs. d < 10 \<and> dec_nat n = digit d # cs"
proof (induction n rule: dec_nat.induct)
  case (1 n)
  show ?case
  proof (cases "n < 10")
    case True
    then show ?thesis by (subst dec_nat.simps) auto
  next
    case False
    with "1.IH" obtain d cs where "d < 10" "dec_nat (n div 10) = digit d # cs" by blast
    with False show ?thesis by (subst dec_nat.simps) auto
  qed
qed

lemma dec_nat_inj: "dec_nat m = dec_nat n \<Longrightarrow> m = n"
  by (metis parse_digits_dec_nat option.inject)

lemma parse_int_dec_nat:
  assumes "lo \<le> int n" and "int n \<le> hi"
  shows "parse_int lo hi (dec_nat n) = Some (int n)"
proof -
  obtain d cs where d: "d < 10" "dec_nat n = digit d # cs"
    using dec_nat_Cons by blast
  then have "parse_digits 0 (digit d # cs) = Some n"
    by (metis parse_digits_dec_nat)
  with d assms show ?thesis by (simp add: parse_int_def)
qed

lemma parse_i32_dec_int:
  assumes "- 2147483648 \<le> x" and "x \<le> 2147483647"
  shows "parse_i32 (dec_int x) = Some x"
proof (cases "x < 0")
  case True
  then have "dec_nat (nat (- x)) \<noteq> []" using dec_nat_Cons by (metis list.distinct(1))
  with True assms show ?thesis
    by (simp add: parse_i32_def parse_int_def dec_int_def parse_digits_dec_nat)
next
  case False
  then have "parse_int (- 2147483648) 2147483647 (dec_nat (nat x)) = Some (int (nat x))"
    using assms by (intro parse_int_dec_nat) simp_all
  with False show ?thesis by (simp add: parse_i32_def dec_int_def)
qed

end
