(* ===== verification/Policy.thy ===== *)
theory Policy
  imports ModuleTrait Decimal
begin

text \<open>
  \<open>src/core/policy.rs\<close>: the timeout module (a table of deadlines, its poll timeout and its
  periodic sweep) and admission control (a bounded counter of active jobs).
\<close>

section \<open>Timeouts: data\<close>

datatype timeout_state = WaitingForDeadline | WaitingForKillGrace instant

record timeout_entry =
  te_id :: u64
  te_state :: timeout_state
  te_deadline :: instant
  te_kill_grace_ms :: u32

record timeout_module =
  tracking :: "u64 \<rightharpoonup> timeout_entry"

definition timeout_module_new :: timeout_module where
  "timeout_module_new = \<lparr>tracking = Map.empty\<rparr>"

section \<open>Timeouts: operations\<close>

text \<open>
  \<open>compute_timeout_ms\<close> folds over the entries in hash-map order, with -1 standing for "no
  minimum yet" as well as for "block indefinitely"; the cast to \<open>i32\<close> wraps.
\<close>

definition entry_deadline :: "timeout_entry \<Rightarrow> instant" where
  "entry_deadline en =
     (case te_state en of WaitingForDeadline \<Rightarrow> te_deadline en | WaitingForKillGrace d \<Rightarrow> d)"

definition entry_ms :: "instant \<Rightarrow> timeout_entry \<Rightarrow> i32" where
  "entry_ms now en =
     (if entry_deadline en > now then as_i32 (int (as_millis (entry_deadline en - now))) else 0)"

definition min_ms_step :: "instant \<Rightarrow> i32 \<Rightarrow> timeout_entry \<Rightarrow> i32" where
  "min_ms_step now min_ms en =
     (let ms = entry_ms now en in if min_ms = -1 \<or> ms < min_ms then ms else min_ms)"

definition entries_in :: "std_env \<Rightarrow> (u64 \<rightharpoonup> 'v) \<Rightarrow> 'v list" where
  "entries_in e m = map (\<lambda>k. the (m k)) (env_iter e (dom m))"

definition compute_timeout_ms :: "std_env \<Rightarrow> timeout_module \<Rightarrow> i32" where
  "compute_timeout_ms e m = foldl (min_ms_step (env_now e)) (-1) (entries_in e (tracking m))"

fun timeout_handle :: "timeout_module handler" where
  "timeout_handle e m s (Admitted i owner exec policy) =
     ([EmitLog Info (Log_Submit i)],
      (case pol_timeout_ms policy of
         None \<Rightarrow> m
       | Some t \<Rightarrow> m\<lparr>tracking := (tracking m)(i \<mapsto>
           \<lparr>te_id = i, te_state = WaitingForDeadline,
            te_deadline = env_now e + from_millis (unat t),
            te_kill_grace_ms = pol_kill_grace_ms policy\<rparr>)\<rparr>),
      s)"
| "timeout_handle e m s (Finished i r) = ([], m\<lparr>tracking := (tracking m)(i := None)\<rparr>, s)"
| "timeout_handle e m s _ = ([], m, s)"

definition sweep_entry :: "instant \<Rightarrow> timeout_entry \<Rightarrow> action list \<times> timeout_entry" where
  "sweep_entry now en =
     (case te_state en of
        WaitingForDeadline \<Rightarrow>
          if now \<ge> te_deadline en
          then ([EmitLog Info (Log_Timeout (te_id en)), TimeoutReached (te_id en)],
                en\<lparr>te_state :=
                  WaitingForKillGrace (now + from_millis (unat (te_kill_grace_ms en)))\<rparr>)
          else ([], en)
      | WaitingForKillGrace grace_deadline \<Rightarrow>
          if now \<ge> grace_deadline then ([KillDeadlineReached (te_id en)], en) else ([], en))"

fun sweep :: "instant \<Rightarrow> u64 list \<Rightarrow> (u64 \<rightharpoonup> timeout_entry) \<Rightarrow>
    action list \<times> (u64 \<rightharpoonup> timeout_entry)" where
  "sweep now [] tr = ([], tr)"
| "sweep now (k # ks) tr =
     (case tr k of
        None \<Rightarrow> sweep now ks tr
      | Some en \<Rightarrow>
          (let (as, en') = sweep_entry now en; (bs, tr') = sweep now ks (tr(k \<mapsto> en'))
           in (as @ bs, tr')))"

definition timeout_handle_event :: "timeout_module event_handler" where
  "timeout_handle_event e m s ev =
     (let (as, tr) = sweep (env_now e) (env_iter e (dom (tracking m))) (tracking m)
      in (as, m\<lparr>tracking := tr\<rparr>, s))"

section \<open>Admission control\<close>

record admission_module =
  max_jobs :: usize
  active_jobs :: usize

definition admission_default :: admission_module where
  "admission_default = \<lparr>max_jobs = 64, active_jobs = 0\<rparr>"

text \<open>\<open>format!("max_jobs {} reached", self.max_jobs)\<close>\<close>

definition max_jobs_message :: "usize \<Rightarrow> string" where
  "max_jobs_message n = ''max_jobs '' @ dec_nat n @ '' reached''"

fun admission_handle :: "admission_module handler" where
  "admission_handle e m s (Submit i owner exec policy) =
     (if active_jobs m \<ge> max_jobs m
      then ([Rejected i,
             EmitLog LevelError (Log_Error i (max_jobs_message (max_jobs m)))],
            m, s)
      else ([Admitted i owner exec policy], m\<lparr>active_jobs := active_jobs m + 1\<rparr>, s))"
| "admission_handle e m s (Finished i r) =
     ([], if active_jobs m > 0 then m\<lparr>active_jobs := active_jobs m - 1\<rparr> else m, s)"
| "admission_handle e m s _ = ([], m, s)"

definition admission_handle_event :: "admission_module event_handler" where
  "admission_handle_event e m s ev = ([], m, s)"

section \<open>Module invariants\<close>

definition wf_timeout :: "timeout_module \<Rightarrow> bool" where
  [wf_defs]: "wf_timeout m \<longleftrightarrow> finite (dom (tracking m)) \<and>
     (\<forall>i en. tracking m i = Some en \<longrightarrow> te_id en = i)"

definition wf_admission :: "admission_module \<Rightarrow> bool" where
  [wf_defs]: "wf_admission m \<longleftrightarrow> active_jobs m \<le> max_jobs m"

lemma wf_timeout_new: "wf_timeout timeout_module_new"
  by (simp add: wf_timeout_def timeout_module_new_def)

lemma wf_admission_default: "wf_admission admission_default"
  by (simp add: wf_admission_def admission_default_def)

section \<open>The sweep, entry by entry\<close>

lemma sweep_entry_id: "te_id (snd (sweep_entry now en)) = te_id en"
  by (simp add: sweep_entry_def split: timeout_state.split)

text \<open>The table afterwards: every listed entry has been swept once, whatever the order.\<close>

lemma sweep_Cons_Some:
  assumes "tr k = Some en"
  shows "fst (sweep now (k # ks) tr) =
      fst (sweep_entry now en) @ fst (sweep now ks (tr(k \<mapsto> snd (sweep_entry now en))))"
    and "snd (sweep now (k # ks) tr) = snd (sweep now ks (tr(k \<mapsto> snd (sweep_entry now en))))"
  using assms by (simp_all add: split_beta Let_def)

lemma sweep_table:
  "distinct ks \<Longrightarrow> snd (sweep now ks tr) j =
     (if j \<in> set ks then map_option (\<lambda>en. snd (sweep_entry now en)) (tr j) else tr j)"
proof (induction ks arbitrary: tr)
  case (Cons k ks)
  then show ?case
    by (cases "tr k") (auto simp: sweep_Cons_Some simp del: sweep.simps(2), auto)
qed simp

text \<open>The actions: those of each listed entry, as a set.\<close>

definition swept_actions :: "instant \<Rightarrow> timeout_entry option \<Rightarrow> action set" where
  "swept_actions now x = (case x of None \<Rightarrow> {} | Some en \<Rightarrow> set (fst (sweep_entry now en)))"

lemma sweep_actions:
  "distinct ks \<Longrightarrow> set (fst (sweep now ks tr)) = (\<Union>k \<in> set ks. swept_actions now (tr k))"
proof (induction ks arbitrary: tr)
  case (Cons k ks)
  show ?case
  proof (cases "tr k")
    case None
    with Cons show ?thesis by (simp add: swept_actions_def)
  next
    case (Some en)
    have "(\<Union>j \<in> set ks. swept_actions now ((tr(k \<mapsto> snd (sweep_entry now en))) j)) =
        (\<Union>j \<in> set ks. swept_actions now (tr j))"
      using Cons.prems by (intro SUP_cong) auto
    with Some Cons show ?thesis
      by (simp add: sweep_Cons_Some swept_actions_def del: sweep.simps(2))
  qed
qed simp

lemma dom_sweep: "distinct ks \<Longrightarrow> dom (snd (sweep now ks tr)) = dom tr"
  by (auto simp: sweep_table split: if_splits)

lemma wf_timeout_sweep:
  assumes "wf_timeout m" and "distinct ks"
  shows "wf_timeout (m\<lparr>tracking := snd (sweep now ks (tracking m))\<rparr>)"
  using assms by (auto simp: wf_timeout_def dom_sweep sweep_table sweep_entry_id split: if_splits)

section \<open>Interpretations of the module interface\<close>

lemma timeout_handle_cases:
  assumes "timeout_handle e m s a = (as, m', s')"
  obtains (admitted) i ow ex po where "a = Admitted i ow ex po" "as = [EmitLog Info (Log_Submit i)]"
      "m' = (case pol_timeout_ms po of None \<Rightarrow> m
       | Some t \<Rightarrow> m\<lparr>tracking := (tracking m)(i \<mapsto>
           \<lparr>te_id = i, te_state = WaitingForDeadline,
            te_deadline = env_now e + from_millis (unat t),
            te_kill_grace_ms = pol_kill_grace_ms po\<rparr>)\<rparr>)" "s' = s"
  | (finished) i r where "a = Finished i r" "as = []"
      "m' = m\<lparr>tracking := (tracking m)(i := None)\<rparr>" "s' = s"
  | (other) "as = []" "m' = m" "s' = s"
  using assms by (cases a) auto

interpretation timeout: core_module timeout_handle timeout_handle_event wf_timeout
proof unfold_locales
  fix e m s a as m' s'
  assume "timeout_handle e m s a = (as, m', s')" and "wf_timeout m" and "wf_state s"
  then show "wf_timeout m' \<and> wf_state s'"
    by (cases rule: timeout_handle_cases)
      (auto simp: wf_timeout_def split: option.splits if_splits)
next
  fix e m s ev as m' s'
  assume e: "env_ok e" and m: "wf_timeout m" and s: "wf_state s"
    and h: "timeout_handle_event e m s ev = (as, m', s')"
  have "distinct (env_iter e (dom (tracking m)))"
    using e m by (simp add: env_ok_iter wf_timeout_def)
  with m h s show "wf_timeout m' \<and> wf_state s'"
    by (auto simp: timeout_handle_event_def split_beta Let_def dest: wf_timeout_sweep)
next
  fix e m s a as m' s'
  assume h: "timeout_handle e m s a = (as, m', s')"
  from h show "3 * queue_weight as < action_weight a"
    by (cases rule: timeout_handle_cases) simp_all
  from h show "same_but (action_job a) s s'"
    by (cases rule: timeout_handle_cases) simp_all
  fix b
  from h show "b \<in> set as \<Longrightarrow> action_job b = action_job a"
    by (cases rule: timeout_handle_cases) simp_all
qed

lemma admission_handle_cases:
  assumes "admission_handle e m s a = (as, m', s')"
  obtains (full) i ow ex po where "a = Submit i ow ex po" "active_jobs m \<ge> max_jobs m"
      "as = [Rejected i, EmitLog LevelError (Log_Error i (max_jobs_message (max_jobs m)))]" "m' = m" "s' = s"
  | (room) i ow ex po where "a = Submit i ow ex po" "active_jobs m < max_jobs m"
      "as = [Admitted i ow ex po]" "m' = m\<lparr>active_jobs := active_jobs m + 1\<rparr>" "s' = s"
  | (finished) i r where "a = Finished i r" "as = []"
      "m' = (if active_jobs m > 0 then m\<lparr>active_jobs := active_jobs m - 1\<rparr> else m)" "s' = s"
  | (other) "as = []" "m' = m" "s' = s"
proof (cases a)
  case (Submit i ow ex po)
  show thesis
  proof (cases "active_jobs m < max_jobs m")
    case True
    with assms Submit have "as = [Admitted i ow ex po]"
      "m' = m\<lparr>active_jobs := active_jobs m + 1\<rparr>" "s' = s" by auto
    with True show thesis by (rule room [OF Submit])
  next
    case False
    with assms Submit have
      "as = [Rejected i, EmitLog LevelError (Log_Error i (max_jobs_message (max_jobs m)))]"
      "m' = m" "s' = s" by auto
    moreover from False have "active_jobs m \<ge> max_jobs m" by simp
    ultimately show thesis by (intro full [OF Submit])
  qed
next
  case (Finished i r)
  with assms show thesis by (intro finished [OF Finished]) simp_all
qed (use assms other in simp_all)

interpretation admission: reactive_module admission_handle admission_handle_event wf_admission
proof unfold_locales
  fix e m s a as m' s'
  assume h: "admission_handle e m s a = (as, m', s')"
  from h show "wf_admission m \<Longrightarrow> wf_state s \<Longrightarrow> wf_admission m' \<and> wf_state s'"
    by (cases rule: admission_handle_cases) (auto simp: wf_admission_def)
  from h show "3 * queue_weight as < action_weight a"
    by (cases rule: admission_handle_cases) simp_all
  from h show "same_but (action_job a) s s'"
    by (cases rule: admission_handle_cases) simp_all
  fix b
  from h show "b \<in> set as \<Longrightarrow> action_job b = action_job a"
    by (cases rule: admission_handle_cases) auto
qed (simp_all add: admission_handle_event_def)

section \<open>Folding the admission handler over a sequence of actions\<close>

fun admission_run :: "std_env \<Rightarrow> admission_module \<Rightarrow> execution_state \<Rightarrow> action list \<Rightarrow>
    action list \<times> admission_module" where
  "admission_run e m s [] = ([], m)"
| "admission_run e m s (a # as) =
     (let (bs, m1, s1) = admission_handle e m s a; (cs, m2) = admission_run e m1 s1 as
      in (bs @ cs, m2))"

fun is_submit :: "action \<Rightarrow> bool" where
  "is_submit (Submit _ _ _ _) = True"
| "is_submit _ = False"

fun is_finished :: "action \<Rightarrow> bool" where
  "is_finished (Finished _ _) = True"
| "is_finished _ = False"

fun answer_admitted :: "action \<Rightarrow> action" where
  "answer_admitted (Submit i ow ex po) = Admitted i ow ex po"
| "answer_admitted a = a"

fun is_admitted :: "action \<Rightarrow> bool" where
  "is_admitted (Admitted _ _ _ _) = True"
| "is_admitted _ = False"

fun is_rejected :: "action \<Rightarrow> bool" where
  "is_rejected (Rejected _) = True"
| "is_rejected _ = False"

definition admits_first :: "admission_module \<Rightarrow> action list \<Rightarrow> action list \<times> admission_module \<Rightarrow> bool" where
  "admits_first m as r \<longleftrightarrow>
     filter is_admitted (fst r) = map answer_admitted (take (max_jobs m - active_jobs m) as)
   \<and> filter is_rejected (fst r) =
       map (\<lambda>a. Rejected (action_job a)) (drop (max_jobs m - active_jobs m) as)
   \<and> active_jobs (snd r) = min (max_jobs m) (active_jobs m + length as)"

lemma admission_run_admits:
  assumes "\<forall>a \<in> set as. is_submit a" and "active_jobs m \<le> max_jobs m"
  shows "admits_first m as (admission_run e m s as)"
  using assms
proof (induction as arbitrary: m s)
  case (Cons a as)
  from Cons.prems obtain i ow ex po where a: "a = Submit i ow ex po"
    by (cases a) auto
  show ?case
  proof (cases "active_jobs m < max_jobs m")
    case True
    then obtain n where n: "max_jobs m - active_jobs m = Suc n" by (metis Suc_diff_Suc)
    have "max_jobs m - Suc (active_jobs m) = n" using n by simp
    with Cons.IH [of "m\<lparr>active_jobs := active_jobs m + 1\<rparr>" s] Cons.prems True a n
    show ?thesis by (simp add: split_beta Let_def admits_first_def)
  next
    case False
    with Cons.IH [of m s] Cons.prems a show ?thesis
      by (simp add: split_beta Let_def admits_first_def)
  qed
qed (simp add: admits_first_def)

section \<open>The poll timeout as a minimum\<close>

lemma foldl_min_ms:
  assumes "\<forall>en \<in> set ens. 0 \<le> entry_ms now en" and "b \<noteq> -1"
  shows "foldl (min_ms_step now) b ens = Min (insert b (entry_ms now ` set ens))"
  using assms
proof (induction ens arbitrary: b)
  case (Cons en ens)
  have s: "min_ms_step now b en = min (entry_ms now en) b"
    using Cons.prems by (auto simp: min_ms_step_def Let_def)
  have "min (entry_ms now en) b \<noteq> -1" using Cons.prems by (auto simp: min_def)
  with Cons s show ?case
    by (cases "ens = []") (auto simp: insert_commute Min_insert min.assoc)
qed simp

definition short_timeouts :: "instant \<Rightarrow> timeout_module \<Rightarrow> bool" where
  "short_timeouts now m \<longleftrightarrow>
     (\<forall>en \<in> ran (tracking m). int (as_millis (entry_deadline en - now)) \<le> i32_max)"

definition remaining_ms :: "instant \<Rightarrow> timeout_entry \<Rightarrow> int" where
  "remaining_ms now en = int (as_millis (entry_deadline en - now))"

lemma entry_ms_short:
  "int (as_millis (entry_deadline en - now)) \<le> i32_max \<Longrightarrow> entry_ms now en = remaining_ms now en"
  by (auto simp: entry_ms_def remaining_ms_def as_millis_def)

lemma entries_in_set:
  "env_ok e \<Longrightarrow> finite (dom m) \<Longrightarrow> set (entries_in e m) = ran m"
  by (force simp: entries_in_def env_ok_iter ran_def image_def)

lemma sweep_entry_raises:
  "TimeoutReached j \<in> set (fst (sweep_entry now en)) \<longleftrightarrow>
     te_id en = j \<and> te_state en = WaitingForDeadline \<and> te_deadline en \<le> now"
  "KillDeadlineReached j \<in> set (fst (sweep_entry now en)) \<longleftrightarrow>
     te_id en = j \<and> (\<exists>g. te_state en = WaitingForKillGrace g \<and> g \<le> now)"
  by (cases "te_state en"; force simp: sweep_entry_def)+

lemma sweep_entry_next:
  "snd (sweep_entry now en) = (if te_state en = WaitingForDeadline \<and> te_deadline en \<le> now
     then en\<lparr>te_state := WaitingForKillGrace (now + from_millis (unat (te_kill_grace_ms en)))\<rparr>
     else en)"
  by (cases "te_state en") (simp_all add: sweep_entry_def)

lemma as_i32_wraps: "2147483648 \<le> x \<Longrightarrow> x < 4294967296 \<Longrightarrow> as_i32 x < 0"
proof -
  assume x: "2147483648 \<le> x" "x < 4294967296"
  have "(x + 2147483648) mod 4294967296 = (x - 2147483648) mod 4294967296"
    using mod_add_self2 [of "x - 2147483648" 4294967296] by (simp add: algebra_simps)
  with x show ?thesis by (simp add: as_i32_def)
qed

section \<open>Properties\<close>

text \<open>C23: Admission control. Given a sequence of submissions only, with \<open>active\<close> of
  \<open>max_jobs\<close> slots taken, the first \<open>max_jobs - active\<close> submissions are admitted in order with
  their request unchanged, every later one is rejected, and the counter ends at the number of
  taken slots, never beyond the limit.\<close>

theorem admission_capacity:
  assumes "\<forall>a \<in> set as. is_submit a" and "wf_admission m"
  shows "filter is_admitted (fst (admission_run e m s as)) =
      map answer_admitted (take (max_jobs m - active_jobs m) as) \<and>
    filter is_rejected (fst (admission_run e m s as)) =
      map (\<lambda>a. Rejected (action_job a)) (drop (max_jobs m - active_jobs m) as) \<and>
    active_jobs (snd (admission_run e m s as)) = min (max_jobs m) (active_jobs m + length as)"
  using admission_run_admits [OF assms(1)] assms(2) by (simp add: wf_admission_def admits_first_def)

definition demo_spec :: exec_spec where
  "demo_spec = \<lparr>spec_argv = [''ls''], spec_stdin = None, spec_capture_stdout = True,
     spec_capture_stderr = False, spec_max_output = 4096\<rparr>"

definition demo_policy :: exec_policy where
  "demo_policy = \<lparr>pol_timeout_ms = Some 1500, pol_kill_grace_ms = 500, pol_cancel = CancelKill\<rparr>"

lemma admission_capacity_witness:
  "filter is_rejected (fst (admission_run (env_at 0 0) \<lparr>max_jobs = 1, active_jobs = 0\<rparr>
     execution_state_new [Submit 1 0 demo_spec demo_policy, Submit 2 0 demo_spec demo_policy])) =
   [Rejected 2]"
  using admission_capacity [of "[Submit 1 0 demo_spec demo_policy, Submit 2 0 demo_spec demo_policy]"
      "\<lparr>max_jobs = 1, active_jobs = 0\<rparr>" "env_at 0 0" execution_state_new]
  by (simp add: wf_admission_def)

text \<open>C24: The timeout sweep is exact. Whatever the order in which the hash map is visited,
  \<open>TimeoutReached\<close> is raised for precisely the tracked jobs still waiting whose deadline has
  passed, \<open>KillDeadlineReached\<close> for precisely those whose grace period has passed, no entry is
  lost, and an entry whose deadline has passed moves to its grace period counted from now.\<close>

theorem timeout_sweep_exact:
  assumes "env_ok e" and "wf_timeout m" and "timeout_handle_event e m s ev = (as, m', s')"
  shows "(TimeoutReached i \<in> set as \<longleftrightarrow> (\<exists>en. tracking m i = Some en \<and>
        te_state en = WaitingForDeadline \<and> te_deadline en \<le> env_now e))
    \<and> (KillDeadlineReached i \<in> set as \<longleftrightarrow> (\<exists>en g. tracking m i = Some en \<and>
        te_state en = WaitingForKillGrace g \<and> g \<le> env_now e))
    \<and> tracking m' i = map_option (\<lambda>en.
        if te_state en = WaitingForDeadline \<and> te_deadline en \<le> env_now e
        then en\<lparr>te_state := WaitingForKillGrace
               (env_now e + from_millis (unat (te_kill_grace_ms en)))\<rparr>
        else en) (tracking m i)
    \<and> s' = s"
proof -
  let ?ks = "env_iter e (dom (tracking m))"
  have ks: "distinct ?ks" "set ?ks = dom (tracking m)"
    using assms(1,2) by (simp_all add: env_ok_iter wf_timeout_def)
  have as: "set as = (\<Union>k \<in> dom (tracking m). swept_actions (env_now e) (tracking m k))"
    and m': "tracking m' i = map_option (\<lambda>en. snd (sweep_entry (env_now e) en)) (tracking m i)"
    and s': "s' = s"
    using assms(3) sweep_actions [OF ks(1), of "env_now e" "tracking m"]
      sweep_table [OF ks(1), of "env_now e" "tracking m" i] ks(2)
    by (simp_all add: timeout_handle_event_def split_beta Let_def domIff) (auto split: if_splits)
  have ids: "te_id en = k" if "tracking m k = Some en" for k en
    using assms(2) that by (simp add: wf_timeout_def)
  have el: "a \<in> set as \<longleftrightarrow>
      (\<exists>k en. tracking m k = Some en \<and> a \<in> set (fst (sweep_entry (env_now e) en)))" for a
    by (force simp: as swept_actions_def)
  have "(TimeoutReached i \<in> set as \<longleftrightarrow> (\<exists>en. tracking m i = Some en \<and>
        te_state en = WaitingForDeadline \<and> te_deadline en \<le> env_now e))"
    unfolding el sweep_entry_raises(1) using ids by auto
  moreover have "KillDeadlineReached i \<in> set as \<longleftrightarrow> (\<exists>en g. tracking m i = Some en \<and>
        te_state en = WaitingForKillGrace g \<and> g \<le> env_now e)"
    unfolding el sweep_entry_raises(2) using ids by auto
  ultimately show ?thesis by (simp add: m' s' sweep_entry_next)
qed

definition demo_entry :: "u64 \<Rightarrow> instant \<Rightarrow> timeout_entry" where
  "demo_entry i t = \<lparr>te_id = i, te_state = WaitingForDeadline, te_deadline = t,
     te_kill_grace_ms = 500\<rparr>"

lemma demo_entry_id [simp]: "te_id (demo_entry i t) = i"
  by (simp add: demo_entry_def)

definition demo_timeouts :: timeout_module where
  "demo_timeouts = \<lparr>tracking = [7 \<mapsto> demo_entry 7 20000000, 8 \<mapsto> demo_entry 8 40000000]\<rparr>"

lemma demo_timeouts_simps:
  "wf_timeout demo_timeouts" "tracking demo_timeouts 7 = Some (demo_entry 7 20000000)"
  "ran (tracking demo_timeouts) = {demo_entry 7 20000000, demo_entry 8 40000000}"
  "tracking demo_timeouts \<noteq> Map.empty"
  by (simp_all add: wf_timeout_def demo_timeouts_def insert_commute)

lemma timeout_sweep_exact_witness:
  "\<exists>as m' s'. timeout_handle_event (env_at 30000000 30000000) demo_timeouts execution_state_new
      (Ev_ProcessExited 0 None) = (as, m', s') \<and> TimeoutReached 7 \<in> set as"
proof -
  obtain as m' s' where h: "timeout_handle_event (env_at 30000000 30000000) demo_timeouts
      execution_state_new (Ev_ProcessExited 0 None) = (as, m', s')"
    by (rule prod_cases3)
  from timeout_sweep_exact [OF _ demo_timeouts_simps(1) h, of 7] h show ?thesis
    by (simp add: demo_timeouts_simps demo_entry_def)
qed

lemma compute_timeout_short:
  assumes "env_ok e" and "wf_timeout m" and "short_timeouts (env_now e) m"
  shows "compute_timeout_ms e m =
    (if tracking m = Map.empty then -1 else Min (remaining_ms (env_now e) ` ran (tracking m)))"
proof -
  let ?ens = "entries_in e (tracking m)"
  have st: "set ?ens = ran (tracking m)"
    using assms(1,2) by (simp add: entries_in_set wf_timeout_def)
  have ms: "entry_ms (env_now e) en = remaining_ms (env_now e) en" if "en \<in> set ?ens" for en
    using that assms(3) by (auto simp: st short_timeouts_def intro: entry_ms_short)
  then have pos: "\<forall>en \<in> set ?ens. 0 \<le> entry_ms (env_now e) en"
    by (simp add: remaining_ms_def)
  show ?thesis
  proof (cases ?ens)
    case Nil
    with st have "\<And>k. tracking m k = None" by (auto simp: ran_def) (metis option.exhaust)
    then have "tracking m = Map.empty" by (rule ext)
    with Nil show ?thesis by (simp add: compute_timeout_ms_def)
  next
    case (Cons en ens)
    then have ne: "tracking m \<noteq> Map.empty" using st by auto
    have "min_ms_step (env_now e) (-1) en = entry_ms (env_now e) en"
      by (simp add: min_ms_step_def)
    then have "compute_timeout_ms e m = Min (entry_ms (env_now e) ` set ?ens)"
      using foldl_min_ms [of ens "env_now e" "entry_ms (env_now e) en"] pos Cons
      by (simp add: compute_timeout_ms_def)
    also have "entry_ms (env_now e) ` set ?ens = remaining_ms (env_now e) ` ran (tracking m)"
      using ms st by (metis image_cong)
    finally show ?thesis using ne by simp
  qed
qed

text \<open>Below -1 the running minimum is never mistaken for "none yet" again.\<close>

lemma foldl_below:
  "x < -1 \<Longrightarrow> foldl (min_ms_step now) x ens < -1"
  by (induction ens arbitrary: x) (simp_all add: min_ms_step_def Let_def)

lemma foldl_wrapped:
  "\<exists>en \<in> set ens. entry_ms now en < -1 \<Longrightarrow> foldl (min_ms_step now) x ens < -1"
proof (induction ens arbitrary: x)
  case (Cons en ens)
  show ?case
  proof (cases "entry_ms now en < -1")
    case True
    then have "min_ms_step now x en < -1" by (auto simp: min_ms_step_def Let_def)
    then show ?thesis by (simp add: foldl_below)
  next
    case False
    with Cons show ?thesis by simp
  qed
qed simp

lemma entry_ms_wrapped:
  assumes "2147483648 \<le> remaining_ms now en" and "remaining_ms now en < 4294967295"
  shows "entry_ms now en < -1"
proof -
  let ?x = "remaining_ms now en"
  have "entry_deadline en > now"
    using assms(1) by (cases "entry_deadline en > now") (simp_all add: remaining_ms_def as_millis_def)
  then have "entry_ms now en = as_i32 ?x" by (simp add: entry_ms_def remaining_ms_def)
  also have "\<dots> = ?x - 4294967296"
    using assms by (simp add: as_i32_def mod_pos_geq mod_pos_pos_trivial)
  finally show ?thesis using assms(2) by simp
qed

text \<open>C25: The poll timeout. \<open>compute_timeout_ms\<close> is -1 (block indefinitely) when nothing is tracked.
  While no tracked job has more than \<open>i32::MAX\<close> milliseconds left it is the least number of
  milliseconds any of them has left, whatever order the hash map iterates in, and so 0 as soon
  as a deadline has passed. But a single job with \<open>2^31\<close> to \<open>2^32 - 2\<close> milliseconds left makes it
  negative, because the cast wraps: the reactor then blocks without a limit although other
  deadlines may be near.\<close>

theorem compute_timeout_ms_min:
  assumes "env_ok e" and "wf_timeout m"
  shows "(tracking m = Map.empty \<longrightarrow> compute_timeout_ms e m = -1)
    \<and> (tracking m \<noteq> Map.empty \<longrightarrow> short_timeouts (env_now e) m \<longrightarrow>
         compute_timeout_ms e m = Min (remaining_ms (env_now e) ` ran (tracking m)))
    \<and> ((\<exists>en \<in> ran (tracking m). 2147483648 \<le> remaining_ms (env_now e) en
           \<and> remaining_ms (env_now e) en < 4294967295) \<longrightarrow> compute_timeout_ms e m < 0)"
proof (intro conjI impI)
  assume "tracking m = Map.empty"
  then show "compute_timeout_ms e m = -1"
    using compute_timeout_short [OF assms] by (simp add: short_timeouts_def)
next
  assume "tracking m \<noteq> Map.empty" and "short_timeouts (env_now e) m"
  then show "compute_timeout_ms e m = Min (remaining_ms (env_now e) ` ran (tracking m))"
    using compute_timeout_short [OF assms] by simp
next
  assume "\<exists>en \<in> ran (tracking m). 2147483648 \<le> remaining_ms (env_now e) en
    \<and> remaining_ms (env_now e) en < 4294967295"
  then have "\<exists>en \<in> ran (tracking m). entry_ms (env_now e) en < -1" by (fast intro: entry_ms_wrapped)
  then have "\<exists>en \<in> set (entries_in e (tracking m)). entry_ms (env_now e) en < -1"
    using assms by (simp add: entries_in_set wf_timeout_def)
  from foldl_wrapped [OF this, of "-1"] show "compute_timeout_ms e m < 0"
    by (simp add: compute_timeout_ms_def)
qed

lemma compute_timeout_ms_min_witness:
  "compute_timeout_ms (env_at 0 0) demo_timeouts = 20"
proof -
  have "short_timeouts (env_now (env_at 0 0)) demo_timeouts"
    by (simp add: short_timeouts_def demo_timeouts_simps demo_entry_def as_millis_def
        entry_deadline_def i32_max_def)
  with compute_timeout_ms_min [OF _ demo_timeouts_simps(1), of "env_at 0 0"] show ?thesis
    by (simp add: demo_timeouts_simps demo_entry_def remaining_ms_def as_millis_def
        entry_deadline_def)
qed

text \<open>Beyond \<open>i32::MAX\<close> milliseconds the cast wraps. A job admitted with a timeout of
  \<open>2^31\<close> milliseconds or more (the policy admits any \<open>u32\<close>) makes the poll timeout negative
  when it alone is tracked, so the reactor blocks without a limit instead of waking at the
  deadline.\<close>

theorem long_timeout_wraps:
  assumes "pol_timeout_ms po = Some t" and "2147483648 \<le> unat t"
    and "timeout_handle e \<lparr>tracking = Map.empty\<rparr> s (Admitted i ow ex po) = (as, m', s')"
  shows "compute_timeout_ms (env_at (env_now e) (env_now e)) m' < 0"
proof -
  have "unat t < 4294967296" using unsigned_less [of t, where ?'a = nat] by simp
  then have neg: "as_i32 (int (unat t)) < 0"
    using assms(2) by (intro as_i32_wraps) linarith+
  define en where "en = \<lparr>te_id = i, te_state = WaitingForDeadline,
      te_deadline = env_now e + from_millis (unat t), te_kill_grace_ms = pol_kill_grace_ms po\<rparr>"
  have "m' = \<lparr>tracking = [i \<mapsto> en]\<rparr>" using assms(1,3) by (simp add: en_def)
  moreover have dl: "entry_deadline en = env_now e + from_millis (unat t)"
    by (simp add: entry_deadline_def en_def)
  moreover have "0 < from_millis (unat t)" using assms(2) by (simp add: from_millis_def)
  then have "entry_ms (env_now e) en = as_i32 (int (unat t))"
    by (simp add: entry_ms_def dl)
  ultimately show ?thesis
    using neg by (simp add: compute_timeout_ms_def entries_in_def min_ms_step_def)
qed

lemma long_timeout_wraps_witness:
  "compute_timeout_ms (env_at 5 5) (fst (snd (timeout_handle (env_at 5 5) timeout_module_new
     execution_state_new (Admitted 1 0 demo_spec (demo_policy\<lparr>pol_timeout_ms := Some 4294967295\<rparr>))))) < 0"
  using long_timeout_wraps [of "demo_policy\<lparr>pol_timeout_ms := Some 4294967295\<rparr>" 4294967295
      "env_at 5 5" execution_state_new 1 0 demo_spec]
  by (simp add: timeout_module_new_def)

end
