(* ===== verification/Lifecycle.thy ===== *)
theory Lifecycle
  imports ModuleTrait
begin

text \<open>
  The three stateless modules that act on the job table: \<open>src/core/lifecycle.rs\<close> (job
  creation and stage changes), \<open>src/core/process.rs\<close> (control requests and deadlines to
  signals) and \<open>src/core/io.rs\<close> (stream interest and readiness).
\<close>

datatype lifecycle_module = LifecycleModule
datatype process_module = ProcessModule
datatype io_module = IoModule

section \<open>Lifecycle\<close>

definition new_job :: "u64 \<Rightarrow> u32 \<Rightarrow> job_state" where
  "new_job i owner = \<lparr>job_id = i, job_owner = owner, job_process = None, job_io = None,
     job_timed_out = False, job_pgroup = None, job_isolated = False\<rparr>"

fun lifecycle_handle :: "lifecycle_module handler" where
  "lifecycle_handle e m s (Admitted i owner exec policy) =
     ([StartProcess i exec policy], m,
      s\<lparr>jobs := (jobs s)(i \<mapsto> new_job i owner), lifecycle := (lifecycle s)(i \<mapsto> Lc_Admitted)\<rparr>)"
| "lifecycle_handle e m s (SignalProcess i signal) =
     ([], m,
      (case jobs s i of
         None \<Rightarrow> s
       | Some job \<Rightarrow>
           if signal = GracefulStop
           then s\<lparr>jobs := (jobs s)(i \<mapsto> job\<lparr>job_timed_out := True\<rparr>),
                  lifecycle := (lifecycle s)(i \<mapsto> Lc_Terminating)\<rparr>
           else if signal = ForceKill
           then s\<lparr>lifecycle := (lifecycle s)(i \<mapsto> Lc_Killed)\<rparr>
           else s))"
| "lifecycle_handle e m s _ = ([], m, s)"

fun lifecycle_handle_event :: "lifecycle_module event_handler" where
  "lifecycle_handle_event e m s (Ev_ProcessStarted i process io) =
     (case jobs s i of
        None \<Rightarrow> ([], m, s)
      | Some job \<Rightarrow>
          ([Started i], m,
           s\<lparr>jobs := (jobs s)(i \<mapsto> job\<lparr>job_process := Some process, job_io := Some io\<rparr>),
             lifecycle := (lifecycle s)(i \<mapsto> Lc_Running)\<rparr>))"
| "lifecycle_handle_event e m s (Ev_ProcessSpawnFailed i err) =
     ([Rejected i, EmitLog LevelError (Log_Error i err)], m,
      s\<lparr>lifecycle := (lifecycle s)(i \<mapsto> Lc_Finished)\<rparr>)"
| "lifecycle_handle_event e m s _ = ([], m, s)"

section \<open>Process\<close>

fun process_handle_action :: "process_module handler" where
  "process_handle_action e m s (Control i signal) =
     (case jobs s i of
        None \<Rightarrow> ([], m, s)
      | Some job \<Rightarrow>
          (if job_process job \<noteq> None \<and> \<not> job_timed_out job
           then [SignalProcess i signal, Controlled i] else [], m, s))"
| "process_handle_action e m s (TimeoutReached i) =
     (case jobs s i of
        None \<Rightarrow> ([], m, s)
      | Some job \<Rightarrow>
          (if job_process job \<noteq> None \<and> \<not> job_timed_out job
           then [SignalProcess i GracefulStop] else [], m, s))"
| "process_handle_action e m s (KillDeadlineReached i) =
     (case jobs s i of
        None \<Rightarrow> ([], m, s)
      | Some job \<Rightarrow>
          (if job_process job \<noteq> None \<and> \<not> job_timed_out job
           then [SignalProcess i ForceKill] else [], m, s))"
| "process_handle_action e m s _ = ([], m, s)"

definition process_handle_event :: "process_module event_handler" where
  "process_handle_event e m s ev = ([], m, s)"

section \<open>Io\<close>

definition io_handle_action :: "io_module handler" where
  "io_handle_action e m s a = ([], m, s)"

fun io_handle_event :: "io_module event_handler" where
  "io_handle_event e m s (Ev_ProcessStarted i process io) =
     ([RegisterInterest i Stdout, RegisterInterest i Stderr, RegisterInterest i Stdin], m, s)"
| "io_handle_event e m s (Ev_JobFdReady i readable writable err) =
     (if i \<in> dom (jobs s) then [PerformIo i] else [], m, s)"
| "io_handle_event e m s _ = ([], m, s)"

section \<open>Effect on the job table\<close>

lemma wf_new_job: "wf_job i (new_job i owner)"
  by (simp add: wf_job_def new_job_def)

lemma wf_state_timed_out:
  "wf_state s \<Longrightarrow> jobs s i = Some j \<Longrightarrow>
     wf_state (s\<lparr>jobs := (jobs s)(i \<mapsto> j\<lparr>job_timed_out := True\<rparr>),
       lifecycle := (lifecycle s)(i \<mapsto> st)\<rparr>)"
  by (rule wf_state_put_job) (auto simp: wf_defs)

lemma wf_state_set_handles:
  "wf_state s \<Longrightarrow> jobs s i = Some j \<Longrightarrow>
     wf_state (s\<lparr>jobs := (jobs s)(i \<mapsto> j\<lparr>job_process := Some p, job_io := Some h\<rparr>),
       lifecycle := (lifecycle s)(i \<mapsto> st)\<rparr>)"
  by (rule wf_state_put_job) (auto simp: wf_defs)

lemma lifecycle_handle_wf:
  "wf_state s \<Longrightarrow> lifecycle_handle e m s a = (as, m', s') \<Longrightarrow> wf_state s'"
  by (cases a)
    (auto intro!: wf_state_put_job wf_new_job wf_state_timed_out wf_state_put_lifecycle
      split: option.splits if_splits)

lemma lifecycle_handle_event_wf:
  "wf_state s \<Longrightarrow> lifecycle_handle_event e m s ev = (as, m', s') \<Longrightarrow> wf_state s'"
  by (cases ev) (auto intro!: wf_state_set_handles wf_state_put_lifecycle split: option.splits)

lemma process_handle_action_state: "process_handle_action e m s a = (as, m', s') \<Longrightarrow> s' = s"
  by (cases a) (auto split: option.splits)

lemma io_handle_event_state: "io_handle_event e m s ev = (as, m', s') \<Longrightarrow> s' = s"
  by (cases ev) auto

section \<open>Interpretations of the module interface\<close>

interpretation lifecycle: reactive_module lifecycle_handle lifecycle_handle_event "\<lambda>_. True"
proof unfold_locales
  fix e m s a as m' s'
  assume h: "lifecycle_handle e m s a = (as, m', s')"
  from h show "wf_state s \<Longrightarrow> True \<and> wf_state s'" by (simp add: lifecycle_handle_wf)
  from h show "3 * queue_weight as < action_weight a" by (cases a) auto
  from h show "same_but (action_job a) s s'"
    by (cases a) (auto simp: same_but_def split: option.splits if_splits)
  fix b
  from h show "b \<in> set as \<Longrightarrow> action_job b = action_job a" by (cases a) auto
next
  fix e m s ev as m' s'
  assume h: "lifecycle_handle_event e m s ev = (as, m', s')"
  from h show "wf_state s \<Longrightarrow> True \<and> wf_state s'" by (simp add: lifecycle_handle_event_wf)
  from h show "2 * queue_weight as < event_weight ev" by (cases ev) (auto split: option.splits)
  from h show "same_but (event_job ev) s s'"
    by (cases ev) (auto simp: same_but_def split: option.splits if_splits)
  fix b
  from h show "b \<in> set as \<Longrightarrow> action_job b = event_job ev"
    by (cases ev) (auto split: option.splits)
qed

interpretation process: reactive_module process_handle_action process_handle_event "\<lambda>_. True"
proof unfold_locales
  fix e m s a as m' s'
  assume h: "process_handle_action e m s a = (as, m', s')"
  from h show "wf_state s \<Longrightarrow> True \<and> wf_state s'" by (auto dest: process_handle_action_state)
  from h show "3 * queue_weight as < action_weight a"
    by (cases a) (auto split: option.splits if_splits)
  from h show "same_but (action_job a) s s'" by (auto dest: process_handle_action_state)
  fix b
  from h show "b \<in> set as \<Longrightarrow> action_job b = action_job a"
    by (cases a) (auto split: option.splits if_splits)
qed (auto simp: process_handle_event_def)

interpretation io: reactive_module io_handle_action io_handle_event "\<lambda>_. True"
proof unfold_locales
  fix e m s ev as m' s'
  assume h: "io_handle_event e m s ev = (as, m', s')"
  from h show "wf_state s \<Longrightarrow> True \<and> wf_state s'" by (auto dest: io_handle_event_state)
  from h show "2 * queue_weight as < event_weight ev" by (cases ev) (auto split: if_splits)
  from h show "same_but (event_job ev) s s'" by (auto dest: io_handle_event_state)
  fix b
  from h show "b \<in> set as \<Longrightarrow> action_job b = event_job ev" by (cases ev) (auto split: if_splits)
qed (auto simp: io_handle_action_def)

section \<open>Properties\<close>

text \<open>C35: Kill escalation is dead after a graceful stop. Once \<open>LifecycleModule\<close> has handled
  \<open>SignalProcess GracefulStop\<close> for a job, the process module answers the job's
  \<open>KillDeadlineReached\<close>, \<open>TimeoutReached\<close> and every further \<open>Control\<close> (a user's
  \<open>ForceKill\<close> included) with nothing: the \<open>timed_out\<close> flag the graceful stop sets is the flag
  all three are guarded by.\<close>

theorem graceful_stop_disarms:
  assumes "lifecycle_handle e m s (SignalProcess i GracefulStop) = (as, m', s')"
    and "a \<in> {KillDeadlineReached i, TimeoutReached i} \<union> range (Control i)"
  shows "process_handle_action e' p s' a = ([], p, s')"
  using assms by (auto split: option.splits)

definition running_job :: "u64 \<Rightarrow> job_state" where
  "running_job i = (new_job i 0)\<lparr>job_process := Some (ProcessHandle 3), job_io := Some (IoHandle 4)\<rparr>"

definition running_state :: "u64 \<Rightarrow> execution_state" where
  "running_state i = \<lparr>jobs = [i \<mapsto> running_job i], lifecycle = [i \<mapsto> Lc_Running],
     results = Map.empty\<rparr>"

lemma graceful_stop_disarms_witness:
  "process_handle_action (env_at 1 1) ProcessModule
     (snd (snd (lifecycle_handle (env_at 0 0) LifecycleModule (running_state 5)
        (SignalProcess 5 GracefulStop)))) (KillDeadlineReached 5) =
   ([], ProcessModule, snd (snd (lifecycle_handle (env_at 0 0) LifecycleModule (running_state 5)
        (SignalProcess 5 GracefulStop))))"
  by (rule graceful_stop_disarms [where e = "env_at 0 0" and m = LifecycleModule and
        s = "running_state 5" and i = 5 and as = "[]" and m' = LifecycleModule])
    simp_all

end
