(* ===== verification/ResultModule.thy ===== *)
theory ResultModule
  imports ModuleTrait "HOL-Library.Multiset"
begin

text \<open>
  \<open>src/core/result.rs\<close>: finished jobs leave the job table and their results are stored until
  they are queried once, expire, or are evicted as the oldest of too many.
\<close>

datatype result_module = ResultModule

definition result_ttl :: nat where
  "result_ttl = from_secs (60 * 5)"

definition max_results :: nat where
  "max_results = 1000"

section \<open>Eviction\<close>

text \<open>
  \<open>retain\<close> drops the expired results; if more than \<open>max_results\<close> are left, the entries are
  sorted by age (\<open>sort_by_key\<close> is a stable sort, as \<open>sort_key\<close> is) and the oldest are
  removed until \<open>max_results\<close> remain.
\<close>

definition oldest_first :: "std_env \<Rightarrow> (u64 \<rightharpoonup> stored_result) \<Rightarrow> (u64 \<times> instant) list" where
  "oldest_first e R =
     sort_key snd (map (\<lambda>k. (k, sr_created (the (R k)))) (env_iter e (dom R)))"

definition drop_oldest :: "std_env \<Rightarrow> (u64 \<rightharpoonup> stored_result) \<Rightarrow> (u64 \<rightharpoonup> stored_result)" where
  "drop_oldest e R =
     (if card (dom R) > max_results
      then remove_keys (map fst (take (card (dom R) - max_results) (oldest_first e R))) R
      else R)"

definition fresh_results :: "instant \<Rightarrow> (u64 \<rightharpoonup> stored_result) \<Rightarrow> (u64 \<rightharpoonup> stored_result)" where
  "fresh_results now R = retain (\<lambda>_ res. now - sr_created res \<le> result_ttl) R"

definition evict_results :: "std_env \<Rightarrow> execution_state \<Rightarrow> execution_state" where
  "evict_results e s = s\<lparr>results := drop_oldest e (fresh_results (env_now' e) (results s))\<rparr>"

section \<open>Handlers\<close>

definition outcome_status :: "exec_res \<Rightarrow> i32 option" where
  "outcome_status r = (case r of Inl _ \<Rightarrow> None | Inr x \<Rightarrow> res_status x)"

fun result_handle :: "result_module handler" where
  "result_handle e m s (Query i) =
     (case results s i of
        Some res \<Rightarrow>
          ([QueryResult i (Some \<lparr>out_id = i, out_result = sr_result res\<rparr>)], m,
           s\<lparr>results := (results s)(i := None)\<rparr>)
      | None \<Rightarrow> ([QueryResult i None], m, s))"
| "result_handle e m s (Finished i r) =
     (case jobs s i of
        Some job \<Rightarrow>
          ([EmitLog Info (Log_Exit i (outcome_status r))], m,
           evict_results e
             (s\<lparr>jobs := (jobs s)(i := None),
                results := (results s)(i \<mapsto>
                  \<lparr>sr_result = r, sr_owner = job_owner job, sr_created = env_now e\<rparr>)\<rparr>))
      | None \<Rightarrow> ([], m, evict_results e s))"
| "result_handle e m s _ = ([], m, s)"

fun result_handle_event :: "result_module event_handler" where
  "result_handle_event e m s (Ev_ProcessExited i status) =
     (case jobs s i of
        None \<Rightarrow> ([], m, s)
      | Some job \<Rightarrow>
          ([Finished i (Inr \<lparr>res_status = status, res_stdout = [], res_stderr = [],
              res_timed_out = job_timed_out job\<rparr>)], m, s))"
| "result_handle_event e m s _ = ([], m, s)"

section \<open>What eviction keeps\<close>

lemma oldest_first_set:
  assumes "env_ok e" and "finite (dom R)"
  shows "set (oldest_first e R) = (\<lambda>k. (k, sr_created (the (R k)))) ` dom R"
  using assms by (simp add: oldest_first_def env_ok_iter)

lemma oldest_first_keys:
  assumes "env_ok e" and "finite (dom R)"
  shows "distinct (map fst (oldest_first e R))" and "set (map fst (oldest_first e R)) = dom R"
    and "length (oldest_first e R) = card (dom R)"
proof -
  let ?xs = "map (\<lambda>k. (k, sr_created (the (R k)))) (env_iter e (dom R))"
  have "mset (map fst (oldest_first e R)) = mset (map fst ?xs)"
    unfolding oldest_first_def by (simp only: mset_map mset_sort)
  also have "map fst ?xs = env_iter e (dom R)" by (simp add: comp_def)
  finally have m: "mset (map fst (oldest_first e R)) = mset (env_iter e (dom R))" .
  have d: "distinct (env_iter e (dom R))" and st: "set (env_iter e (dom R)) = dom R"
    using assms by (simp_all add: env_ok_iter)
  show "distinct (map fst (oldest_first e R))" using m d by (metis mset_eq_imp_distinct_iff)
  show "set (map fst (oldest_first e R)) = dom R" using m st by (metis mset_eq_setD)
  show "length (oldest_first e R) = card (dom R)"
    using assms by (simp add: oldest_first_def env_ok_iter_length)
qed

lemma oldest_first_sorted: "sorted (map snd (oldest_first e R))"
  by (simp add: oldest_first_def)

lemma drop_oldest_le: "drop_oldest e R \<subseteq>\<^sub>m R"
  by (simp add: drop_oldest_def remove_keys_le)

lemma finite_drop_oldest: "finite (dom R) \<Longrightarrow> finite (dom (drop_oldest e R))"
  using map_le_implies_dom_le [OF drop_oldest_le] by (rule finite_subset)

lemma card_drop_oldest:
  assumes "env_ok e" and "finite (dom R)"
  shows "card (dom (drop_oldest e R)) = min (card (dom R)) max_results"
proof (cases "card (dom R) > max_results")
  case True
  let ?n = "card (dom R) - max_results"
  let ?ks = "map fst (take ?n (oldest_first e R))"
  note keys = oldest_first_keys [OF assms]
  have ks: "?ks = take ?n (map fst (oldest_first e R))" by (simp add: take_map)
  have "distinct ?ks" unfolding ks using keys(1) by (rule distinct_take)
  then have c: "card (set ?ks) = ?n"
    using keys(3) by (simp only: distinct_card) simp
  have sub: "set ?ks \<subseteq> dom R" unfolding ks using keys(2) set_take_subset by metis
  have "card (dom R - set ?ks) = card (dom R) - ?n"
    using sub c assms(2) by (simp add: card_Diff_subset)
  with True show ?thesis by (simp add: drop_oldest_def dom_remove_keys)
qed (simp add: drop_oldest_def)

text \<open>Whatever is dropped is at most as young as everything that stays.\<close>

lemma drop_oldest_oldest:
  assumes ok: "env_ok e" "finite (dom R)"
    and gone: "R i = Some a" "drop_oldest e R i = None"
    and kept: "drop_oldest e R j = Some b"
  shows "sr_created a \<le> sr_created b"
proof -
  let ?n = "card (dom R) - max_results"
  let ?xs = "oldest_first e R"
  have big: "card (dom R) > max_results"
    using gone by (auto simp: drop_oldest_def split: if_splits)
  then have i: "i \<in> fst ` set (take ?n ?xs)" and j: "j \<notin> fst ` set (take ?n ?xs)" "R j = Some b"
    using gone kept by (auto simp: drop_oldest_def remove_keys_apply split: if_splits)
  have el: "\<exists>k \<in> dom R. x = (k, sr_created (the (R k)))" if "x \<in> set ?xs" for x
    using that ok by (auto simp: oldest_first_set)
  from i obtain x where x: "x \<in> set (take ?n ?xs)" "fst x = i" by auto
  with el [of x] in_set_takeD [of x ?n ?xs] gone have xv: "snd x = sr_created a" by auto
  have "(j, sr_created b) \<in> set ?xs" using j ok by (force simp: oldest_first_set)
  moreover have "(j, sr_created b) \<notin> set (take ?n ?xs)" using j by force
  ultimately have y: "(j, sr_created b) \<in> set (drop ?n ?xs)"
    by (metis append_take_drop_id Un_iff set_append)
  have "sorted (map snd (take ?n ?xs) @ map snd (drop ?n ?xs))"
    using oldest_first_sorted by (metis append_take_drop_id map_append)
  then have "\<forall>u \<in> set (take ?n ?xs). \<forall>v \<in> set (drop ?n ?xs). snd u \<le> snd v"
    by (auto simp: sorted_append)
  with x y xv show ?thesis by fastforce
qed

lemma finite_fresh_results: "finite (dom R) \<Longrightarrow> finite (dom (fresh_results now R))"
  by (simp add: fresh_results_def)

lemma wf_state_evict: "wf_state s \<Longrightarrow> wf_state (evict_results e s)"
  unfolding evict_results_def
  by (rule wf_state_put_results) (simp_all add: wf_state_def finite_drop_oldest finite_fresh_results)

lemma evict_results_frame [simp]:
  "jobs (evict_results e s) = jobs s" "lifecycle (evict_results e s) = lifecycle s"
  by (simp_all add: evict_results_def)

section \<open>Interpretation of the module interface\<close>

lemma wf_state_finish:
  "wf_state s \<Longrightarrow> wf_state (s\<lparr>jobs := (jobs s)(i := None), results := (results s)(i \<mapsto> r)\<rparr>)"
  by (auto simp: wf_state_def split: if_splits)

lemma wf_state_take_result: "wf_state s \<Longrightarrow> wf_state (s\<lparr>results := (results s)(i := None)\<rparr>)"
  by (rule wf_state_put_results) (auto simp: wf_state_def)

lemma result_handle_wf: "wf_state s \<Longrightarrow> result_handle e m s a = (as, m', s') \<Longrightarrow> wf_state s'"
  by (cases a)
    (auto intro!: wf_state_evict wf_state_finish wf_state_take_result split: option.splits)

interpretation result: reactive_module result_handle result_handle_event "\<lambda>_. True"
proof unfold_locales
  fix e m s a as m' s'
  assume h: "result_handle e m s a = (as, m', s')"
  from h show "wf_state s \<Longrightarrow> True \<and> wf_state s'" by (simp add: result_handle_wf)
  from h show "3 * queue_weight as < action_weight a" by (cases a) (auto split: option.splits)
  from h show "same_but (action_job a) s s'"
    by (cases a) (auto simp: same_but_def split: option.splits)
  fix b
  from h show "b \<in> set as \<Longrightarrow> action_job b = action_job a"
    by (cases a) (auto split: option.splits)
next
  fix e m s ev as m' s'
  assume h: "result_handle_event e m s ev = (as, m', s')"
  from h show "wf_state s \<Longrightarrow> True \<and> wf_state s'" by (cases ev) (auto split: option.splits)
  from h show "2 * queue_weight as < event_weight ev" by (cases ev) (auto split: option.splits)
  from h show "same_but (event_job ev) s s'" by (cases ev) (auto split: option.splits)
  fix b
  from h show "b \<in> set as \<Longrightarrow> action_job b = event_job ev"
    by (cases ev) (auto split: option.splits)
qed

section \<open>Properties\<close>

lemma drop_oldest_Some: "drop_oldest e R k = Some x \<Longrightarrow> R k = Some x"
  by (metis domI drop_oldest_le map_le_def)

lemma evict_results_results:
  "results (evict_results e s) = drop_oldest e (fresh_results (env_now' e) (results s))"
  by (simp add: evict_results_def)

text \<open>C26: Eviction. After a \<open>Finished\<close> action the store holds at most 1000 results, every one
  is at most five minutes old, nothing is invented or altered, whatever still-fresh result was
  dropped is no younger than any that is kept, and when at most 1000 are fresh none is dropped.\<close>

theorem eviction_keeps_newest:
  assumes "env_ok e" and "wf_state s" and "result_handle e m s (Finished i r) = (as, m', s')"
  defines "stored \<equiv> (case jobs s i of None \<Rightarrow> results s
     | Some j \<Rightarrow> (results s)(i \<mapsto> \<lparr>sr_result = r, sr_owner = job_owner j, sr_created = env_now e\<rparr>))"
  defines "fresh \<equiv> fresh_results (env_now' e) stored"
  shows "card (dom (results s')) = min (card (dom fresh)) 1000
    \<and> results s' \<subseteq>\<^sub>m fresh
    \<and> (\<forall>k x. results s' k = Some x \<longrightarrow> env_now' e - sr_created x \<le> 300000000000)
    \<and> (\<forall>k x l y. fresh k = Some x \<longrightarrow> results s' k = None \<longrightarrow> results s' l = Some y \<longrightarrow>
         sr_created x \<le> sr_created y)"
proof -
  have "finite (dom stored)" using assms(2) by (auto simp: stored_def wf_state_def split: option.split)
  then have fin: "finite (dom fresh)" by (simp add: fresh_def finite_fresh_results)
  have res: "results s' = drop_oldest e fresh"
    using assms(3) by (auto simp: fresh_def stored_def evict_results_results split: option.splits)
  have "env_now' e - sr_created x \<le> 300000000000" if "results s' k = Some x" for k x
    using that [unfolded res, THEN drop_oldest_Some]
    by (simp add: fresh_def fresh_results_def retain_Some_iff result_ttl_def from_secs_def)
  then show ?thesis
    using card_drop_oldest [OF assms(1) fin] drop_oldest_le [of e fresh]
      drop_oldest_oldest [OF assms(1) fin]
    unfolding res by (auto simp: max_results_def)
qed

lemma eviction_keeps_newest_witness:
  "\<exists>as m' s'. result_handle (env_at 0 0) ResultModule execution_state_new
      (Finished 1 (Inl RuntimeError)) = (as, m', s') \<and> card (dom (results s')) = min 0 1000"
proof -
  obtain as m' s' where h: "result_handle (env_at 0 0) ResultModule execution_state_new
      (Finished 1 (Inl RuntimeError)) = (as, m', s')"
    by (rule prod_cases3)
  from eviction_keeps_newest [OF _ wf_state_new h] h show ?thesis
    by (simp add: execution_state_new_def fresh_results_def)
qed

text \<open>Results are delivered once. A \<open>Query\<close> for a stored result answers with that result and
  removes it; a second \<open>Query\<close> for the same job answers \<open>None\<close>, and a query never touches the
  results of other jobs nor the job table.\<close>

theorem query_once:
  assumes "result_handle e m s (Query i) = (as, m1, s1)"
    and "result_handle e' m1 s1 (Query i) = (as', m2, s2)"
  shows "as = [QueryResult i
        (map_option (\<lambda>x. \<lparr>out_id = i, out_result = sr_result x\<rparr>) (results s i))]
    \<and> as' = [QueryResult i None]
    \<and> results s2 = (results s)(i := None) \<and> jobs s2 = jobs s \<and> lifecycle s2 = lifecycle s"
  using assms by (auto split: option.splits)

lemma query_once_witness:
  "\<exists>as as' m1 s1 m2 s2.
     result_handle (env_at 0 0) ResultModule (execution_state_new\<lparr>results := [4 \<mapsto>
       \<lparr>sr_result = Inl SpawnFailed, sr_owner = 0, sr_created = 9\<rparr>]\<rparr>) (Query 4) = (as, m1, s1) \<and>
     result_handle (env_at 0 0) m1 s1 (Query 4) = (as', m2, s2) \<and> as' = [QueryResult 4 None] \<and>
     as = [QueryResult 4 (Some \<lparr>out_id = 4, out_result = Inl SpawnFailed\<rparr>)]"
proof -
  let ?s = "execution_state_new\<lparr>results := [4 \<mapsto>
       \<lparr>sr_result = Inl SpawnFailed, sr_owner = 0, sr_created = 9\<rparr>]\<rparr>"
  obtain as m1 s1 where h: "result_handle (env_at 0 0) ResultModule ?s (Query 4) = (as, m1, s1)"
    by (rule prod_cases3)
  obtain as' m2 s2 where h': "result_handle (env_at 0 0) m1 s1 (Query 4) = (as', m2, s2)"
    by (rule prod_cases3)
  from query_once [OF h h'] h h' show ?thesis by auto
qed

end
