(* ===== verification/Dispatcher.thy ===== *)
theory Dispatcher
  imports Policy Lifecycle ResultModule
begin

text \<open>
  \<open>Dispatcher\<close> and \<open>Core\<close> of \<open>src/core/mod.rs\<close>: the routing of actions and events to the
  six modules, and the translation of actions into effects. What the routing as a whole
  guarantees is derived from the laws of the module interface, through the interpretations
  each module's theory provides.
\<close>

record dispatcher =
  d_admission :: admission_module
  d_lifecycle :: lifecycle_module
  d_process :: process_module
  d_io :: io_module
  d_result :: result_module
  d_timeout :: timeout_module

definition dispatcher_new :: dispatcher where
  "dispatcher_new = \<lparr>d_admission = admission_default, d_lifecycle = LifecycleModule,
     d_process = ProcessModule, d_io = IoModule, d_result = ResultModule,
     d_timeout = timeout_module_new\<rparr>"

section \<open>Routing\<close>

definition to_admission :: "dispatcher handler" where
  [handler_defs]: "to_admission e d s a =
     (let (as, m, s') = admission_handle e (d_admission d) s a in (as, d\<lparr>d_admission := m\<rparr>, s'))"

definition to_lifecycle :: "dispatcher handler" where
  [handler_defs]: "to_lifecycle e d s a =
     (let (as, m, s') = lifecycle_handle e (d_lifecycle d) s a in (as, d\<lparr>d_lifecycle := m\<rparr>, s'))"

definition to_process :: "dispatcher handler" where
  [handler_defs]: "to_process e d s a =
     (let (as, m, s') = process_handle_action e (d_process d) s a in (as, d\<lparr>d_process := m\<rparr>, s'))"

definition to_io :: "dispatcher handler" where
  [handler_defs]: "to_io e d s a =
     (let (as, m, s') = io_handle_action e (d_io d) s a in (as, d\<lparr>d_io := m\<rparr>, s'))"

definition to_result :: "dispatcher handler" where
  [handler_defs]: "to_result e d s a =
     (let (as, m, s') = result_handle e (d_result d) s a in (as, d\<lparr>d_result := m\<rparr>, s'))"

definition to_timeout :: "dispatcher handler" where
  [handler_defs]: "to_timeout e d s a =
     (let (as, m, s') = timeout_handle e (d_timeout d) s a in (as, d\<lparr>d_timeout := m\<rparr>, s'))"

definition no_module :: "dispatcher handler" where
  [handler_defs]: "no_module e d s a = ([], d, s)"

primrec route :: "action \<Rightarrow> dispatcher handler" where
  "route (Submit _ _ _ _) = to_admission"
| "route (Admitted _ _ _ _) = then_to to_lifecycle to_timeout"
| "route (StartProcess _ _ _) = then_to to_process to_io"
| "route (SignalProcess _ _) = then_to to_lifecycle to_process"
| "route (PollProcess _) = to_process"
| "route (Finished _ _) = then_to to_admission (then_to to_timeout to_result)"
| "route (Control _ _) = to_process"
| "route (TimeoutReached _) = to_process"
| "route (KillDeadlineReached _) = to_process"
| "route (Query _) = to_result"
| "route (Rejected _) = no_module"
| "route (Started _) = no_module"
| "route (Controlled _) = no_module"
| "route (QueryResult _ _) = no_module"
| "route (PerformIo _) = no_module"
| "route (RegisterInterest _ _) = no_module"
| "route (RemoveInterest _ _) = no_module"
| "route (EmitLog _ _) = no_module"

definition dispatch :: "dispatcher handler" where
  [handler_defs]: "dispatch e d s a = route a e d s a"

text \<open>Events.\<close>

definition lifecycle_event :: "dispatcher event_handler" where
  [handler_defs]: "lifecycle_event e d s ev =
     (let (as, m, s') = lifecycle_handle_event e (d_lifecycle d) s ev
      in (as, d\<lparr>d_lifecycle := m\<rparr>, s'))"

definition io_event :: "dispatcher event_handler" where
  [handler_defs]: "io_event e d s ev =
     (let (as, m, s') = io_handle_event e (d_io d) s ev in (as, d\<lparr>d_io := m\<rparr>, s'))"

definition result_event :: "dispatcher event_handler" where
  [handler_defs]: "result_event e d s ev =
     (let (as, m, s') = result_handle_event e (d_result d) s ev in (as, d\<lparr>d_result := m\<rparr>, s'))"

definition dispatch_event :: "dispatcher event_handler" where
  [handler_defs]: "dispatch_event e d s ev =
     (case ev of
        Ev_ProcessStarted _ _ _ \<Rightarrow> then_event lifecycle_event io_event e d s ev
      | Ev_ProcessSpawnFailed _ _ \<Rightarrow> lifecycle_event e d s ev
      | Ev_ProcessExited _ _ \<Rightarrow> result_event e d s ev
      | Ev_JobFdReady _ _ _ _ \<Rightarrow> io_event e d s ev)"

definition dispatcher_timeout_ms :: "std_env \<Rightarrow> dispatcher \<Rightarrow> i32" where
  "dispatcher_timeout_ms e d = compute_timeout_ms e (d_timeout d)"

section \<open>The dispatcher as an action engine\<close>

definition wf_dispatcher :: "dispatcher \<Rightarrow> bool" where
  [wf_defs]: "wf_dispatcher d \<longleftrightarrow> wf_admission (d_admission d) \<and> wf_timeout (d_timeout d)"

lemma wf_dispatcher_new: "wf_dispatcher dispatcher_new"
  by (simp add: wf_dispatcher_def dispatcher_new_def wf_admission_default wf_timeout_new)

lemma good_to_admission: "good_handler wf_dispatcher 1 to_admission"
  by (rule admission.lift_good [where sel = d_admission and put = "\<lambda>m. d_admission_update (\<lambda>_. m)"])
    (simp_all add: to_admission_def wf_dispatcher_def)

lemma good_to_lifecycle: "good_handler wf_dispatcher 1 to_lifecycle"
  by (rule lifecycle.lift_good [where sel = d_lifecycle and put = "\<lambda>m. d_lifecycle_update (\<lambda>_. m)"])
    (simp_all add: to_lifecycle_def wf_dispatcher_def)

lemma good_to_process: "good_handler wf_dispatcher 1 to_process"
  by (rule process.lift_good [where sel = d_process and put = "\<lambda>m. d_process_update (\<lambda>_. m)"])
    (simp_all add: to_process_def wf_dispatcher_def)

lemma good_to_io: "good_handler wf_dispatcher 1 to_io"
  by (rule io.lift_good [where sel = d_io and put = "\<lambda>m. d_io_update (\<lambda>_. m)"])
    (simp_all add: to_io_def wf_dispatcher_def)

lemma good_to_result: "good_handler wf_dispatcher 1 to_result"
  by (rule result.lift_good [where sel = d_result and put = "\<lambda>m. d_result_update (\<lambda>_. m)"])
    (simp_all add: to_result_def wf_dispatcher_def)

lemma good_to_timeout: "good_handler wf_dispatcher 1 to_timeout"
  by (rule timeout.lift_good [where sel = d_timeout and put = "\<lambda>m. d_timeout_update (\<lambda>_. m)"])
    (simp_all add: to_timeout_def wf_dispatcher_def)

lemma good_no_module: "good_handler wf_dispatcher 0 no_module"
  by (simp add: good_handler_def no_module_def)

lemmas good_parts = good_to_admission good_to_lifecycle good_to_process good_to_io good_to_result
  good_to_timeout good_no_module

lemma good_route: "good_handler wf_dispatcher 3 (route a)"
proof -
  have two: "good_handler wf_dispatcher 3 (then_to f g)"
    if "good_handler wf_dispatcher 1 f" "good_handler wf_dispatcher n g" "n \<le> 2" for f g n
    using good_then [OF that(1,2)] by (rule good_handler_mono) (use that(3) in simp)
  have pair: "good_handler wf_dispatcher 2 (then_to to_timeout to_result)"
    using good_then [OF good_to_timeout good_to_result] by (rule good_handler_mono) simp
  show ?thesis
    by (cases a) (auto intro: good_parts [THEN good_handler_mono] two good_parts pair)
qed

lemma good_dispatch: "good_handler wf_dispatcher 3 dispatch"
  using good_route by (simp add: good_handler_def dispatch_def)

lemma good_lifecycle_event: "good_event_handler wf_dispatcher 1 lifecycle_event"
  by (rule lifecycle.lift_good_event
      [where sel = d_lifecycle and put = "\<lambda>m. d_lifecycle_update (\<lambda>_. m)"])
    (simp_all add: lifecycle_event_def wf_dispatcher_def)

lemma good_io_event: "good_event_handler wf_dispatcher 1 io_event"
  by (rule io.lift_good_event [where sel = d_io and put = "\<lambda>m. d_io_update (\<lambda>_. m)"])
    (simp_all add: io_event_def wf_dispatcher_def)

lemma good_result_event: "good_event_handler wf_dispatcher 1 result_event"
  by (rule result.lift_good_event [where sel = d_result and put = "\<lambda>m. d_result_update (\<lambda>_. m)"])
    (simp_all add: result_event_def wf_dispatcher_def)

lemma good_dispatch_event: "good_event_handler wf_dispatcher 2 dispatch_event"
proof -
  have one: "good_event_handler wf_dispatcher 2 h" if "good_event_handler wf_dispatcher 1 h" for h
    using that by (rule good_event_handler_mono) simp
  have two: "good_event_handler wf_dispatcher 2 (then_event lifecycle_event io_event)"
    using good_then_event [OF good_lifecycle_event good_io_event]
    by (rule good_event_handler_mono) simp
  note hs = one [OF good_lifecycle_event] one [OF good_io_event] one [OF good_result_event] two
  show ?thesis
    unfolding good_event_handler_def
  proof (intro allI impI)
    fix e d s ev as d' s'
    assume "dispatch_event e d s ev = (as, d', s')"
    then obtain h where "h e d s ev = (as, d', s')" and "good_event_handler wf_dispatcher 2 h"
      using hs by (cases ev) (auto simp: dispatch_event_def)
    then show "2 * queue_weight as \<le> 2 * (event_weight ev - 1)
     \<and> (\<forall>b \<in> set as. action_job b = event_job ev) \<and> same_but (event_job ev) s s'
     \<and> (env_ok e \<longrightarrow> wf_dispatcher d \<longrightarrow> wf_state s \<longrightarrow> wf_dispatcher d' \<and> wf_state s')"
      unfolding good_event_handler_def by blast
  qed
qed

interpretation core: action_engine dispatch dispatch_event wf_dispatcher
  by unfold_locales (rule good_dispatch, rule good_dispatch_event)

section \<open>Properties\<close>

text \<open>C4: The dispatcher keeps its modules and the execution state well-formed. Whatever
  action it routes and whatever the clock and the hash-map order, admission stays within its
  limit, the timeout table stays consistent, and every job stays stored under its own
  identifier with a life-cycle stage.\<close>

theorem dispatch_keeps_wf:
  assumes "env_ok e" and "wf_dispatcher d" and "wf_state s" and "dispatch e d s a = (as, d', s')"
  shows "wf_dispatcher d' \<and> wf_state s'"
  using core.act_inv [OF assms(4,1,2,3)] .

definition first_submit :: action where
  "first_submit = Submit 1 0 demo_spec demo_policy"

lemma dispatch_keeps_wf_witness:
  "\<exists>as d' s'. dispatch (env_at 0 0) dispatcher_new execution_state_new first_submit = (as, d', s')
     \<and> wf_dispatcher d' \<and> wf_state s'"
proof -
  obtain as d' s' where h: "dispatch (env_at 0 0) dispatcher_new execution_state_new first_submit
      = (as, d', s')"
    by (rule prod_cases3)
  from dispatch_keeps_wf [OF _ wf_dispatcher_new wf_state_new h] h show ?thesis by auto
qed

text \<open>C5: Job isolation. Dispatching an action or an event touches the job table and the
  life-cycle stage of no job but the one it names, and every action it answers with names that
  same job.\<close>

theorem dispatch_isolated:
  assumes "dispatch e d s a = (as, d', s')" and "dispatch_event e d s ev = (bs, d'', s'')"
  shows "(\<forall>k. k \<noteq> action_job a \<longrightarrow> jobs s' k = jobs s k \<and> lifecycle s' k = lifecycle s k)
    \<and> (\<forall>b \<in> set as. action_job b = action_job a)
    \<and> (\<forall>k. k \<noteq> event_job ev \<longrightarrow> jobs s'' k = jobs s k \<and> lifecycle s'' k = lifecycle s k)
    \<and> (\<forall>b \<in> set bs. action_job b = event_job ev)"
  using core.act_frame [OF assms(1)] core.act_job [OF assms(1)] core.react_frame [OF assms(2)]
    core.react_job [OF assms(2)]
  by (auto simp: same_but_def)

lemma dispatch_isolated_witness:
  "\<exists>as d' s'. dispatch (env_at 0 0) dispatcher_new (running_state 5) first_submit = (as, d', s')
     \<and> jobs s' 5 = Some (running_job 5)"
proof -
  obtain as d' s' where h: "dispatch (env_at 0 0) dispatcher_new (running_state 5) first_submit
      = (as, d', s')"
    by (rule prod_cases3)
  obtain bs d'' s'' where h': "dispatch_event (env_at 0 0) dispatcher_new (running_state 5)
      (Ev_ProcessExited 1 None) = (bs, d'', s'')"
    by (rule prod_cases3)
  from dispatch_isolated [OF h h'] h show ?thesis
    by (auto simp: first_submit_def running_state_def)
qed

text \<open>C22: The end of a job. \<open>Finished\<close> is handled by admission, the timeout table and the
  result store in one pass: the slot is returned, the deadline is forgotten, the job leaves the
  job table, and (when the job was known and nothing is evicted) the result can be queried. The
  life-cycle stage is left as it was: nothing records that the job finished.\<close>

theorem finish_job:
  assumes "jobs s i = Some j" and "dispatch e d s (Finished i r) = (as, d', s')"
  shows "active_jobs (d_admission d') = active_jobs (d_admission d) - 1
    \<and> tracking (d_timeout d') = (tracking (d_timeout d))(i := None)
    \<and> jobs s' = (jobs s)(i := None) \<and> lifecycle s' = lifecycle s
    \<and> results s' = drop_oldest e (fresh_results (env_now' e) ((results s)(i \<mapsto>
        \<lparr>sr_result = r, sr_owner = job_owner j, sr_created = env_now e\<rparr>)))
    \<and> as = [EmitLog Info (Log_Exit i (outcome_status r))]"
  using assms by (auto simp: handler_defs evict_results_results)

lemma finish_job_witness:
  "\<exists>as d' s'. dispatch (env_at 0 0) dispatcher_new (running_state 5) (Finished 5 (Inl RuntimeError))
      = (as, d', s') \<and> jobs s' 5 = None \<and> as = [EmitLog Info (Log_Exit 5 None)]"
proof -
  obtain as d' s' where h: "dispatch (env_at 0 0) dispatcher_new (running_state 5)
      (Finished 5 (Inl RuntimeError)) = (as, d', s')"
    by (rule prod_cases3)
  have "jobs (running_state 5) 5 = Some (running_job 5)" by (simp add: running_state_def)
  from finish_job [OF this h] h show ?thesis by (auto simp: outcome_status_def)
qed

text \<open>C36: Deadlines are never swept. The dispatcher routes no event to the timeout module, so
  no event raises \<open>TimeoutReached\<close> or \<open>KillDeadlineReached\<close> and no event changes the table of
  deadlines, whatever the clock says; nor does handling any action raise one of them.\<close>

theorem deadlines_never_swept:
  assumes "dispatch_event e d s ev = (as, d', s')" and "dispatch e d s a = (bs, d'', s'')"
  shows "d_timeout d' = d_timeout d
    \<and> TimeoutReached i \<notin> set as \<and> KillDeadlineReached i \<notin> set as
    \<and> TimeoutReached i \<notin> set bs \<and> KillDeadlineReached i \<notin> set bs"
proof (intro conjI)
  show "d_timeout d' = d_timeout d" "TimeoutReached i \<notin> set as" "KillDeadlineReached i \<notin> set as"
    using assms(1) by (cases ev; auto simp: handler_defs split: option.splits if_splits)+
  show "TimeoutReached i \<notin> set bs" "KillDeadlineReached i \<notin> set bs"
    using assms(2) by (cases a; auto simp: handler_defs io_handle_action_def
        split: option.splits if_splits)+
qed

lemma deadlines_never_swept_witness:
  "\<exists>as d' s'. dispatch_event (env_at 30000000 30000000) (dispatcher_new\<lparr>d_timeout := demo_timeouts\<rparr>)
      (running_state 7) (Ev_ProcessExited 7 None) = (as, d', s') \<and> TimeoutReached 7 \<notin> set as"
proof -
  let ?d = "dispatcher_new\<lparr>d_timeout := demo_timeouts\<rparr>"
  obtain as d' s' where h: "dispatch_event (env_at 30000000 30000000) ?d (running_state 7)
      (Ev_ProcessExited 7 None) = (as, d', s')"
    by (rule prod_cases3)
  obtain bs d'' s'' where h': "dispatch (env_at 30000000 30000000) ?d (running_state 7) first_submit
      = (bs, d'', s'')"
    by (rule prod_cases3)
  from deadlines_never_swept [OF h h', of 7] h show ?thesis by auto
qed

end
