(* ===== verification/Effects.thy ===== *)
theory Effects
  imports Dispatcher
begin

text \<open>
  \<open>Core::resolve_effects\<close> of \<open>src/core/mod.rs\<close>: an action is a log line, an effect on the
  process or the streams of its job (nothing, when the job or its handle is missing), or is
  handed on to the IPC layer.
\<close>

definition with_io :: "execution_state \<Rightarrow> u64 \<Rightarrow> (io_handle \<Rightarrow> effect) \<Rightarrow> effect list" where
  [handler_defs]: "with_io s i f =
     (case jobs s i of None \<Rightarrow> []
      | Some job \<Rightarrow> (case job_io job of None \<Rightarrow> [] | Some io \<Rightarrow> [f io]))"

definition with_process ::
    "execution_state \<Rightarrow> u64 \<Rightarrow> (job_state \<Rightarrow> process_handle \<Rightarrow> effect) \<Rightarrow> effect list" where
  [handler_defs]: "with_process s i f =
     (case jobs s i of None \<Rightarrow> []
      | Some job \<Rightarrow> (case job_process job of None \<Rightarrow> [] | Some p \<Rightarrow> [f job p]))"

fun resolve_action :: "execution_state \<Rightarrow> action \<Rightarrow> action list \<times> effect list" where
  "resolve_action s (EmitLog level ev) = ([], [Eff_Log level ev])"
| "resolve_action s (RegisterInterest i stream) =
     ([], with_io s i (\<lambda>io. Eff_WatchStream i io stream))"
| "resolve_action s (RemoveInterest i stream) =
     ([], with_io s i (\<lambda>io. Eff_UnwatchStream i io stream))"
| "resolve_action s (PerformIo i) = ([], with_io s i (\<lambda>io. Eff_PerformIo i io))"
| "resolve_action s (StartProcess i exec policy) = ([], [Eff_StartProcess i exec policy])"
| "resolve_action s (SignalProcess i signal) =
     ([], with_process s i (\<lambda>job p.
        Eff_KillProcess i signal p (job_pgroup job \<noteq> None \<or> job_isolated job)))"
| "resolve_action s (PollProcess i) = ([], with_process s i (\<lambda>job p. Eff_PollProcess i p))"
| "resolve_action s a = ([a], [])"

fun resolve_effects :: "execution_state \<Rightarrow> action list \<Rightarrow> action list \<times> effect list" where
  "resolve_effects s [] = ([], [])"
| "resolve_effects s (a # as) =
     (let (ipc, eff) = resolve_action s a; (ipcs, effs) = resolve_effects s as
      in (ipc @ ipcs, eff @ effs))"

section \<open>Which action goes where\<close>

definition ipc_action :: "action \<Rightarrow> bool" where
  "ipc_action a \<longleftrightarrow> (case a of EmitLog _ _ \<Rightarrow> False | RegisterInterest _ _ \<Rightarrow> False
     | RemoveInterest _ _ \<Rightarrow> False | PerformIo _ \<Rightarrow> False | StartProcess _ _ _ \<Rightarrow> False
     | SignalProcess _ _ \<Rightarrow> False | PollProcess _ \<Rightarrow> False | _ \<Rightarrow> True)"

primrec effect_job :: "effect \<Rightarrow> u64 option" where
  "effect_job (Eff_Log _ _) = None"
| "effect_job (Eff_WatchStream i _ _) = Some i"
| "effect_job (Eff_UnwatchStream i _ _) = Some i"
| "effect_job (Eff_StartProcess i _ _) = Some i"
| "effect_job (Eff_KillProcess i _ _ _) = Some i"
| "effect_job (Eff_PollProcess i _) = Some i"
| "effect_job (Eff_PerformIo i _) = Some i"

lemma in_with_io:
  "f \<in> set (with_io s i g) \<longleftrightarrow> (\<exists>j io. jobs s i = Some j \<and> job_io j = Some io \<and> f = g io)"
  by (cases "jobs s i"; cases "job_io (the (jobs s i))") (auto simp: with_io_def)

lemma in_with_process:
  "f \<in> set (with_process s i g) \<longleftrightarrow>
     (\<exists>j p. jobs s i = Some j \<and> job_process j = Some p \<and> f = g j p)"
  by (cases "jobs s i"; cases "job_process (the (jobs s i))") (auto simp: with_process_def)

lemma resolve_action_ipc: "fst (resolve_action s a) = (if ipc_action a then [a] else [])"
  by (cases a) (simp_all add: ipc_action_def)

lemma resolve_action_eff_length:
  "length (snd (resolve_action s a)) \<le> (if ipc_action a then 0 else 1)"
  by (cases a) (simp_all add: ipc_action_def with_io_def with_process_def split: option.splits)

text \<open>Which actions give rise to an effect.\<close>

lemma resolve_action_mem:
  "Eff_Log l ev \<in> set (snd (resolve_action s a)) \<longleftrightarrow> a = EmitLog l ev"
  "Eff_StartProcess i x p \<in> set (snd (resolve_action s a)) \<longleftrightarrow> a = StartProcess i x p"
  "Eff_WatchStream i io st \<in> set (snd (resolve_action s a)) \<longleftrightarrow>
     a = RegisterInterest i st \<and> (\<exists>j. jobs s i = Some j \<and> job_io j = Some io)"
  "Eff_UnwatchStream i io st \<in> set (snd (resolve_action s a)) \<longleftrightarrow>
     a = RemoveInterest i st \<and> (\<exists>j. jobs s i = Some j \<and> job_io j = Some io)"
  "Eff_PerformIo i io \<in> set (snd (resolve_action s a)) \<longleftrightarrow>
     a = PerformIo i \<and> (\<exists>j. jobs s i = Some j \<and> job_io j = Some io)"
  "Eff_KillProcess i sig pr g \<in> set (snd (resolve_action s a)) \<longleftrightarrow> a = SignalProcess i sig \<and>
     (\<exists>j. jobs s i = Some j \<and> job_process j = Some pr \<and> g = (job_pgroup j \<noteq> None \<or> job_isolated j))"
  "Eff_PollProcess i pr \<in> set (snd (resolve_action s a)) \<longleftrightarrow>
     a = PollProcess i \<and> (\<exists>j. jobs s i = Some j \<and> job_process j = Some pr)"
  by (cases a; auto simp: in_with_io in_with_process)+

lemma resolve_effects_eq:
  "resolve_effects s as =
     (filter ipc_action as, concat (map (\<lambda>a. snd (resolve_action s a)) as))"
proof (induction as)
  case (Cons a as)
  then show ?case
    using resolve_action_ipc [of s a] by (auto simp: split_beta Let_def)
qed simp

lemma resolve_effects_append:
  "resolve_effects s (as @ bs) =
     (fst (resolve_effects s as) @ fst (resolve_effects s bs),
      snd (resolve_effects s as) @ snd (resolve_effects s bs))"
  by (simp add: resolve_effects_eq)

lemma resolve_effects_single: "resolve_effects s [a] = resolve_action s a"
  by (simp add: split_beta Let_def)

section \<open>Properties\<close>

text \<open>C27: Resolution neither loses nor invents anything. The IPC layer is handed exactly the
  actions that are no log line and no effect, in their order. An action becomes an effect exactly
  when its job has the handle it needs: a log line and a start always, watching, unwatching and
  performing I/O with the job's own I/O handle and the stream asked for, a signal and a poll with
  the job's own process handle, the signal being the one asked for and going to the process group
  exactly if the job has one. The effects come in the order of their actions, at most one each.\<close>

theorem resolve_effects_faithful:
  assumes "resolve_effects s as = (ipc, effs)"
  shows "ipc = filter ipc_action as
    \<and> (\<forall>l ev. Eff_Log l ev \<in> set effs \<longleftrightarrow> EmitLog l ev \<in> set as)
    \<and> (\<forall>i x p. Eff_StartProcess i x p \<in> set effs \<longleftrightarrow> StartProcess i x p \<in> set as)
    \<and> (\<forall>i io st. Eff_WatchStream i io st \<in> set effs \<longleftrightarrow>
         RegisterInterest i st \<in> set as \<and> (\<exists>j. jobs s i = Some j \<and> job_io j = Some io))
    \<and> (\<forall>i io st. Eff_UnwatchStream i io st \<in> set effs \<longleftrightarrow>
         RemoveInterest i st \<in> set as \<and> (\<exists>j. jobs s i = Some j \<and> job_io j = Some io))
    \<and> (\<forall>i io. Eff_PerformIo i io \<in> set effs \<longleftrightarrow>
         PerformIo i \<in> set as \<and> (\<exists>j. jobs s i = Some j \<and> job_io j = Some io))
    \<and> (\<forall>i sig p g. Eff_KillProcess i sig p g \<in> set effs \<longleftrightarrow> SignalProcess i sig \<in> set as \<and>
         (\<exists>j. jobs s i = Some j \<and> job_process j = Some p \<and> g = (job_pgroup j \<noteq> None \<or> job_isolated j)))
    \<and> (\<forall>i p. Eff_PollProcess i p \<in> set effs \<longleftrightarrow>
         PollProcess i \<in> set as \<and> (\<exists>j. jobs s i = Some j \<and> job_process j = Some p))
    \<and> effs = concat (map (\<lambda>a. snd (resolve_effects s [a])) as)
    \<and> (\<forall>a. length (snd (resolve_effects s [a])) \<le> 1)"
proof -
  have ipc: "ipc = filter ipc_action as"
    and effs: "effs = concat (map (\<lambda>a. snd (resolve_action s a)) as)"
    using assms by (simp_all add: resolve_effects_eq)
  have mem: "f \<in> set effs \<longleftrightarrow> (\<exists>a \<in> set as. f \<in> set (snd (resolve_action s a)))" for f
    by (simp add: effs)
  have one: "length (snd (resolve_action s a)) \<le> 1" for a
    using resolve_action_eff_length [of s a] by (simp split: if_splits)
  show ?thesis
    using ipc effs one by (simp add: mem resolve_action_mem resolve_effects_single del: resolve_effects.simps)
qed

lemma resolve_effects_faithful_witness:
  "\<exists>effs. resolve_effects (running_state 5) [Controlled 5, SignalProcess 5 ForceKill, PerformIo 6]
     = ([Controlled 5], effs) \<and> (\<exists>p g. Eff_KillProcess 5 ForceKill p g \<in> set effs)
     \<and> (\<forall>io. Eff_PerformIo 6 io \<notin> set effs)"
proof -
  let ?s = "running_state 5"
  obtain ipc effs where h: "resolve_effects ?s [Controlled 5, SignalProcess 5 ForceKill, PerformIo 6]
      = (ipc, effs)" by fastforce
  note r = resolve_effects_faithful [OF h]
  from r have "ipc = [Controlled 5]" by (simp add: ipc_action_def)
  moreover obtain j p where j: "jobs ?s 5 = Some j" "job_process j = Some p" "jobs ?s 6 = None"
    by (simp add: running_state_def running_job_def)
  note c = r [THEN conjunct2, THEN conjunct2, THEN conjunct2, THEN conjunct2, THEN conjunct2]
  note c [THEN conjunct1, rule_format, of 6] and
    c [THEN conjunct2, THEN conjunct1, rule_format, of 5 ForceKill p "job_pgroup j \<noteq> None \<or> job_isolated j"]
  then have "Eff_KillProcess 5 ForceKill p (job_pgroup j \<noteq> None \<or> job_isolated j) \<in> set effs"
    and "\<forall>io. Eff_PerformIo 6 io \<notin> set effs"
    using j by simp_all
  ultimately show ?thesis using h by blast
qed

end
