(* ===== verification/Loops.thy ===== *)
theory Loops
  imports Prelude "HOL-Library.Monad_Syntax"
begin

text \<open>
  The \<open>loop { ... }\<close> of the sources. A body takes the loop's variables and either leaves the
  loop with a result (\<open>Inl\<close>, a \<open>return\<close> or \<open>break\<close>) or goes round again (\<open>Inr\<close>, falling
  off the end or \<open>continue\<close>); it is \<open>None\<close> when something it calls never returns.
  \<open>run_loop\<close> is \<open>None\<close> when the loop never ends. Partial and total correctness of every loop
  of the development go through the rules of this theory.
\<close>

partial_function (option) run_loop :: "('s \<Rightarrow> ('r + 's) option) \<Rightarrow> 's \<Rightarrow> 'r option" where
  "run_loop body s =
     Option.bind (body s) (\<lambda>x. case x of Inl r \<Rightarrow> Some r | Inr s' \<Rightarrow> run_loop body s')"

lemma run_loop_stop: "body s = Some (Inl r) \<Longrightarrow> run_loop body s = Some r"
  by (simp add: run_loop.simps)

lemma run_loop_again: "body s = Some (Inr s') \<Longrightarrow> run_loop body s = run_loop body s'"
  by (simp add: run_loop.simps [of body s])

text \<open>Evaluation of a run on concrete values, by conditional rewriting.\<close>

lemma run_loop_eval:
  "body s = Some x \<Longrightarrow>
     run_loop body s = (case x of Inl r \<Rightarrow> Some r | Inr s' \<Rightarrow> run_loop body s')"
  by (simp add: run_loop.simps [of body s])

text \<open>Partial correctness: an invariant kept by every round holds when the loop is left.\<close>

lemma run_loop_raw:
  assumes "run_loop body s = Some r"
  shows "(\<forall>s s'. I s \<longrightarrow> body s = Some (Inr s') \<longrightarrow> I s') \<longrightarrow>
    (\<forall>s r. I s \<longrightarrow> body s = Some (Inl r) \<longrightarrow> Q r) \<longrightarrow> I s \<longrightarrow> Q r"
proof (rule run_loop.raw_induct [where P = "\<lambda>body s r.
    (\<forall>s s'. I s \<longrightarrow> body s = Some (Inr s') \<longrightarrow> I s') \<longrightarrow>
    (\<forall>s r. I s \<longrightarrow> body s = Some (Inl r) \<longrightarrow> Q r) \<longrightarrow> I s \<longrightarrow> Q r", OF _ assms], goal_cases)
  case (1 f body s r)
  from 1(2) obtain x where "body s = Some x"
    "(case x of Inl r \<Rightarrow> Some r | Inr s' \<Rightarrow> f body s') = Some r"
    by (auto simp: bind_eq_Some_conv)
  with 1(1) [of body] show ?case by (cases x) auto
qed

lemma run_loop_rule [consumes 1, case_names start again leave]:
  assumes "run_loop body s = Some r" and "I s"
    and "\<And>s s'. I s \<Longrightarrow> body s = Some (Inr s') \<Longrightarrow> I s'"
    and "\<And>s r. I s \<Longrightarrow> body s = Some (Inl r) \<Longrightarrow> Q r"
  shows "Q r"
  using run_loop_raw [OF assms(1), of I Q] assms(2-4) by blast

text \<open>Relational form: \<open>R s r\<close> relates where a run starts to what it returns.\<close>

lemma run_loop_induct [consumes 1, case_names leave again]:
  assumes "run_loop body s = Some r"
    and "\<And>s r. body s = Some (Inl r) \<Longrightarrow> R s r"
    and "\<And>s s' r. body s = Some (Inr s') \<Longrightarrow> R s' r \<Longrightarrow> R s r"
  shows "R s r"
  by (rule run_loop_rule [OF assms(1), where I = "\<lambda>v. \<forall>r. R v r \<longrightarrow> R s r" and Q = "R s"])
    (use assms(2,3) in blast)+

text \<open>Total correctness: when every round terminates and makes progress, the loop is left.\<close>

definition round :: "('s \<Rightarrow> ('r + 's) option) \<Rightarrow> ('s \<Rightarrow> bool) \<Rightarrow> 's \<Rightarrow> 's \<Rightarrow> bool" where
  "round body I s' s \<longleftrightarrow> I s \<and> body s = Some (Inr s')"

lemma run_loop_returns:
  assumes wf: "wfP (round body I)"
    and keep: "\<And>s s'. I s \<Longrightarrow> body s = Some (Inr s') \<Longrightarrow> I s'"
    and total: "\<And>s. I s \<Longrightarrow> body s \<noteq> None" and start: "I s"
  shows "\<exists>r. run_loop body s = Some r"
  using wf start
proof (induction s rule: wfp_induct_rule)
  case (less s)
  from total [OF less.prems] obtain x where x: "body s = Some x" by auto
  show ?case
  proof (cases x)
    case (Inl r)
    with x show ?thesis by (simp add: run_loop_stop)
  next
    case (Inr s')
    with x less.prems keep have "round body I s' s" "I s'" by (auto simp: round_def)
    with less.IH x Inr show ?thesis by (simp add: run_loop_again)
  qed
qed

lemma run_loop_measure:
  assumes "\<And>s s'. I s \<Longrightarrow> body s = Some (Inr s') \<Longrightarrow> I s' \<and> m s' < (m s :: nat)"
    and "\<And>s. I s \<Longrightarrow> body s \<noteq> None" and "I s"
  shows "\<exists>r. run_loop body s = Some r"
proof (rule run_loop_returns)
  have "round body I \<le> (\<lambda>x y. m x < m y)" using assms(1) by (auto simp: round_def)
  moreover have "wfP (\<lambda>x y. m x < m y)" by (rule wfp_if_convertible_to_nat) simp
  ultimately show "wfP (round body I)" by (rule wfp_subset [rotated])
qed (use assms in auto)

end
