(* ===== verification/Syscalls.thy ===== *)
theory Syscalls
  imports Loops
begin

text \<open>
  The operating system as the program sees it. The kernel is not part of the repository, so it
  is a parameter: a record of functions over an arbitrary world type \<open>'w\<close>, one per system
  call, each returning what the call returns and the world afterwards. \<open>None\<close> stands for a
  return value of -1 (for \<open>k_read_dir\<close>, a null \<open>DIR\<close>; otherwise it lists the names \<open>readdir\<close>
  yields). \<open>k_waitpid\<close> is the call with \<open>WNOHANG\<close>; \<open>k_wait_exit\<close> is the one without, which
  blocks until the child exits and is \<open>None\<close> when that never happens. \<open>k_sdk_property\<close> is the Android API level property, absent on other targets. The error type and the return-value checks of
  \<open>src/low_level/spawn/mod.rs\<close>, the \<open>EINTR\<close> retry loop that the wrappers share and the \<open>Fd\<close> wrapper
  of \<open>src/low_level/reactor/mod.rs\<close> are defined over it.
\<close>

section \<open>Constants of the Linux ABI\<close>

definition EINTR :: i32 where "EINTR = 4"
definition ESRCH :: i32 where "ESRCH = 3"
definition ECHILD :: i32 where "ECHILD = 10"
definition EAGAIN :: i32 where "EAGAIN = 11"
definition EWOULDBLOCK :: i32 where "EWOULDBLOCK = 11"
definition EPIPE :: i32 where "EPIPE = 32"
definition SIGKILL :: i32 where "SIGKILL = 9"
definition SIGPIPE :: i32 where "SIGPIPE = 13"
definition SIGTERM :: i32 where "SIGTERM = 15"
definition O_NONBLOCK :: int where "O_NONBLOCK = 2048"
definition FD_CLOEXEC :: int where "FD_CLOEXEC = 1"
definition EPOLLIN :: u32 where "EPOLLIN = 1"
definition EPOLLOUT :: u32 where "EPOLLOUT = 4"
definition EPOLLERR :: u32 where "EPOLLERR = 8"
definition EPOLLHUP :: u32 where "EPOLLHUP = 16"
definition EPOLLET :: u32 where "EPOLLET = 2147483648"

lemmas abi_defs = EINTR_def ESRCH_def ECHILD_def EAGAIN_def EWOULDBLOCK_def EPIPE_def
  SIGKILL_def SIGPIPE_def SIGTERM_def O_NONBLOCK_def FD_CLOEXEC_def
  EPOLLIN_def EPOLLOUT_def EPOLLERR_def EPOLLHUP_def EPOLLET_def

section \<open>The kernel\<close>

datatype fcntl_cmd = F_GETFL | F_SETFL int | F_GETFD | F_SETFD int

datatype epoll_op = EPOLL_CTL_ADD u32 u64 | EPOLL_CTL_DEL

datatype file_action = AddDup2 i32 i32 | AddClose i32

datatype spawn_attr = SetPgroup i32 | SetFlags int | SetSigmask "i32 list" | SetSigdefault "i32 list"

record 'w kernel =
  k_errno :: "'w \<Rightarrow> i32"
  k_std :: "'w \<Rightarrow> std_env \<times> 'w"
  k_read :: "i32 \<Rightarrow> nat \<Rightarrow> 'w \<Rightarrow> bytes option \<times> 'w"
  k_write :: "i32 \<Rightarrow> bytes \<Rightarrow> 'w \<Rightarrow> nat option \<times> 'w"
  k_close :: "i32 \<Rightarrow> 'w \<Rightarrow> 'w"
  k_dup2 :: "i32 \<Rightarrow> i32 \<Rightarrow> 'w \<Rightarrow> i32 option \<times> 'w"
  k_fcntl :: "i32 \<Rightarrow> fcntl_cmd \<Rightarrow> 'w \<Rightarrow> i32 \<times> 'w"
  k_pipe2 :: "'w \<Rightarrow> (i32 \<times> i32) option \<times> 'w"
  k_epoll_create1 :: "'w \<Rightarrow> i32 \<times> 'w"
  k_epoll_ctl :: "i32 \<Rightarrow> i32 \<Rightarrow> epoll_op \<Rightarrow> 'w \<Rightarrow> i32 \<times> 'w"
  k_epoll_wait :: "i32 \<Rightarrow> nat \<Rightarrow> i32 \<Rightarrow> 'w \<Rightarrow> (u32 \<times> u64) list option \<times> 'w"
  k_waitpid :: "i32 \<Rightarrow> 'w \<Rightarrow> (i32 \<times> i32) option \<times> 'w"
  k_wait_exit :: "i32 \<Rightarrow> 'w \<Rightarrow> ((i32 \<times> i32) option \<times> 'w) option"
  k_kill :: "i32 \<Rightarrow> i32 \<Rightarrow> 'w \<Rightarrow> i32 \<times> 'w"
  k_fork :: "'w \<Rightarrow> i32 \<times> 'w"
  k_file_actions_init :: "'w \<Rightarrow> i32 \<times> 'w"
  k_file_action :: "file_action \<Rightarrow> 'w \<Rightarrow> i32 \<times> 'w"
  k_attr_init :: "'w \<Rightarrow> i32 \<times> 'w"
  k_attr :: "spawn_attr \<Rightarrow> 'w \<Rightarrow> i32 \<times> 'w"
  k_posix_spawn :: "string \<Rightarrow> file_action list \<Rightarrow> spawn_attr list \<Rightarrow> string list \<Rightarrow>
     string list option \<Rightarrow> 'w \<Rightarrow> i32 \<times> i32 \<times> 'w"
  k_open_proc_fd :: "'w \<Rightarrow> i32 \<times> 'w"
  k_read_dir :: "i32 \<Rightarrow> 'w \<Rightarrow> string list option \<times> 'w"
  k_close_range :: "u32 \<Rightarrow> u32 \<Rightarrow> 'w \<Rightarrow> i32 \<times> 'w"
  k_block_sigchld :: "'w \<Rightarrow> i32 \<times> 'w"
  k_signalfd :: "'w \<Rightarrow> i32 \<times> 'w"
  k_sdk_property :: "string option"
  k_accept4 :: "i32 \<Rightarrow> 'w \<Rightarrow> i32 \<times> 'w"
  k_peercred :: "i32 \<Rightarrow> 'w \<Rightarrow> i32 \<times> u32 \<times> 'w"
  k_socket :: "'w \<Rightarrow> i32 \<times> 'w"

text \<open>
  The documented behaviour of \<open>read\<close> and \<open>write\<close> the code relies on: they never transfer
  more than they were asked to.
\<close>

definition read_bounded :: "'w kernel \<Rightarrow> bool" where
  "read_bounded K \<longleftrightarrow> (\<forall>fd n w bs w'. k_read K fd n w = (Some bs, w') \<longrightarrow> length bs \<le> n)"

definition write_bounded :: "'w kernel \<Rightarrow> bool" where
  "write_bounded K \<longleftrightarrow>
     (\<forall>fd bs w n w'. k_write K fd bs w = (Some n, w') \<longrightarrow> n \<le> length bs)"

section \<open>Errors\<close>

datatype sys_error = Syscall (err_code: i32) (err_op: string)

definition syscall_ret :: "'w kernel \<Rightarrow> i32 \<Rightarrow> string \<Rightarrow> 'w \<Rightarrow> sys_error + unit" where
  "syscall_ret K ret op w = (if ret = -1 then Inl (Syscall (k_errno K w) op) else Inr ())"

definition posix_ret :: "i32 \<Rightarrow> string \<Rightarrow> sys_error + unit" where
  "posix_ret ret op = (if ret \<noteq> 0 then Inl (Syscall ret op) else Inr ())"

definition would_block :: "sys_error \<Rightarrow> bool" where
  "would_block e \<longleftrightarrow> err_code e = EAGAIN \<or> err_code e = EWOULDBLOCK"

section \<open>The retry loop\<close>

text \<open>
  \<open>loop { r = call(); if r < 0 { e = errno(); if e == EINTR continue; return Err(e) } return Ok(r) }\<close>:
  \<open>None\<close> is "never returns", which happens only if the call is interrupted for ever.
\<close>

definition retry_body ::
    "'w kernel \<Rightarrow> ('w \<Rightarrow> 'x option \<times> 'w) \<Rightarrow> 'w \<Rightarrow> (((i32 + 'x) \<times> 'w) + 'w) option" where
  "retry_body K call w =
     (case call w of
        (Some x, w') \<Rightarrow> Some (Inl (Inr x, w'))
      | (None, w') \<Rightarrow>
          (if k_errno K w' = EINTR then Some (Inr w') else Some (Inl (Inl (k_errno K w'), w'))))"

definition retry ::
    "'w kernel \<Rightarrow> ('w \<Rightarrow> 'x option \<times> 'w) \<Rightarrow> 'w \<Rightarrow> ((i32 + 'x) \<times> 'w) option" where
  "retry K call = run_loop (retry_body K call)"

definition interrupted :: "'w kernel \<Rightarrow> ('w \<Rightarrow> 'x option \<times> 'w) \<Rightarrow> 'w \<Rightarrow> 'w \<Rightarrow> bool" where
  "interrupted K call w w' \<longleftrightarrow> call w = (None, w') \<and> k_errno K w' = EINTR"

lemma retry_body_Inr: "retry_body K call w = Some (Inr w') \<longleftrightarrow> interrupted K call w w'"
  by (auto simp: retry_body_def interrupted_def split: prod.splits option.splits if_splits)

lemma retry_simps:
  "call w = (Some x, w') \<Longrightarrow> retry K call w = Some (Inr x, w')"
  "call w = (None, w') \<Longrightarrow> k_errno K w' \<noteq> EINTR \<Longrightarrow> retry K call w = Some (Inl (k_errno K w'), w')"
  "call w = (None, w') \<Longrightarrow> k_errno K w' = EINTR \<Longrightarrow> retry K call w = retry K call w'"
  by (simp_all add: retry_def run_loop.simps [of _ w] retry_body_def)

lemma retry_returns:
  assumes "wfP (\<lambda>w' w. interrupted K call w w')"
  shows "\<exists>r w'. retry K call w = Some (r, w')"
proof -
  have "round (retry_body K call) (\<lambda>_. True) = (\<lambda>w' w. interrupted K call w w')"
    by (simp add: fun_eq_iff round_def retry_body_Inr)
  then have "\<exists>r. run_loop (retry_body K call) w = Some r"
    using assms by (intro run_loop_returns [where I = "\<lambda>_. True"])
      (auto simp: retry_body_def split: prod.splits option.splits)
  then show ?thesis by (auto simp: retry_def)
qed

text \<open>Whatever the loop returns is the outcome of a last call that was not interrupted.\<close>

definition last_call ::
    "'w kernel \<Rightarrow> ('w \<Rightarrow> 'x option \<times> 'w) \<Rightarrow> 'w \<Rightarrow> (i32 + 'x) \<times> 'w \<Rightarrow> bool" where
  "last_call K call w rw \<longleftrightarrow> (\<exists>v x. (interrupted K call)\<^sup>*\<^sup>* w v \<and> call v = (x, snd rw) \<and>
     (case x of Some y \<Rightarrow> fst rw = Inr y
      | None \<Rightarrow> fst rw = Inl (k_errno K (snd rw)) \<and> k_errno K (snd rw) \<noteq> EINTR))"

lemma last_call_step:
  assumes "interrupted K call w w1" and "last_call K call w1 rw"
  shows "last_call K call w rw"
  using assms unfolding last_call_def by (meson converse_rtranclp_into_rtranclp)

lemma retry_last_call:
  assumes "retry K call w = Some rw"
  shows "last_call K call w rw"
  using assms unfolding retry_def
proof (induction rule: run_loop_induct)
  case (leave w rw)
  then show ?case
    unfolding last_call_def
    by (intro exI [of _ w] exI [of _ "fst (call w)"])
      (auto simp: retry_body_def split: prod.splits option.splits if_splits)
next
  case (again w w' rw)
  then show ?case by (auto simp: retry_body_Inr intro: last_call_step)
qed

lemma retry_Inr:
  assumes "retry K call w = Some (Inr y, w')"
  obtains v where "(interrupted K call)\<^sup>*\<^sup>* w v" "call v = (Some y, w')"
  using retry_last_call [OF assms] unfolding last_call_def by (fastforce split: option.splits)

lemma retry_Inl:
  assumes "retry K call w = Some (Inl c, w')"
  obtains v where "(interrupted K call)\<^sup>*\<^sup>* w v" "call v = (None, w')"
    "c = k_errno K w'" "c \<noteq> EINTR"
  using retry_last_call [OF assms] unfolding last_call_def by (fastforce split: option.splits)

section \<open>The Fd wrapper\<close>

definition fd_new :: "'w kernel \<Rightarrow> i32 \<Rightarrow> string \<Rightarrow> 'w \<Rightarrow> sys_error + i32" where
  "fd_new K fd op w = (if fd < 0 then Inl (Syscall (k_errno K w) op) else Inr fd)"

text \<open>\<open>Drop for Fd\<close>, and the drop of an \<open>Option<Fd>\<close>.\<close>

definition fd_drop :: "'w kernel \<Rightarrow> i32 \<Rightarrow> 'w \<Rightarrow> 'w" where
  "fd_drop K fd w = (if fd \<ge> 0 then k_close K fd w else w)"

definition fd_drop_opt :: "'w kernel \<Rightarrow> i32 option \<Rightarrow> 'w \<Rightarrow> 'w" where
  "fd_drop_opt K x w = (case x of None \<Rightarrow> w | Some fd \<Rightarrow> fd_drop K fd w)"

definition tag_error :: "string \<Rightarrow> (i32 + 'x) \<times> 'w \<Rightarrow> (sys_error + 'x) \<times> 'w" where
  "tag_error op rw = (case fst rw of Inl e \<Rightarrow> Inl (Syscall e op) | Inr x \<Rightarrow> Inr x, snd rw)"

lemma tag_error_Inr [simp]: "tag_error op rw = (Inr x, w') \<longleftrightarrow> rw = (Inr x, w')"
  by (cases rw) (auto simp: tag_error_def split: sum.splits)

lemma tag_error_Inl [simp]:
  "tag_error op rw = (Inl e, w') \<longleftrightarrow> (\<exists>c. e = Syscall c op \<and> rw = (Inl c, w'))"
  by (cases rw) (auto simp: tag_error_def split: sum.splits)

definition fd_read ::
    "'w kernel \<Rightarrow> i32 \<Rightarrow> nat \<Rightarrow> 'w \<Rightarrow> ((sys_error + bytes) \<times> 'w) option" where
  "fd_read K fd count w = map_option (tag_error ''read'') (retry K (k_read K fd count) w)"

definition fd_write ::
    "'w kernel \<Rightarrow> i32 \<Rightarrow> bytes \<Rightarrow> 'w \<Rightarrow> ((sys_error + nat) \<times> 'w) option" where
  "fd_write K fd buf w = map_option (tag_error ''write'') (retry K (k_write K fd buf) w)"

definition fd_dup2 ::
    "'w kernel \<Rightarrow> i32 \<Rightarrow> i32 \<Rightarrow> 'w \<Rightarrow> ((sys_error + unit) \<times> 'w) option" where
  "fd_dup2 K fd target w =
     map_option (\<lambda>rw. (map_sum id (\<lambda>_. ()) (fst (tag_error ''dup2'' rw)), snd rw))
       (retry K (k_dup2 K fd target) w)"

definition set_nonblock :: "'w kernel \<Rightarrow> i32 \<Rightarrow> 'w \<Rightarrow> (sys_error + unit) \<times> 'w" where
  "set_nonblock K fd w =
     (let (flags, w1) = k_fcntl K fd F_GETFL w in
      case syscall_ret K flags ''fcntl(F_GETFL)'' w1 of
        Inl e \<Rightarrow> (Inl e, w1)
      | Inr _ \<Rightarrow>
          (let (r, w2) = k_fcntl K fd (F_SETFL (flags OR O_NONBLOCK)) w1
           in (syscall_ret K r ''fcntl(F_SETFL)'' w2, w2)))"

definition set_cloexec :: "'w kernel \<Rightarrow> i32 \<Rightarrow> 'w \<Rightarrow> (sys_error + unit) \<times> 'w" where
  "set_cloexec K fd w =
     (let (flags, w1) = k_fcntl K fd F_GETFD w in
      case syscall_ret K flags ''fcntl(F_GETFD)'' w1 of
        Inl e \<Rightarrow> (Inl e, w1)
      | Inr _ \<Rightarrow>
          (let (r, w2) = k_fcntl K fd (F_SETFD (flags OR FD_CLOEXEC)) w1
           in (syscall_ret K r ''fcntl(F_SETFD)'' w2, w2)))"

lemma fd_read_Inr:
  assumes "fd_read K fd n w = Some (Inr bs, w')"
  obtains v where "(interrupted K (k_read K fd n))\<^sup>*\<^sup>* w v" "k_read K fd n v = (Some bs, w')"
  using assms by (auto simp: fd_read_def elim: retry_Inr)

lemma fd_read_Inl:
  assumes "fd_read K fd n w = Some (Inl e, w')"
  obtains v where "(interrupted K (k_read K fd n))\<^sup>*\<^sup>* w v" "k_read K fd n v = (None, w')"
    "e = Syscall (k_errno K w') ''read''"
  using assms by (auto simp: fd_read_def elim: retry_Inl)

lemma fd_write_Inr:
  assumes "fd_write K fd bs w = Some (Inr n, w')"
  obtains v where "(interrupted K (k_write K fd bs))\<^sup>*\<^sup>* w v" "k_write K fd bs v = (Some n, w')"
  using assms by (auto simp: fd_write_def elim: retry_Inr)

lemma fd_write_Inl:
  assumes "fd_write K fd bs w = Some (Inl e, w')"
  obtains v where "(interrupted K (k_write K fd bs))\<^sup>*\<^sup>* w v" "k_write K fd bs v = (None, w')"
    "e = Syscall (k_errno K w') ''write''"
  using assms by (auto simp: fd_write_def elim: retry_Inl)

lemma fd_read_bounded:
  "read_bounded K \<Longrightarrow> fd_read K fd n w = Some (Inr bs, w') \<Longrightarrow> length bs \<le> n"
  by (metis fd_read_Inr read_bounded_def)

lemma fd_write_bounded:
  "write_bounded K \<Longrightarrow> fd_write K fd bs w = Some (Inr n, w') \<Longrightarrow> n \<le> length bs"
  by (metis fd_write_Inr write_bounded_def)

section \<open>A scripted kernel, for closed instances\<close>

text \<open>
  Every call of \<open>quiet_kernel\<close> fails with the error number of the world; instances replace
  single calls. In \<open>script_kernel\<close> the world is what successive reads or writes return, with
  the last error number.
\<close>

definition quiet_kernel :: "('w \<Rightarrow> i32) \<Rightarrow> 'w kernel" where
  "quiet_kernel err = \<lparr>k_errno = err, k_std = (\<lambda>w. (env_at 0 0, w)),
     k_read = (\<lambda>fd n w. (None, w)), k_write = (\<lambda>fd bs w. (None, w)),
     k_close = (\<lambda>fd w. w), k_dup2 = (\<lambda>a b w. (None, w)), k_fcntl = (\<lambda>fd c w. (-1, w)),
     k_pipe2 = (\<lambda>w. (None, w)), k_epoll_create1 = (\<lambda>w. (-1, w)),
     k_epoll_ctl = (\<lambda>ep fd op w. (-1, w)), k_epoll_wait = (\<lambda>ep n t w. (None, w)),
     k_waitpid = (\<lambda>pid w. (None, w)), k_wait_exit = (\<lambda>pid w. Some (None, w)), k_kill = (\<lambda>pid sig w. (-1, w)),
     k_fork = (\<lambda>w. (-1, w)), k_file_actions_init = (\<lambda>w. (err w, w)),
     k_file_action = (\<lambda>a w. (err w, w)), k_attr_init = (\<lambda>w. (err w, w)),
     k_attr = (\<lambda>a w. (err w, w)), k_posix_spawn = (\<lambda>exe fa at argv envp w. (err w, 0, w)),
     k_open_proc_fd = (\<lambda>w. (-1, w)), k_read_dir = (\<lambda>fd w. (None, w)),
     k_close_range = (\<lambda>a b w. (-1, w)), k_block_sigchld = (\<lambda>w. (-1, w)),
     k_signalfd = (\<lambda>w. (-1, w)), k_sdk_property = None, k_accept4 = (\<lambda>fd w. (-1, w)),
     k_peercred = (\<lambda>fd w. (-1, 0, w)), k_socket = (\<lambda>w. (-1, w))\<rparr>"

type_synonym script = "(i32 + bytes) list \<times> i32"

fun script_read :: "nat \<Rightarrow> script \<Rightarrow> bytes option \<times> script" where
  "script_read n ([], err) = (Some [], [], err)"
| "script_read n (Inl c # ws, err) = (None, ws, c)"
| "script_read n (Inr bs # ws, err) = (Some (take n bs), ws, err)"

fun script_write :: "bytes \<Rightarrow> script \<Rightarrow> nat option \<times> script" where
  "script_write bs ([], err) = (Some 0, [], err)"
| "script_write bs (Inl c # ws, err) = (None, ws, c)"
| "script_write bs (Inr x # ws, err) = (Some (min (length x) (length bs)), ws, err)"

definition script_kernel :: "script kernel" where
  "script_kernel = (quiet_kernel snd)\<lparr>k_read := \<lambda>fd. script_read, k_write := \<lambda>fd. script_write\<rparr>"

lemma script_kernel_sel [simp]:
  "k_errno script_kernel = snd" "k_read script_kernel fd = script_read"
  "k_write script_kernel fd = script_write"
  by (simp_all add: script_kernel_def quiet_kernel_def)

lemma script_bounded [simp]: "read_bounded script_kernel" "write_bounded script_kernel"
proof -
  show "read_bounded script_kernel"
    unfolding read_bounded_def script_kernel_sel
  proof (intro allI impI)
    fix fd n w bs w'
    show "script_read n w = (Some bs, w') \<Longrightarrow> length bs \<le> n"
      by (cases "(n, w)" rule: script_read.cases) auto
  qed
  show "write_bounded script_kernel"
    unfolding write_bounded_def script_kernel_sel
  proof (intro allI impI)
    fix fd bs w n w'
    show "script_write bs w = (Some n, w') \<Longrightarrow> n \<le> length bs"
      by (cases "(bs, w)" rule: script_write.cases) auto
  qed
qed

end
