(* ===== verification/Buffer.thy ===== *)
theory Buffer
  imports Syscalls
begin

text \<open>
  \<open>src/low_level/io/buffer.rs\<close>: the bounded capture buffers and the loop that drains a
  descriptor into one of them. A \<open>Vec<u8>\<close> is its elements together with its capacity, because
  the loop writes into spare capacity through a raw pointer and then calls \<open>set_len\<close>.
\<close>

section \<open>Vectors and buffers\<close>

record rvec =
  elems :: bytes
  cap :: nat

definition with_capacity :: "nat \<Rightarrow> rvec" where
  "with_capacity n = \<lparr>elems = [], cap = n\<rparr>"

text \<open>
  \<open>Vec::reserve\<close>: room for \<open>additional\<close> more elements; the growth is the amortised doubling
  of the standard library, of which only "at least what was asked for" matters below.
\<close>

definition reserve :: "nat \<Rightarrow> rvec \<Rightarrow> rvec" where
  "reserve additional v =
     (if cap v - length (elems v) < additional
      then v\<lparr>cap := max 8 (max (2 * cap v) (length (elems v) + additional))\<rparr> else v)"

definition wf_vec :: "rvec \<Rightarrow> bool" where
  [wf_defs]: "wf_vec v \<longleftrightarrow> length (elems v) \<le> cap v"

record buffer_state =
  buf_stdout :: rvec
  buf_stderr :: rvec
  buf_limit :: usize

definition READ_CHUNK :: nat where "READ_CHUNK = 65536"
definition DROP_CHUNK :: nat where "DROP_CHUNK = 8192"

definition buffer_new :: "usize \<Rightarrow> buffer_state" where
  "buffer_new limit =
     \<lparr>buf_stdout = with_capacity 1024, buf_stderr = with_capacity 1024, buf_limit = limit\<rparr>"

definition buffer_into_parts :: "buffer_state \<Rightarrow> bytes \<times> bytes" where
  "buffer_into_parts b = (elems (buf_stdout b), elems (buf_stderr b))"

section \<open>Draining a descriptor\<close>

text \<open>
  Before each read below the limit: how much to ask for, and the vector with that much spare
  capacity.
\<close>

definition prepare_read :: "usize \<Rightarrow> rvec \<Rightarrow> rvec \<times> nat" where
  "prepare_read limit dest =
     (let len = length (elems dest); to_read = min (limit - len) READ_CHUNK in
      (if cap dest - len < to_read then reserve to_read dest else dest, to_read))"

definition push_bytes :: "bytes \<Rightarrow> rvec \<Rightarrow> rvec" where
  "push_bytes bs v = v\<lparr>elems := elems v @ bs\<rparr>"

definition read_body ::
    "'w kernel \<Rightarrow> i32 \<Rightarrow> usize \<Rightarrow> (bytes \<Rightarrow> bool) option \<Rightarrow> rvec \<times> 'w \<Rightarrow>
       (((sys_error + bool) \<times> rvec \<times> 'w) + (rvec \<times> 'w)) option" where
  "read_body K fd limit early = (\<lambda>(dest, w).
     if limit - length (elems dest) = 0
     then do {
       (r, w) \<leftarrow> fd_read K fd DROP_CHUNK w;
       Some (case r of
          Inr bs \<Rightarrow> if bs \<noteq> [] then Inr (dest, w) else Inl (Inr True, dest, w)
        | Inl e \<Rightarrow> if would_block e then Inl (Inr False, dest, w) else Inl (Inl e, dest, w))
     }
     else do {
       let (dest, to_read) = prepare_read limit dest;
       (r, w) \<leftarrow> fd_read K fd to_read w;
       Some (case r of
          Inr bs \<Rightarrow>
            if bs \<noteq> [] then
              let dest = push_bytes bs dest in
              if (case early of None \<Rightarrow> False | Some f \<Rightarrow> f bs)
              then Inl (Inr True, dest, w)
              else Inr (dest, w)
            else Inl (Inr True, dest, w)
        | Inl e \<Rightarrow> if would_block e then Inl (Inr False, dest, w) else Inl (Inl e, dest, w))
     })"

definition read_loop ::
    "'w kernel \<Rightarrow> i32 \<Rightarrow> usize \<Rightarrow> (bytes \<Rightarrow> bool) option \<Rightarrow> rvec \<Rightarrow> 'w \<Rightarrow>
       ((sys_error + bool) \<times> rvec \<times> 'w) option" where
  "read_loop K fd limit early dest w = run_loop (read_body K fd limit early) (dest, w)"

definition read_from_fd ::
    "'w kernel \<Rightarrow> i32 \<Rightarrow> bool \<Rightarrow> (bytes \<Rightarrow> bool) option \<Rightarrow> buffer_state \<Rightarrow> 'w \<Rightarrow>
       ((sys_error + bool) \<times> buffer_state \<times> 'w) option" where
  "read_from_fd K fd is_stdout early_exit b w =
     map_option (\<lambda>(r, dest, w'). (r, if is_stdout then b\<lparr>buf_stdout := dest\<rparr>
                                      else b\<lparr>buf_stderr := dest\<rparr>, w'))
       (read_loop K fd (buf_limit b) (if is_stdout then early_exit else None)
          (if is_stdout then buf_stdout b else buf_stderr b) w)"

section \<open>What the kernel delivers\<close>

text \<open>
  \<open>delivers K fd w bs w'\<close>: some sequence of reads on \<open>fd\<close> leads from \<open>w\<close> to \<open>w'\<close>, and
  \<open>bs\<close> is what they returned, concatenated.
\<close>

inductive delivers :: "'w kernel \<Rightarrow> i32 \<Rightarrow> 'w \<Rightarrow> bytes \<Rightarrow> 'w \<Rightarrow> bool" for K fd where
  nothing: "delivers K fd w [] w"
| got: "k_read K fd n w = (Some bs, w1) \<Longrightarrow> delivers K fd w1 cs w2 \<Longrightarrow> delivers K fd w (bs @ cs) w2"
| failed: "k_read K fd n w = (None, w1) \<Longrightarrow> delivers K fd w1 cs w2 \<Longrightarrow> delivers K fd w cs w2"

lemma delivers_trans:
  "delivers K fd w bs w1 \<Longrightarrow> delivers K fd w1 cs w2 \<Longrightarrow> delivers K fd w (bs @ cs) w2"
  by (induction rule: delivers.induct) (auto intro: delivers.intros)

lemma interrupted_delivers:
  "(interrupted K (k_read K fd n))\<^sup>*\<^sup>* w v \<Longrightarrow> delivers K fd w [] v"
proof (induction rule: converse_rtranclp_induct)
  case (step y z)
  then show ?case by (auto simp: interrupted_def intro: delivers.failed)
qed (rule delivers.nothing)

lemma fd_read_delivers:
  assumes "fd_read K fd n w = Some (r, w')"
  shows "delivers K fd w (case r of Inr bs \<Rightarrow> bs | Inl _ \<Rightarrow> []) w'"
proof (cases r)
  case (Inl e)
  with assms obtain v where "(interrupted K (k_read K fd n))\<^sup>*\<^sup>* w v" "k_read K fd n v = (None, w')"
    by (auto elim: fd_read_Inl)
  then have "delivers K fd w ([] @ []) w'"
    by (intro delivers_trans [OF interrupted_delivers]) (auto intro: delivers.intros)
  with Inl show ?thesis by simp
next
  case (Inr bs)
  with assms obtain v where "(interrupted K (k_read K fd n))\<^sup>*\<^sup>* w v"
    "k_read K fd n v = (Some bs, w')"
    by (auto elim: fd_read_Inr)
  then have "delivers K fd w ([] @ (bs @ [])) w'"
    by (meson delivers_trans interrupted_delivers delivers.got delivers.nothing)
  with Inr show ?thesis by simp
qed

section \<open>Safety of the raw writes\<close>

lemma prepare_read_room:
  assumes "prepare_read limit dest = (dest', n)" and "wf_vec dest"
  shows "elems dest' = elems dest" and "length (elems dest') + n \<le> cap dest'" and "wf_vec dest'"
    and "n \<le> limit - length (elems dest)"
  using assms
  by (auto simp: prepare_read_def reserve_def wf_vec_def Let_def le_max_iff_disj split: if_splits)

lemma reserve_elems [simp]: "elems (reserve n v) = elems v"
  by (simp add: reserve_def)

lemma prepare_read_elems [simp]: "elems (fst (prepare_read limit dest)) = elems dest"
  by (simp add: prepare_read_def reserve_def Let_def)

lemma prepare_read_wf: "wf_vec dest \<Longrightarrow> wf_vec (fst (prepare_read limit dest))"
  using prepare_read_room(3) by (metis prod.collapse)

lemma push_bytes_elems [simp]: "elems (push_bytes bs v) = elems v @ bs"
  by (simp add: push_bytes_def)

text \<open>\<open>set_len(len + n)\<close> stays within the capacity when the kernel keeps to its request.\<close>

lemma push_prepared_wf:
  assumes "wf_vec dest" and "length bs \<le> snd (prepare_read limit dest)"
  shows "wf_vec (push_bytes bs (fst (prepare_read limit dest)))"
  using prepare_read_room(2) [OF prod.collapse [symmetric] assms(1), of limit] assms(2)
  by (simp add: wf_vec_def push_bytes_def)

section \<open>One round\<close>

text \<open>
  The rounds of the loop and its exits, by what the read returned. \<open>kept\<close> is what a round
  adds to the buffer: nothing once the limit is reached.
\<close>

definition asked :: "usize \<Rightarrow> rvec \<Rightarrow> nat" where
  "asked limit dest =
     (if limit - length (elems dest) = 0 then DROP_CHUNK else snd (prepare_read limit dest))"

definition filled :: "usize \<Rightarrow> bytes \<Rightarrow> rvec \<Rightarrow> rvec" where
  "filled limit bs dest =
     (if limit - length (elems dest) = 0 then dest
      else if bs = [] then fst (prepare_read limit dest)
      else push_bytes bs (fst (prepare_read limit dest)))"

definition stops_early :: "usize \<Rightarrow> (bytes \<Rightarrow> bool) option \<Rightarrow> rvec \<Rightarrow> bytes \<Rightarrow> bool" where
  "stops_early limit early dest bs \<longleftrightarrow>
     length (elems dest) < limit \<and> (case early of None \<Rightarrow> False | Some f \<Rightarrow> f bs)"

lemma read_body_eq:
  "read_body K fd limit early (dest, w) = do {
     (r, w1) \<leftarrow> fd_read K fd (asked limit dest) w;
     Some (case r of
        Inr bs \<Rightarrow>
          if bs \<noteq> [] then
            if stops_early limit early dest bs then Inl (Inr True, filled limit bs dest, w1)
            else Inr (filled limit bs dest, w1)
          else Inl (Inr True, filled limit [] dest, w1)
      | Inl e \<Rightarrow> Inl (if would_block e then Inr False else Inl e, filled limit [] dest, w1))
   }"
  by (auto simp: read_body_def asked_def filled_def stops_early_def split_beta Let_def
      intro!: Option.bind_cong split: sum.split)

lemma read_body_cases:
  assumes "read_body K fd limit early (dest, w) = Some x"
  obtains (more) bs w1 where "fd_read K fd (asked limit dest) w = Some (Inr bs, w1)" "bs \<noteq> []"
      "x = Inr (filled limit bs dest, w1)"
  | (leaves) r bs w1 where "fd_read K fd (asked limit dest) w = Some (r, w1)"
      "bs = (case r of Inr bs \<Rightarrow> bs | Inl _ \<Rightarrow> [])"
      "x = Inl (case r of Inr _ \<Rightarrow> Inr True | Inl e \<Rightarrow> if would_block e then Inr False else Inl e,
                filled limit bs dest, w1)"
      "case r of Inr bs \<Rightarrow> bs = [] \<or> stops_early limit early dest bs | Inl _ \<Rightarrow> True"
proof -
  from assms obtain r w1 where r: "fd_read K fd (asked limit dest) w = Some (r, w1)"
    by (auto simp: read_body_eq bind_eq_Some_conv)
  show thesis
  proof (cases "\<exists>bs. r = Inr bs \<and> bs \<noteq> [] \<and> \<not> stops_early limit early dest bs")
    case True
    with r assms show thesis by (auto simp: read_body_eq intro: more)
  next
    case False
    with r assms show thesis
      by (intro leaves [OF r refl]) (auto simp: read_body_eq split: sum.splits if_splits)
  qed
qed

lemma filled_elems:
  assumes "length bs \<le> asked limit dest"
  shows "elems (filled limit bs dest) = take (max limit (length (elems dest))) (elems dest @ bs)"
  using assms by (auto simp: filled_def asked_def prepare_read_def Let_def max_def)

lemma filled_wf:
  assumes "length bs \<le> asked limit dest" and "wf_vec dest"
  shows "wf_vec (filled limit bs dest)"
  using assms by (auto simp: filled_def asked_def prepare_read_wf push_prepared_wf)

lemma filled_length:
  "length bs \<le> asked limit dest \<Longrightarrow>
     length (elems (filled limit bs dest)) \<le> max limit (length (elems dest))"
  by (simp add: filled_elems)

section \<open>The loop's result\<close>

text \<open>
  The specification of one run: from \<open>dest\<close> and \<open>w\<close> to \<open>(r, dest', w')\<close>, the buffer is
  extended by what the kernel delivered, cut off at the limit, and never outgrows its capacity.
\<close>

definition drained :: "'w kernel \<Rightarrow> i32 \<Rightarrow> usize \<Rightarrow> rvec \<times> 'w \<Rightarrow>
    (sys_error + bool) \<times> rvec \<times> 'w \<Rightarrow> bool" where
  "drained K fd limit st x \<longleftrightarrow> (\<exists>bs. delivers K fd (snd st) bs (snd (snd x)) \<and>
     elems (fst (snd x)) = take (max limit (length (elems (fst st)))) (elems (fst st) @ bs) \<and>
     (wf_vec (fst st) \<longrightarrow> wf_vec (fst (snd x))))"

lemma drained_one:
  assumes "length bs \<le> asked limit dest" and "delivers K fd w bs w1"
  shows "drained K fd limit (dest, w) (r, filled limit bs dest, w1)"
  using assms filled_elems filled_wf unfolding drained_def by (intro exI [of _ bs]) simp

lemma drained_step:
  assumes "length bs \<le> asked limit dest" and "delivers K fd w bs w1"
    and "drained K fd limit (filled limit bs dest, w1) x"
  shows "drained K fd limit (dest, w) x"
proof -
  let ?m = "max limit (length (elems dest))"
  from assms(3) obtain cs where cs: "delivers K fd w1 cs (snd (snd x))"
    "elems (fst (snd x)) = take (max limit (length (elems (filled limit bs dest))))
       (elems (filled limit bs dest) @ cs)"
    "wf_vec (filled limit bs dest) \<longrightarrow> wf_vec (fst (snd x))"
    by (auto simp: drained_def)
  note e = filled_elems [OF assms(1)]
  have "max limit (length (elems (filled limit bs dest))) = ?m"
    using assms(1) by (auto simp: e max_def asked_def)
  then have "elems (fst (snd x)) = take ?m (elems dest @ bs @ cs)"
    unfolding cs(2) e by (simp add: min_def)
  moreover have "delivers K fd w (bs @ cs) (snd (snd x))"
    using assms(2) cs(1) by (rule delivers_trans)
  moreover have "wf_vec dest \<longrightarrow> wf_vec (fst (snd x))"
    using cs(3) filled_wf [OF assms(1)] by blast
  ultimately show ?thesis unfolding drained_def by auto
qed

lemma fd_read_asked:
  assumes "read_bounded K" and "fd_read K fd n w = Some (r, w')"
  shows "length (case r of Inr bs \<Rightarrow> bs | Inl _ \<Rightarrow> []) \<le> n"
  using assms by (cases r) (auto dest: fd_read_bounded)

lemma read_loop_drained:
  assumes "read_bounded K" and "read_loop K fd limit early dest w = Some x"
  shows "drained K fd limit (dest, w) x"
  using assms(2) unfolding read_loop_def
proof (induction rule: run_loop_induct)
  case (leave st x)
  obtain dest w where st: "st = (dest, w)" by fastforce
  from leave [unfolded st] show ?case
  proof (cases rule: read_body_cases)
    case (leaves r bs w1)
    then show ?thesis
      using drained_one fd_read_asked [OF assms(1) leaves(1)] fd_read_delivers [OF leaves(1)] st by auto
  qed simp
next
  case (again st st' x)
  obtain dest w where st: "st = (dest, w)" by fastforce
  from again(1) [unfolded st] show ?case
  proof (cases rule: read_body_cases)
    case (more bs w1)
    then show ?thesis
      using drained_step [where x = x] again(2) fd_read_asked [OF assms(1) more(1)] fd_read_delivers [OF more(1)] st
      by auto
  qed simp
qed

text \<open>Why the loop was left: the read that ended it.\<close>

definition exit_read :: "'w kernel \<Rightarrow> i32 \<Rightarrow> (bytes \<Rightarrow> bool) option \<Rightarrow>
    (sys_error + bool) \<times> rvec \<times> 'w \<Rightarrow> bool" where
  "exit_read K fd early x \<longleftrightarrow> (\<exists>v n ret. k_read K fd n v = (ret, snd (snd x)) \<and>
     (case fst x of
        Inr True \<Rightarrow> ret = Some [] \<or> (\<exists>f bs. early = Some f \<and> ret = Some bs \<and> f bs)
      | Inr False \<Rightarrow> ret = None \<and> k_errno K (snd (snd x)) \<in> {EAGAIN, EWOULDBLOCK}
      | Inl e \<Rightarrow> ret = None \<and> e = Syscall (k_errno K (snd (snd x))) ''read''
          \<and> k_errno K (snd (snd x)) \<notin> {EAGAIN, EWOULDBLOCK, EINTR}))"

lemma fd_read_call:
  assumes "fd_read K fd n w = Some (r, w')"
  shows "\<exists>v. (interrupted K (k_read K fd n))\<^sup>*\<^sup>* w v \<and> (case r of
     Inr bs \<Rightarrow> k_read K fd n v = (Some bs, w')
   | Inl e \<Rightarrow> k_read K fd n v = (None, w') \<and> e = Syscall (k_errno K w') ''read'' \<and> k_errno K w' \<noteq> EINTR)"
proof (cases r)
  case (Inl e)
  with assms show ?thesis by (auto simp: fd_read_def elim!: retry_Inl)
next
  case (Inr bs)
  with assms show ?thesis by (auto simp: fd_read_def elim!: retry_Inr)
qed

lemma read_loop_exit:
  assumes "read_loop K fd limit early dest w = Some x"
  shows "exit_read K fd early x"
  using assms unfolding read_loop_def
proof (induction rule: run_loop_induct)
  case (leave st x)
  obtain dest w where st: "st = (dest, w)" by fastforce
  from leave [unfolded st] show ?case
  proof (cases rule: read_body_cases)
    case (leaves r bs w1)
    then show ?thesis
      using fd_read_call [OF leaves(1)]
      by (auto simp: exit_read_def would_block_def stops_early_def split: sum.splits option.splits
          if_splits)
  qed simp
qed

section \<open>Termination\<close>

text \<open>
  The loop returns whenever the descriptor does not deliver data (or interruptions) for ever.
\<close>

definition busy_read :: "'w kernel \<Rightarrow> i32 \<Rightarrow> 'w \<Rightarrow> 'w \<Rightarrow> bool" where
  "busy_read K fd w' w \<longleftrightarrow> (\<exists>n. interrupted K (k_read K fd n) w w') \<or>
     (\<exists>n bs. k_read K fd n w = (Some bs, w') \<and> bs \<noteq> [])"

definition reads_end :: "'w kernel \<Rightarrow> i32 \<Rightarrow> bool" where
  "reads_end K fd \<longleftrightarrow> wfP (busy_read K fd)"

lemma fd_read_returns: "reads_end K fd \<Longrightarrow> \<exists>r w'. fd_read K fd n w = Some (r, w')"
proof -
  assume "reads_end K fd"
  then have "wfP (\<lambda>w' w. interrupted K (k_read K fd n) w w')"
    unfolding reads_end_def by (rule wfp_subset) (auto simp: busy_read_def)
  from retry_returns [OF this, of w] show ?thesis by (auto simp: fd_read_def)
qed

lemma fd_read_busy:
  assumes "fd_read K fd n w = Some (Inr bs, w')" and "bs \<noteq> []"
  shows "(busy_read K fd)\<^sup>+\<^sup>+ w' w"
proof -
  from assms(1) obtain v where v: "(interrupted K (k_read K fd n))\<^sup>*\<^sup>* w v"
    "k_read K fd n v = (Some bs, w')"
    by (auto elim: fd_read_Inr)
  from v(1) have "(busy_read K fd)\<^sup>*\<^sup>* v w"
    by (induction rule: rtranclp_induct)
      (auto simp: busy_read_def intro: converse_rtranclp_into_rtranclp)
  moreover have "busy_read K fd w' v" using v(2) assms(2) by (auto simp: busy_read_def)
  ultimately show ?thesis by (rule rtranclp_into_tranclp2 [rotated])
qed

lemma read_loop_returns:
  assumes "reads_end K fd"
  shows "\<exists>x. read_loop K fd limit early dest w = Some x"
  unfolding read_loop_def
proof (rule run_loop_returns [where I = "\<lambda>_. True"])
  have "wfP (\<lambda>x y. (busy_read K fd)\<^sup>+\<^sup>+ (snd x) (snd y))"
    by (rule wfp_if_convertible_to_wfp [OF wfp_tranclp [OF assms [unfolded reads_end_def]]])
  then show "wfP (round (read_body K fd limit early) (\<lambda>_. True))"
    by (rule wfp_subset)
      (auto simp: round_def elim!: read_body_cases dest: fd_read_busy)
next
  fix st :: "rvec \<times> 'a"
  obtain dest w where "st = (dest, w)" by fastforce
  then show "read_body K fd limit early st \<noteq> None"
    using fd_read_returns [OF assms, of "asked limit dest" w] by (auto simp: read_body_eq)
qed simp_all

section \<open>Properties\<close>

text \<open>C9: Capture. Draining a descriptor extends the chosen buffer by exactly the bytes the kernel
  delivered during the call, cut off at the limit, leaves the other buffer alone, never writes
  past a vector's capacity, and ends for one of three reasons: end of file or the early-exit
  callback (\<open>Ok(true)\<close>), no more data for now (\<open>Ok(false)\<close>), or a real read error.\<close>

theorem capture_exact:
  assumes "read_bounded K" and "read_from_fd K fd out early b w = Some (r, b', w')"
    and "wf_vec (buf_stdout b)" and "wf_vec (buf_stderr b)"
    and "length (elems (buf_stdout b)) \<le> buf_limit b"
    and "length (elems (buf_stderr b)) \<le> buf_limit b"
  shows "\<exists>bs. delivers K fd w bs w'
    \<and> elems (buf_stdout b') = (if out then take (buf_limit b) (elems (buf_stdout b) @ bs)
        else elems (buf_stdout b))
    \<and> elems (buf_stderr b') = (if out then elems (buf_stderr b)
        else take (buf_limit b) (elems (buf_stderr b) @ bs))
    \<and> buf_limit b' = buf_limit b \<and> wf_vec (buf_stdout b') \<and> wf_vec (buf_stderr b')
    \<and> exit_read K fd (if out then early else None) (r, if out then buf_stdout b' else buf_stderr b', w')"
proof -
  let ?dest = "if out then buf_stdout b else buf_stderr b"
  from assms(2) obtain dest where run: "read_loop K fd (buf_limit b) (if out then early else None)
      ?dest w = Some (r, dest, w')"
    and b': "b' = (if out then b\<lparr>buf_stdout := dest\<rparr> else b\<lparr>buf_stderr := dest\<rparr>)"
    by (auto simp: read_from_fd_def split: if_splits)
  have "wf_vec ?dest" "max (buf_limit b) (length (elems ?dest)) = buf_limit b"
    using assms(3-6) by simp_all
  with read_loop_drained [OF assms(1) run] obtain bs where "delivers K fd w bs w'"
    "elems dest = take (buf_limit b) (elems ?dest @ bs)" "wf_vec dest"
    by (auto simp: drained_def)
  with read_loop_exit [OF run] b' assms(3,4) show ?thesis by auto
qed

lemma capture_exact_witness:
  "\<exists>r b' w'. read_from_fd script_kernel 5 True None (buffer_new 4) ([Inr [1, 2, 3], Inl 4, Inr [4, 5, 6]], 0)
      = Some (r, b', w') \<and> elems (buf_stdout b') = [1, 2, 3, 4] \<and> elems (buf_stderr b') = []"
proof -
  obtain r b' w' where h: "read_from_fd script_kernel 5 True None (buffer_new 4)
      ([Inr [1, 2, 3], Inl 4, Inr [4, 5, 6]], 0) = Some (r, b', w')"
    and b': "elems (buf_stdout b') = [1, 2, 3, 4]"
    by (simp add: read_from_fd_def read_loop_def buffer_new_def with_capacity_def run_loop_eval
        read_body_def prepare_read_def reserve_def Let_def push_bytes_def fd_read_def retry_def
        retry_body_def tag_error_def READ_CHUNK_def DROP_CHUNK_def EINTR_def)
  have "elems (buf_stderr b') = []"
    using capture_exact [OF _ h] by (auto simp: buffer_new_def with_capacity_def wf_vec_def)
  with h b' show ?thesis by auto
qed

lemma script_reads_end: "reads_end script_kernel fd"
  unfolding reads_end_def
proof (rule wfp_if_convertible_to_nat)
  fix w' w assume "busy_read script_kernel fd w' w"
  moreover have "length (fst v) < length (fst w)"
    if "script_read n w = (x, v)" "x \<noteq> Some []" for n x v
    using that by (cases "(n, w)" rule: script_read.cases) auto
  ultimately show "length (fst w') < length (fst w)"
    unfolding busy_read_def interrupted_def script_kernel_sel by blast
qed

text \<open>C19: The read loop returns. If the descriptor does not deliver data or interruptions for
  ever, draining it returns, limit reached or not.\<close>

theorem capture_returns:
  assumes "reads_end K fd"
  shows "\<exists>r b' w'. read_from_fd K fd out early b w = Some (r, b', w')"
  using read_loop_returns [OF assms, of "buf_limit b" "if out then early else None"
      "if out then buf_stdout b else buf_stderr b" w]
  by (auto simp: read_from_fd_def)

lemma capture_returns_witness:
  "\<exists>r b' w'. read_from_fd script_kernel 5 False None (buffer_new 0) ([Inr [1], Inl 11], 0)
     = Some (r, b', w')"
  by (rule capture_returns [OF script_reads_end])

end
