(* ===== verification/Writer.thy ===== *)
theory Writer
  imports Syscalls
begin

text \<open>
  \<open>src/low_level/io/writer.rs\<close>: the buffer that feeds a child's standard input, and the loop
  that writes as much of it as the descriptor takes.
\<close>

record writer_state =
  wr_buf :: "bytes option"
  wr_off :: usize

definition WRITE_CHUNK :: nat where "WRITE_CHUNK = 65536"

definition writer_new :: "bytes option \<Rightarrow> writer_state" where
  "writer_new buf = \<lparr>wr_buf = buf, wr_off = 0\<rparr>"

section \<open>The write loop\<close>

text \<open>The slice \<open>buf[off..off + chunk]\<close> passed to one \<open>write\<close>.\<close>

definition next_chunk :: "bytes \<Rightarrow> usize \<Rightarrow> bytes" where
  "next_chunk buf off = take (min (length buf - off) WRITE_CHUNK) (drop off buf)"

text \<open>
  One round: a result is the returned flag, whether \<open>self.buf\<close> survives, and the offset. Every
  error other than "would block" ends the transfer as if it were complete.
\<close>

definition write_body ::
    "'w kernel \<Rightarrow> i32 \<Rightarrow> bytes \<Rightarrow> usize \<times> 'w \<Rightarrow>
       ((bool \<times> bool \<times> usize \<times> 'w) + (usize \<times> 'w)) option" where
  "write_body K fd buf = (\<lambda>(off, w).
     if off < length buf
     then do {
       (r, w) \<leftarrow> fd_write K fd (next_chunk buf off) w;
       Some (case r of
          Inr n \<Rightarrow> if n > 0 then Inr (off + n, w) else Inl (True, False, off, w)
        | Inl e \<Rightarrow>
            if err_code e = EAGAIN \<or> err_code e = EWOULDBLOCK then Inl (False, True, off, w)
            else if err_code e = EPIPE then Inl (True, False, off, w)
            else Inl (True, False, off, w))
     }
     else Some (Inl (True, False, off, w)))"

definition write_to_fd ::
    "'w kernel \<Rightarrow> i32 \<Rightarrow> writer_state \<Rightarrow> 'w \<Rightarrow>
       ((sys_error + bool) \<times> writer_state \<times> 'w) option" where
  "write_to_fd K fd s w =
     (case wr_buf s of
        Some buf \<Rightarrow> do {
          (done, keep, off, w) \<leftarrow> run_loop (write_body K fd buf) (wr_off s, w);
          Some (Inr done, \<lparr>wr_buf = (if keep then Some buf else None), wr_off = off\<rparr>, w)
        }
      | None \<Rightarrow> Some (Inr True, s, w))"

section \<open>What the kernel accepts\<close>

text \<open>
  \<open>accepts K fd w bs w'\<close>: some sequence of writes on \<open>fd\<close> leads from \<open>w\<close> to \<open>w'\<close>, and
  \<open>bs\<close> are the bytes the kernel took, concatenated.
\<close>

inductive accepts :: "'w kernel \<Rightarrow> i32 \<Rightarrow> 'w \<Rightarrow> bytes \<Rightarrow> 'w \<Rightarrow> bool" for K fd where
  nothing: "accepts K fd w [] w"
| took: "k_write K fd bs w = (Some n, w1) \<Longrightarrow> accepts K fd w1 cs w2 \<Longrightarrow>
    accepts K fd w (take n bs @ cs) w2"
| failed: "k_write K fd bs w = (None, w1) \<Longrightarrow> accepts K fd w1 cs w2 \<Longrightarrow> accepts K fd w cs w2"

lemma accepts_trans:
  "accepts K fd w bs w1 \<Longrightarrow> accepts K fd w1 cs w2 \<Longrightarrow> accepts K fd w (bs @ cs) w2"
  by (induction rule: accepts.induct) (auto intro: accepts.intros)

lemma interrupted_accepts:
  "(interrupted K (k_write K fd bs))\<^sup>*\<^sup>* w v \<Longrightarrow> accepts K fd w [] v"
proof (induction rule: converse_rtranclp_induct)
  case (step y z)
  then show ?case by (auto simp: interrupted_def intro: accepts.failed)
qed (rule accepts.nothing)

lemma fd_write_accepts:
  assumes "fd_write K fd bs w = Some (r, w')"
  shows "accepts K fd w (case r of Inr n \<Rightarrow> take n bs | Inl _ \<Rightarrow> []) w'"
proof (cases r)
  case (Inl e)
  with assms obtain v where v: "(interrupted K (k_write K fd bs))\<^sup>*\<^sup>* w v"
    "k_write K fd bs v = (None, w')"
    by (auto elim: fd_write_Inl)
  from accepts_trans [OF interrupted_accepts [OF v(1)] accepts.failed [OF v(2) accepts.nothing]]
  show ?thesis using Inl by simp
next
  case (Inr n)
  with assms obtain v where v: "(interrupted K (k_write K fd bs))\<^sup>*\<^sup>* w v"
    "k_write K fd bs v = (Some n, w')"
    by (auto elim: fd_write_Inr)
  from accepts_trans [OF interrupted_accepts [OF v(1)] accepts.took [OF v(2) accepts.nothing]]
  show ?thesis using Inr by simp
qed

section \<open>The loop's result\<close>

text \<open>
  From offset \<open>off\<close> to \<open>off'\<close>, the kernel has taken exactly the bytes between the two; the
  loop reports completion without having reached the end only on an error or a refusal.
\<close>

definition sent :: "'w kernel \<Rightarrow> i32 \<Rightarrow> bytes \<Rightarrow> usize \<times> 'w \<Rightarrow> bool \<times> bool \<times> usize \<times> 'w \<Rightarrow> bool"
  where
  "sent K fd buf st x \<longleftrightarrow> (case (st, x) of ((off, w), (fin, keep, off', w')) \<Rightarrow>
     off \<le> off' \<and> off' \<le> max off (length buf) \<and>
     accepts K fd w (take (off' - off) (drop off buf)) w' \<and> keep = (\<not> fin) \<and>
     (\<not> fin \<longrightarrow> off' < length buf))"

lemma next_chunk_length: "length (next_chunk buf off) = min (length buf - off) WRITE_CHUNK"
  by (simp add: next_chunk_def)

lemma take_next_chunk:
  "n \<le> length (next_chunk buf off) \<Longrightarrow> take n (next_chunk buf off) = take n (drop off buf)"
  by (simp add: next_chunk_def)

lemma write_body_cases:
  assumes "write_body K fd buf (off, w) = Some x"
  obtains (more) n w1 where "off < length buf"
      "fd_write K fd (next_chunk buf off) w = Some (Inr n, w1)" "n > 0" "x = Inr (off + n, w1)"
  | (leaves) r fin w1 where "off < length buf" "fd_write K fd (next_chunk buf off) w = Some (r, w1)"
      "r = Inr 0 \<or> (\<exists>e. r = Inl e)" "x = Inl (fin, \<not> fin, off, w1)"
      "fin = (\<forall>e. r = Inl e \<longrightarrow> \<not> would_block e)"
  | (finished) "length buf \<le> off" "x = Inl (True, False, off, w)"
proof (cases "off < length buf")
  case True
  with assms obtain r w1 where r: "fd_write K fd (next_chunk buf off) w = Some (r, w1)"
    by (auto simp: write_body_def bind_eq_Some_conv)
  show thesis
  proof (cases "\<exists>n. r = Inr n \<and> n > 0")
    case More: True
    with True r assms show thesis by (auto simp: write_body_def intro: more)
  next
    case False
    with True r assms show thesis
      by (cases r; intro leaves [OF True r])
        (auto simp: write_body_def would_block_def split: if_splits)
  qed
next
  case False
  with assms show thesis by (auto simp: write_body_def intro: finished)
qed

lemma sent_stop:
  assumes "accepts K fd w [] w'" and "fin \<or> off < length buf"
  shows "sent K fd buf (off, w) (fin, \<not> fin, off, w')"
  using assms by (auto simp: sent_def)

lemma sent_step:
  assumes "accepts K fd w (take n (drop off buf)) w1" and "off + n \<le> length buf"
    and "sent K fd buf (off + n, w1) x"
  shows "sent K fd buf (off, w) x"
proof -
  obtain fin keep off' w' where x: "x = (fin, keep, off', w')" by (cases x) auto
  with assms(3) have s: "off + n \<le> off'" "off' \<le> max (off + n) (length buf)"
    "accepts K fd w1 (take (off' - (off + n)) (drop (off + n) buf)) w'"
    "keep = (\<not> fin)" "\<not> fin \<longrightarrow> off' < length buf"
    by (auto simp: sent_def)
  have "take (off' - off) (drop off buf) =
      take n (drop off buf) @ take (off' - (off + n)) (drop (off + n) buf)"
    using s(1) take_add [of n "off' - (off + n)" "drop off buf"] by (simp add: add.commute)
  with accepts_trans [OF assms(1) s(3)] s assms(2) x show ?thesis by (auto simp: sent_def)
qed

lemma write_loop_sent:
  assumes "write_bounded K" and "run_loop (write_body K fd buf) (off, w) = Some x"
  shows "sent K fd buf (off, w) x"
  using assms(2)
proof (induction rule: run_loop_induct)
  case (leave st x)
  obtain off w where st: "st = (off, w)" by fastforce
  from leave [unfolded st] show ?case
  proof (cases rule: write_body_cases)
    case (leaves r fin w1)
    then have "accepts K fd w [] w1" using fd_write_accepts [OF leaves(2)] by auto
    with sent_stop [of K fd w w1 fin off buf] leaves st show ?thesis by simp
  next
    case finished
    with sent_stop [OF accepts.nothing, of True] st show ?thesis by simp
  qed simp
next
  case (again st st' x)
  obtain off w where st: "st = (off, w)" by fastforce
  from again(1) [unfolded st] show ?case
  proof (cases rule: write_body_cases)
    case (more n w1)
    have n: "n \<le> length (next_chunk buf off)"
      using fd_write_bounded [OF assms(1) more(2)] .
    then have "accepts K fd w (take n (drop off buf)) w1"
      using fd_write_accepts [OF more(2)] by (simp add: take_next_chunk)
    moreover have "off + n \<le> length buf" using n more(1) by (auto simp: next_chunk_length)
    ultimately show ?thesis using sent_step [where x = x] again(2) more(4) st by simp
  qed simp_all
qed

text \<open>
  Every round advances the offset, so the loop returns as soon as single writes do.
\<close>

definition writes_return :: "'w kernel \<Rightarrow> i32 \<Rightarrow> bool" where
  "writes_return K fd \<longleftrightarrow> (\<forall>bs. wfP (\<lambda>w' w. interrupted K (k_write K fd bs) w w'))"

lemma fd_write_returns: "writes_return K fd \<Longrightarrow> \<exists>r w'. fd_write K fd bs w = Some (r, w')"
  using retry_returns [of K "k_write K fd bs" w] by (auto simp: writes_return_def fd_write_def)

lemma write_loop_returns:
  assumes "writes_return K fd" and "write_bounded K"
  shows "\<exists>x. run_loop (write_body K fd buf) (off, w) = Some x"
proof (rule run_loop_measure [where I = "\<lambda>_. True" and m = "\<lambda>st. length buf - fst st"])
  fix st st' :: "nat \<times> 'a"
  obtain off w where st: "st = (off, w)" by fastforce
  assume "write_body K fd buf st = Some (Inr st')"
  from this [unfolded st] show "True \<and> length buf - fst st' < length buf - fst st"
    by (cases rule: write_body_cases) (auto simp: st)
next
  fix st :: "nat \<times> 'a"
  obtain off w where "st = (off, w)" by fastforce
  then show "write_body K fd buf st \<noteq> None"
    using fd_write_returns [OF assms(1), of "next_chunk buf off" w]
    by (auto simp: write_body_def)
qed simp_all

section \<open>Properties\<close>

text \<open>C10: Feeding standard input. One call hands the kernel exactly the bytes between the old and
  the new offset, in order and none twice; it reports "not finished" only while bytes remain, and
  then keeps the buffer for the next call; when it reports completion it gives the buffer up.\<close>

theorem feed_exact:
  assumes "write_bounded K" and "write_to_fd K fd s w = Some (r, s', w')"
    and "wr_buf s = Some buf" and "wr_off s \<le> length buf"
  shows "\<exists>fin. r = Inr fin \<and> wr_off s \<le> wr_off s' \<and> wr_off s' \<le> length buf
    \<and> accepts K fd w (take (wr_off s' - wr_off s) (drop (wr_off s) buf)) w'
    \<and> wr_buf s' = (if fin then None else Some buf) \<and> (\<not> fin \<longrightarrow> wr_off s' < length buf)"
proof -
  from assms(2,3) obtain fin keep off where
    run: "run_loop (write_body K fd buf) (wr_off s, w) = Some (fin, keep, off, w')"
    and eq: "r = Inr fin" "s' = \<lparr>wr_buf = (if keep then Some buf else None), wr_off = off\<rparr>"
    by (auto simp: write_to_fd_def bind_eq_Some_conv)
  from write_loop_sent [OF assms(1) run] assms(4) eq show ?thesis
    by (auto simp: sent_def)
qed

lemma feed_exact_witness:
  "\<exists>s' w'. write_to_fd script_kernel 5 (writer_new (Some [1, 2, 3])) ([Inr [0, 0], Inl 4, Inl 11], 0)
     = Some (Inr False, s', w') \<and> wr_buf s' = Some [1, 2, 3]"
proof -
  obtain s' w' where h: "write_to_fd script_kernel 5 (writer_new (Some [1, 2, 3]))
      ([Inr [0, 0], Inl 4, Inl 11], 0) = Some (Inr False, s', w')"
    by (simp add: write_to_fd_def writer_new_def run_loop_eval write_body_def next_chunk_def
        fd_write_def retry_def retry_body_def tag_error_def WRITE_CHUNK_def EINTR_def EAGAIN_def)
  from feed_exact [OF _ h] h show ?thesis by (auto simp: writer_new_def)
qed

text \<open>The write loop returns as soon as single writes are not interrupted for ever: every
  round that does not end it advances the offset towards the end of the input.\<close>

theorem feed_returns:
  assumes "writes_return K fd" and "write_bounded K"
  shows "\<exists>r s' w'. write_to_fd K fd s w = Some (r, s', w')"
proof (cases "wr_buf s")
  case (Some buf)
  from write_loop_returns [OF assms, of buf "wr_off s" w] obtain fin keep off w'
    where "run_loop (write_body K fd buf) (wr_off s, w) = Some (fin, keep, off, w')"
    by (metis prod_cases4)
  with Some show ?thesis by (simp add: write_to_fd_def)
qed (simp add: write_to_fd_def)

lemma script_writes_return: "writes_return script_kernel fd"
  unfolding writes_return_def
proof (intro allI wfp_if_convertible_to_nat)
  fix bs w' w assume "interrupted script_kernel (k_write script_kernel fd bs) w w'"
  then show "length (fst w') < length (fst w)"
    unfolding interrupted_def script_kernel_sel
    by (cases "(bs, w)" rule: script_write.cases) auto
qed

lemma feed_returns_witness:
  "\<exists>r s' w'. write_to_fd script_kernel 5 (writer_new (Some [1, 2, 3])) ([Inl 4, Inl 32], 0)
     = Some (r, s', w')"
  by (rule feed_returns [OF script_writes_return]) simp

text \<open>Every write error other than "would block" is reported as completion: the caller of
  \<open>write_to_fd\<close> cannot tell a failed transfer from a finished one, and the unsent input is
  dropped.\<close>

theorem write_error_is_completion:
  assumes "wr_buf s = Some buf" and "wr_off s < length buf"
    and "fd_write K fd (next_chunk buf (wr_off s)) w = Some (Inl e, w')" and "\<not> would_block e"
  shows "write_to_fd K fd s w = Some (Inr True, \<lparr>wr_buf = None, wr_off = wr_off s\<rparr>, w')"
  using assms by (simp add: write_to_fd_def run_loop_eval write_body_def would_block_def)

lemma write_error_is_completion_witness:
  "write_to_fd script_kernel 5 (writer_new (Some [1, 2, 3])) ([Inl 5], 0) =
     Some (Inr True, \<lparr>wr_buf = None, wr_off = 0\<rparr>, ([], 5))"
proof -
  have "fd_write script_kernel 5 (next_chunk [1, 2, 3] (wr_off (writer_new (Some [1, 2, 3])))) ([Inl 5], 0)
      = Some (Inl (Syscall 5 ''write''), ([], 5))"
    by (simp add: fd_write_def retry_def run_loop_eval retry_body_def tag_error_def EINTR_def)
  from write_error_is_completion [OF _ _ this] show ?thesis
    by (simp add: writer_new_def would_block_def abi_defs)
qed

end
