(* ===== verification/Drain.thy ===== *)
theory Drain
  imports Buffer Writer
begin

text \<open>
  \<open>src/low_level/io/drain.rs\<close>: the parent's ends of a child's three streams, each in a slot
  with its reactor token, with the capture buffers and the input writer. A slot is emptied
  when its stream is finished; dropping a \<open>FdSlot\<close> closes its descriptor, so what the
  functions drop is closed explicitly here, in Rust's order (locals before parameters, the
  last declared first).
\<close>

record fd_slot =
  slot_token :: u64
  slot_fd :: i32

record drain_state =
  stdout_slot :: "fd_slot option"
  stderr_slot :: "fd_slot option"
  stdin_slot :: "fd_slot option"
  drain_buffer :: buffer_state
  drain_writer :: writer_state
  drain_early_exit :: "(bytes \<Rightarrow> bool) option"

definition drop_slot :: "'w kernel \<Rightarrow> fd_slot option \<Rightarrow> 'w \<Rightarrow> 'w" where
  "drop_slot K s w = fd_drop_opt K (map_option slot_fd s) w"

section \<open>Construction\<close>

text \<open>\<open>Token(job_id | (tag << 60))\<close>, with tag 1 for stdin, 2 for stdout and 3 for stderr.\<close>

definition stream_token :: "u64 \<Rightarrow> u64 \<Rightarrow> u64" where
  "stream_token job_id tag = job_id OR push_bit 60 tag"

definition claim_slot :: "'w kernel \<Rightarrow> u64 \<Rightarrow> u64 \<Rightarrow> i32 option \<Rightarrow> 'w \<Rightarrow>
    (sys_error + fd_slot option) \<times> 'w" where
  "claim_slot K job_id tag fd_opt w =
     (case fd_opt of
        None \<Rightarrow> (Inr None, w)
      | Some fd \<Rightarrow>
          (case set_nonblock K fd w of
             (Inl e, w) \<Rightarrow> (Inl e, w)
           | (Inr _, w) \<Rightarrow>
               (Inr (Some \<lparr>slot_token = stream_token job_id tag, slot_fd = fd\<rparr>), w)))"

definition drain_new :: "'w kernel \<Rightarrow> u64 \<Rightarrow> i32 option \<Rightarrow> bytes option \<Rightarrow> i32 option \<Rightarrow>
    i32 option \<Rightarrow> usize \<Rightarrow> (bytes \<Rightarrow> bool) option \<Rightarrow> 'w \<Rightarrow> (sys_error + drain_state) \<times> 'w" where
  "drain_new K job_id stdin_fd stdin_buf stdout_fd stderr_fd limit early_exit w =
     (let moved = (if stdin_buf = None then None else stdin_fd);
          unmoved = (if stdin_buf = None then stdin_fd else None) in
      case claim_slot K job_id 1 moved w of
        (Inl e, w) \<Rightarrow>
          (Inl e, fd_drop_opt K stdin_fd (fd_drop_opt K stdout_fd (fd_drop_opt K stderr_fd w)))
      | (Inr stdin_s, w) \<Rightarrow>
          (case claim_slot K job_id 2 stdout_fd w of
             (Inl e, w) \<Rightarrow>
               (Inl e, fd_drop_opt K unmoved (fd_drop_opt K stdout_fd (fd_drop_opt K stderr_fd
                  (drop_slot K stdin_s w))))
           | (Inr stdout_s, w) \<Rightarrow>
               (case claim_slot K job_id 3 stderr_fd w of
                  (Inl e, w) \<Rightarrow>
                    (Inl e, fd_drop_opt K unmoved (fd_drop_opt K stderr_fd
                       (drop_slot K stdin_s (drop_slot K stdout_s w))))
                | (Inr stderr_s, w) \<Rightarrow>
                    (Inr \<lparr>stdout_slot = stdout_s, stderr_slot = stderr_s, stdin_slot = stdin_s,
                      drain_buffer = buffer_new limit, drain_writer = writer_new stdin_buf,
                      drain_early_exit = early_exit\<rparr>,
                     fd_drop_opt K unmoved w))))"

section \<open>Operations\<close>

definition is_done :: "drain_state \<Rightarrow> bool" where
  "is_done d \<longleftrightarrow> stdin_slot d = None \<and> stdout_slot d = None \<and> stderr_slot d = None"

definition write_stdin :: "'w kernel \<Rightarrow> drain_state \<Rightarrow> 'w \<Rightarrow>
    ((sys_error + fd_slot option) \<times> drain_state \<times> 'w) option" where
  "write_stdin K d w =
     (case stdin_slot d of
        None \<Rightarrow> Some (Inr None, d, w)
      | Some s \<Rightarrow> do {
          (r, wr, w) \<leftarrow> write_to_fd K (slot_fd s) (drain_writer d) w;
          let d = d\<lparr>drain_writer := wr\<rparr>;
          Some (case r of
             Inl e \<Rightarrow> (Inl e, d, w)
           | Inr fin \<Rightarrow>
               if fin then (Inr (Some s), d\<lparr>stdin_slot := None\<rparr>, w) else (Inr None, d, w))
        })"

definition read_fd :: "'w kernel \<Rightarrow> bool \<Rightarrow> drain_state \<Rightarrow> 'w \<Rightarrow>
    ((sys_error + fd_slot option) \<times> drain_state \<times> 'w) option" where
  "read_fd K is_stdout d w =
     (case (if is_stdout then stdout_slot d else stderr_slot d) of
        None \<Rightarrow> Some (Inr None, d, w)
      | Some s \<Rightarrow> do {
          (r, b, w) \<leftarrow>
            read_from_fd K (slot_fd s) is_stdout (drain_early_exit d) (drain_buffer d) w;
          let d = d\<lparr>drain_buffer := b\<rparr>;
          Some (case r of
             Inl e \<Rightarrow> (Inl e, d, w)
           | Inr eof \<Rightarrow>
               if eof
               then (Inr (Some s),
                     if is_stdout then d\<lparr>stdout_slot := None\<rparr> else d\<lparr>stderr_slot := None\<rparr>, w)
               else (Inr None, d, w))
        })"

definition take_all_slots :: "drain_state \<Rightarrow> fd_slot list \<times> drain_state" where
  "take_all_slots d =
     ((case stdin_slot d of Some s \<Rightarrow> [s] | None \<Rightarrow> []) @
      (case stdout_slot d of Some s \<Rightarrow> [s] | None \<Rightarrow> []) @
      (case stderr_slot d of Some s \<Rightarrow> [s] | None \<Rightarrow> []),
      d\<lparr>stdin_slot := None, stdout_slot := None, stderr_slot := None\<rparr>)"

text \<open>\<open>into_parts(self)\<close> consumes the state: the slots still held are dropped with it.\<close>

definition drain_into_parts :: "'w kernel \<Rightarrow> drain_state \<Rightarrow> 'w \<Rightarrow> (bytes \<times> bytes) \<times> 'w" where
  "drain_into_parts K d w =
     (buffer_into_parts (drain_buffer d),
      drop_slot K (stdin_slot d) (drop_slot K (stderr_slot d) (drop_slot K (stdout_slot d) w)))"

section \<open>Tokens are unambiguous below 2^60\<close>

lemma stream_token_parts:
  assumes "job_id < 2 ^ 60" and "tag < 16"
  shows "take_bit 60 (stream_token job_id tag) = job_id"
    and "drop_bit 60 (stream_token job_id tag) = tag"
proof -
  have j: "take_bit 60 job_id = job_id"
    using assms(1) by (simp add: take_bit_eq_mod mod_word_less)
  show "take_bit 60 (stream_token job_id tag) = job_id"
    by (simp add: stream_token_def j take_bit_push_bit)
  have t: "take_bit 4 tag = tag"
    using assms(2) by (simp add: take_bit_eq_mod mod_word_less)
  have "drop_bit 60 job_id = drop_bit 60 (take_bit 60 job_id)" by (simp add: j)
  also have "\<dots> = 0" by (simp add: drop_bit_take_bit)
  finally have "drop_bit 60 (stream_token job_id tag) = drop_bit 60 (push_bit 60 tag)"
    by (simp add: stream_token_def)
  also have "\<dots> = take_bit 4 tag"
    by (rule bit_eqI) (auto simp: bit_simps dest: bit_imp_le_length)
  finally show "drop_bit 60 (stream_token job_id tag) = tag" by (simp add: t)
qed

lemma stream_token_inj:
  assumes "i < 2 ^ 60" "j < 2 ^ 60" "s < 16" "t < 16"
  shows "stream_token i s = stream_token j t \<longleftrightarrow> i = j \<and> s = t"
  using stream_token_parts [OF assms(1,3)] stream_token_parts [OF assms(2,4)] by metis

section \<open>Which descriptors are held\<close>

definition slot_fds :: "drain_state \<Rightarrow> i32 set" where
  "slot_fds d = slot_fd ` (set_option (stdin_slot d) \<union> set_option (stdout_slot d)
     \<union> set_option (stderr_slot d))"

text \<open>The slots of a drain hold different descriptors.\<close>

definition apart :: "'a option \<Rightarrow> 'a option \<Rightarrow> 'a option \<Rightarrow> bool" where
  "apart a b c \<longleftrightarrow> set_option a \<inter> set_option b = {} \<and> set_option a \<inter> set_option c = {}
     \<and> set_option b \<inter> set_option c = {}"

definition slots_apart :: "drain_state \<Rightarrow> bool" where
  "slots_apart d \<longleftrightarrow> apart (map_option slot_fd (stdin_slot d)) (map_option slot_fd (stdout_slot d))
     (map_option slot_fd (stderr_slot d))"

text \<open>
  Descriptor accounting: \<open>opn w\<close> is the set of open descriptors of the process. \<open>close\<close>
  removes its argument, \<open>fcntl\<close> changes nothing; documented behaviour of the two calls.
\<close>

definition closes_fds :: "'w kernel \<Rightarrow> ('w \<Rightarrow> i32 set) \<Rightarrow> bool" where
  "closes_fds K opn \<longleftrightarrow> (\<forall>fd w. opn (k_close K fd w) = opn w - {fd}) \<and>
     (\<forall>fd c w. opn (snd (k_fcntl K fd c w)) = opn w)"

definition valid_fd :: "i32 option \<Rightarrow> bool" where
  "valid_fd x \<longleftrightarrow> (\<forall>fd. x = Some fd \<longrightarrow> 0 \<le> fd)"

lemma valid_fd_simps [simp]: "valid_fd None" "valid_fd (Some fd) \<longleftrightarrow> 0 \<le> fd"
  by (simp_all add: valid_fd_def)

lemma opn_fd_drop_opt:
  "closes_fds K opn \<Longrightarrow> valid_fd x \<Longrightarrow> opn (fd_drop_opt K x w) = opn w - set_option x"
  by (auto simp: closes_fds_def valid_fd_def fd_drop_opt_def fd_drop_def split: option.splits)

lemma opn_set_nonblock: "closes_fds K opn \<Longrightarrow> opn (snd (set_nonblock K fd w)) = opn w"
  by (auto simp: closes_fds_def set_nonblock_def Let_def split_beta split: sum.splits)

lemma opn_claim_slot: "closes_fds K opn \<Longrightarrow> opn (snd (claim_slot K j t x w)) = opn w"
  using opn_set_nonblock [of K opn _ w]
  by (auto simp: claim_slot_def split: option.splits prod.splits sum.splits) (metis snd_conv)+

lemma claim_slot_Inr:
  assumes "claim_slot K j t x w = (Inr s, w')"
  shows "map_option slot_fd s = x" and "map_option slot_token s = map_option (\<lambda>_. stream_token j t) x"
  using assms by (auto simp: claim_slot_def split: option.splits prod.splits sum.splits)

text \<open>
  Whatever the constructor returns, no descriptor it was given is lost: on failure all are
  closed, on success each is in a slot, except a stdin end for which there is no input.
\<close>

lemma drain_new_cases:
  assumes "drain_new K j ifd ibuf ofd efd limit early w = (r, w')"
  obtains (fail1) e w1 where "claim_slot K j 1 (if ibuf = None then None else ifd) w = (Inl e, w1)"
      "r = Inl e" "w' = fd_drop_opt K ifd (fd_drop_opt K ofd (fd_drop_opt K efd w1))"
  | (fail2) s1 e w1 w2 where
      "claim_slot K j 1 (if ibuf = None then None else ifd) w = (Inr s1, w1)"
      "claim_slot K j 2 ofd w1 = (Inl e, w2)" "r = Inl e"
      "w' = fd_drop_opt K (if ibuf = None then ifd else None) (fd_drop_opt K ofd
         (fd_drop_opt K efd (drop_slot K s1 w2)))"
  | (fail3) s1 s2 e w1 w2 w3 where
      "claim_slot K j 1 (if ibuf = None then None else ifd) w = (Inr s1, w1)"
      "claim_slot K j 2 ofd w1 = (Inr s2, w2)" "claim_slot K j 3 efd w2 = (Inl e, w3)" "r = Inl e"
      "w' = fd_drop_opt K (if ibuf = None then ifd else None) (fd_drop_opt K efd
         (drop_slot K s1 (drop_slot K s2 w3)))"
  | (ok) s1 s2 s3 w1 w2 w3 where
      "claim_slot K j 1 (if ibuf = None then None else ifd) w = (Inr s1, w1)"
      "claim_slot K j 2 ofd w1 = (Inr s2, w2)" "claim_slot K j 3 efd w2 = (Inr s3, w3)"
      "r = Inr \<lparr>stdout_slot = s2, stderr_slot = s3, stdin_slot = s1,
         drain_buffer = buffer_new limit, drain_writer = writer_new ibuf, drain_early_exit = early\<rparr>"
      "w' = fd_drop_opt K (if ibuf = None then ifd else None) w3"
  using assms unfolding drain_new_def Let_def
  by (elim prod.splits [THEN iffD1, elim_format]) (simp split: prod.splits sum.splits)

lemma opn_drop_slot:
  assumes "closes_fds K opn" and "map_option slot_fd s = x" and "valid_fd x"
  shows "opn (drop_slot K s w) = opn w - set_option x"
  using opn_fd_drop_opt [OF assms(1,3)] assms(2) by (simp add: drop_slot_def)

lemma drain_new_fds:
  assumes K: "closes_fds K opn" and v: "valid_fd ifd" "valid_fd ofd" "valid_fd efd"
    and new: "drain_new K j ifd ibuf ofd efd limit early w = (r, w')"
  shows "case r of
      Inl _ \<Rightarrow> opn w' = opn w - (set_option ifd \<union> set_option ofd \<union> set_option efd)
    | Inr d \<Rightarrow> opn w' = opn w - (if ibuf = None then set_option ifd else {}) \<and>
        slot_fds d = (if ibuf = None then {} else set_option ifd) \<union> set_option ofd \<union> set_option efd"
proof -
  note o = opn_claim_slot [OF K]
  have vm: "valid_fd (if ibuf = None then None else ifd)" "valid_fd (if ibuf = None then ifd else None)"
    using v by simp_all
  note drops = opn_fd_drop_opt [OF K] opn_drop_slot [OF K]
  from new show ?thesis
  proof (cases rule: drain_new_cases)
    case (fail1 e w1)
    have "opn w1 = opn w"
      using o [of j 1 "if ibuf = None then None else ifd" w] fail1(1) by simp
    then show ?thesis using fail1(2,3) v by (auto simp: drops(1))
  next
    case (fail2 s1 e w1 w2)
    have "opn w1 = opn w" "opn w2 = opn w1"
      using o [of j 1 "if ibuf = None then None else ifd" w] o [of j 2 ofd w1] fail2(1,2) by simp_all
    then show ?thesis using fail2(3,4) v vm
      by (auto simp: drops(1) drops(2) [OF claim_slot_Inr(1) [OF fail2(1)] vm(1)])
  next
    case (fail3 s1 s2 e w1 w2 w3)
    have "opn w1 = opn w" "opn w2 = opn w1" "opn w3 = opn w2"
      using o [of j 1 "if ibuf = None then None else ifd" w] o [of j 2 ofd w1] o [of j 3 efd w2]
        fail3(1-3) by simp_all
    then show ?thesis using fail3(4,5) v vm
      by (auto simp: drops(1) drops(2) [OF claim_slot_Inr(1) [OF fail3(1)] vm(1)]
          drops(2) [OF claim_slot_Inr(1) [OF fail3(2)] v(2)])
  next
    case (ok s1 s2 s3 w1 w2 w3)
    have "opn w1 = opn w" "opn w2 = opn w1" "opn w3 = opn w2"
      using o [of j 1 "if ibuf = None then None else ifd" w] o [of j 2 ofd w1] o [of j 3 efd w2]
        ok(1-3) by simp_all
    then show ?thesis
      using ok(4,5) vm claim_slot_Inr(1) [OF ok(1)] claim_slot_Inr(1) [OF ok(2)]
        claim_slot_Inr(1) [OF ok(3)]
      by (auto simp: drops(1) slot_fds_def)
  qed
qed

lemma drain_new_apart:
  assumes "drain_new K j ifd ibuf ofd efd limit early w = (Inr d, w')" and "apart ifd ofd efd"
  shows "slots_apart d"
  using assms(1)
proof (cases rule: drain_new_cases)
  case (ok s1 s2 s3 w1 w2 w3)
  note s = claim_slot_Inr(1) [OF ok(1)] claim_slot_Inr(1) [OF ok(2)] claim_slot_Inr(1) [OF ok(3)]
  from ok(4) s assms(2) show ?thesis by (auto simp: slots_apart_def apart_def)
qed simp_all

section \<open>Invariant and frame of the operations\<close>

definition wf_drain :: "drain_state \<Rightarrow> bool" where
  [wf_defs]: "wf_drain d \<longleftrightarrow> wf_vec (buf_stdout (drain_buffer d)) \<and> wf_vec (buf_stderr (drain_buffer d))
     \<and> length (elems (buf_stdout (drain_buffer d))) \<le> buf_limit (drain_buffer d)
     \<and> length (elems (buf_stderr (drain_buffer d))) \<le> buf_limit (drain_buffer d)
     \<and> (\<forall>b. wr_buf (drain_writer d) = Some b \<longrightarrow> wr_off (drain_writer d) \<le> length b)"

lemma wf_drain_new: "drain_new K j ifd ibuf ofd efd limit early w = (Inr d, w') \<Longrightarrow> wf_drain d"
  by (auto simp: drain_new_def Let_def wf_drain_def wf_vec_def buffer_new_def with_capacity_def
      writer_new_def split: prod.splits sum.splits)

lemma read_from_fd_cases:
  assumes "read_from_fd K fd out early b w = Some (r, b', w')"
  obtains dest where "read_loop K fd (buf_limit b) (if out then early else None)
      (if out then buf_stdout b else buf_stderr b) w = Some (r, dest, w')"
    "b' = (if out then b\<lparr>buf_stdout := dest\<rparr> else b\<lparr>buf_stderr := dest\<rparr>)"
  using assms by (auto simp: read_from_fd_def split: if_splits)

lemma read_loop_bounds:
  assumes "read_bounded K" and "read_loop K fd limit early dest w = Some (r, dest', w')"
    and "wf_vec dest" and "length (elems dest) \<le> limit"
  shows "wf_vec dest'" and "length (elems dest') \<le> limit"
  using read_loop_drained [OF assms(1,2)] assms(3,4) by (auto simp: drained_def)

lemma read_fd_cases:
  assumes "read_fd K out d w = Some (r, d', w')"
  obtains (empty) "(if out then stdout_slot d else stderr_slot d) = None" "r = Inr None" "d' = d"
      "w' = w"
  | (ran) s q b where "(if out then stdout_slot d else stderr_slot d) = Some s"
      "read_from_fd K (slot_fd s) out (drain_early_exit d) (drain_buffer d) w = Some (q, b, w')"
      "r = (case q of Inl e \<Rightarrow> Inl e | Inr eof \<Rightarrow> Inr (if eof then Some s else None))"
      "d' = (if q = Inr True
             then if out then d\<lparr>drain_buffer := b, stdout_slot := None\<rparr>
                  else d\<lparr>drain_buffer := b, stderr_slot := None\<rparr>
             else d\<lparr>drain_buffer := b\<rparr>)"
proof (cases "if out then stdout_slot d else stderr_slot d")
  case None
  with assms show thesis by (intro empty) (simp_all add: read_fd_def)
next
  case (Some s)
  obtain x where x: "read_from_fd K (slot_fd s) out (drain_early_exit d) (drain_buffer d) w = Some x"
    using assms Some by (auto simp: read_fd_def bind_eq_Some_conv)
  obtain q b w1 where xq: "x = (q, b, w1)" by (cases x)
  note eq = assms [symmetric, unfolded read_fd_def Some option.case x xq bind.bind_lunit prod.case Let_def option.inject]
  have "(r, d', w') =
      (case q of Inl e \<Rightarrow> Inl e | Inr eof \<Rightarrow> Inr (if eof then Some s else None),
       if q = Inr True
       then if out then d\<lparr>drain_buffer := b, stdout_slot := None\<rparr>
            else d\<lparr>drain_buffer := b, stderr_slot := None\<rparr>
       else d\<lparr>drain_buffer := b\<rparr>, w1)"
    unfolding eq by (cases q) simp_all
  then have "w' = w1" and r: "r = (case q of Inl e \<Rightarrow> Inl e | Inr eof \<Rightarrow> Inr (if eof then Some s else None))"
    and d: "d' = (if q = Inr True
             then if out then d\<lparr>drain_buffer := b, stdout_slot := None\<rparr>
                  else d\<lparr>drain_buffer := b, stderr_slot := None\<rparr>
             else d\<lparr>drain_buffer := b\<rparr>)"
    unfolding prod.inject by blast+
  from ran [OF Some x [unfolded xq, folded this(1)] r d] show thesis .
qed

lemma wf_drain_read_fd:
  assumes "read_bounded K" and "read_fd K out d w = Some (r, d', w')" and "wf_drain d"
  shows "wf_drain d'"
  using assms(2)
proof (cases rule: read_fd_cases)
  case (ran s q b)
  from ran(2) show ?thesis
  proof (rule read_from_fd_cases)
    fix dest
    assume "read_loop K (slot_fd s) (buf_limit (drain_buffer d))
        (if out then drain_early_exit d else None)
        (if out then buf_stdout (drain_buffer d) else buf_stderr (drain_buffer d)) w =
      Some (q, dest, w')"
      and "b = (if out then drain_buffer d\<lparr>buf_stdout := dest\<rparr>
                else drain_buffer d\<lparr>buf_stderr := dest\<rparr>)"
    with read_loop_bounds [OF assms(1)] ran(4) assms(3) show ?thesis
      by (auto simp: wf_drain_def split: if_splits)
  qed
qed (use assms(3) in simp)

lemma read_fd_frame:
  assumes "read_fd K out d w = Some (r, d', w')"
  shows "stdin_slot d' = stdin_slot d" and "drain_writer d' = drain_writer d"
    and "out \<Longrightarrow> stderr_slot d' = stderr_slot d" and "\<not> out \<Longrightarrow> stdout_slot d' = stdout_slot d"
  using assms by (cases rule: read_fd_cases; simp)+

lemma read_fd_slot:
  assumes "read_fd K out d w = Some (r, d', w')"
  shows "(if out then stdout_slot d' else stderr_slot d') =
    (if \<exists>s. r = Inr (Some s) then None else if out then stdout_slot d else stderr_slot d)"
  using assms by (cases rule: read_fd_cases) (auto split: sum.split)

lemma write_to_fd_cases:
  assumes "write_to_fd K fd s w = Some (r, s', w')"
  obtains (nothing) "wr_buf s = None" "r = Inr True" "s' = s" "w' = w"
  | (loop) buf fin keep off where "wr_buf s = Some buf"
      "run_loop (write_body K fd buf) (wr_off s, w) = Some (fin, keep, off, w')" "r = Inr fin"
      "s' = \<lparr>wr_buf = (if keep then Some buf else None), wr_off = off\<rparr>"
  using assms by (auto simp: write_to_fd_def bind_eq_Some_conv split: option.splits)

lemma write_stdin_cases:
  assumes "write_stdin K d w = Some (r, d', w')"
  obtains (empty) "stdin_slot d = None" "r = Inr None" "d' = d" "w' = w"
  | (ran) s q wr where "stdin_slot d = Some s"
      "write_to_fd K (slot_fd s) (drain_writer d) w = Some (q, wr, w')"
      "r = (case q of Inl e \<Rightarrow> Inl e | Inr fin \<Rightarrow> Inr (if fin then Some s else None))"
      "d' = (if q = Inr True then d\<lparr>drain_writer := wr, stdin_slot := None\<rparr>
             else d\<lparr>drain_writer := wr\<rparr>)"
proof (cases "stdin_slot d")
  case None
  with assms show thesis by (intro empty) (simp_all add: write_stdin_def)
next
  case (Some s)
  obtain x where x: "write_to_fd K (slot_fd s) (drain_writer d) w = Some x"
    using assms Some by (auto simp: write_stdin_def bind_eq_Some_conv)
  obtain q wr w1 where xq: "x = (q, wr, w1)" by (cases x)
  note eq = assms [symmetric, unfolded write_stdin_def Some option.case x xq bind.bind_lunit prod.case Let_def option.inject]
  have "(r, d', w') =
      (case q of Inl e \<Rightarrow> Inl e | Inr fin \<Rightarrow> Inr (if fin then Some s else None),
       if q = Inr True then d\<lparr>drain_writer := wr, stdin_slot := None\<rparr>
       else d\<lparr>drain_writer := wr\<rparr>, w1)"
    unfolding eq by (cases q) simp_all
  then have "w' = w1" and r: "r = (case q of Inl e \<Rightarrow> Inl e | Inr fin \<Rightarrow> Inr (if fin then Some s else None))"
    and d: "d' = (if q = Inr True then d\<lparr>drain_writer := wr, stdin_slot := None\<rparr>
             else d\<lparr>drain_writer := wr\<rparr>)"
    unfolding prod.inject by blast+
  from ran [OF Some x [unfolded xq, folded this(1)] r d] show thesis .
qed

lemma wf_drain_write_stdin:
  assumes "write_bounded K" and "write_stdin K d w = Some (r, d', w')" and "wf_drain d"
  shows "wf_drain d'"
  using assms(2)
proof (cases rule: write_stdin_cases)
  case (ran s q wr)
  from ran(2) show ?thesis
  proof (cases rule: write_to_fd_cases)
    case nothing
    with ran(4) assms(3) show ?thesis by (simp add: wf_drain_def)
  next
    case (loop buf fin keep off)
    from write_loop_sent [OF assms(1) loop(2)] loop ran(4) assms(3) show ?thesis
      by (auto simp: wf_drain_def sent_def)
  qed
qed (use assms(3) in simp)

lemma write_stdin_frame:
  assumes "write_stdin K d w = Some (r, d', w')"
  shows "stdout_slot d' = stdout_slot d" and "stderr_slot d' = stderr_slot d"
    and "drain_buffer d' = drain_buffer d"
    and "stdin_slot d' = (if \<exists>s. r = Inr (Some s) then None else stdin_slot d)"
  using assms by (cases rule: write_stdin_cases; auto split: sum.split)+

lemma take_all_slots_done: "is_done (snd (take_all_slots d))"
  by (simp add: take_all_slots_def is_done_def)

lemma take_all_slots_fds: "slot_fd ` set (fst (take_all_slots d)) = slot_fds d"
  by (auto simp: take_all_slots_def slot_fds_def split: option.splits)

section \<open>Properties\<close>

text \<open>C21: No descriptor is lost. Whatever \<open>DrainState::new\<close> returns, on failure every
  descriptor it was given is closed, and on success exactly the stdin end for which there is no
  input is closed and every other one is held in a slot.\<close>

theorem drain_new_accounts:
  assumes "closes_fds K opn" and "valid_fd ifd" and "valid_fd ofd" and "valid_fd efd"
    and "drain_new K j ifd ibuf ofd efd limit early w = (r, w')"
  shows "case r of
      Inl _ \<Rightarrow> opn w' = opn w - (set_option ifd \<union> set_option ofd \<union> set_option efd)
    | Inr d \<Rightarrow> opn w' = opn w - (if ibuf = None then set_option ifd else {})
        \<and> slot_fds d = (if ibuf = None then {} else set_option ifd) \<union> set_option ofd \<union> set_option efd
        \<and> wf_drain d"
  using drain_new_fds [OF assms] wf_drain_new [of K j ifd ibuf ofd efd limit early w _ w'] assms(5)
  by (cases r) auto

text \<open>A kernel whose world is the set of open descriptors; \<open>fcntl\<close> fails on those not in it.\<close>

definition fd_table_kernel :: "i32 set kernel" where
  "fd_table_kernel = (quiet_kernel (\<lambda>_. 9))\<lparr>k_close := \<lambda>fd w. w - {fd},
     k_fcntl := \<lambda>fd c w. (if fd \<in> w then 0 else -1, w)\<rparr>"

lemma fd_table_closes: "closes_fds fd_table_kernel id"
  by (simp add: closes_fds_def fd_table_kernel_def)

lemma drain_new_accounts_witness:
  "\<exists>e w'. drain_new fd_table_kernel 1 (Some 3) (Some [7]) (Some 4) (Some 5) 100 None {3, 4, 9}
     = (Inl e, w') \<and> w' = {9}"
proof -
  obtain e w' where h: "drain_new fd_table_kernel 1 (Some 3) (Some [7]) (Some 4) (Some 5) 100 None
      {3, 4, 9} = (Inl e, w')"
    by (simp add: drain_new_def Let_def claim_slot_def set_nonblock_def fd_table_kernel_def
        syscall_ret_def)
  from drain_new_accounts [OF fd_table_closes _ _ _ h] h show ?thesis by auto
qed

text \<open>Stream tokens. For job ids below \<open>2^60\<close> the token of a stream determines the job and
  the stream, so no two streams of any two jobs share a reactor token; from \<open>2^60\<close> on they can.\<close>

theorem stream_tokens_unique:
  assumes "i < 2 ^ 60" and "j < 2 ^ 60" and "s \<in> {1, 2, 3}" and "t \<in> {1, 2, 3}"
  shows "(stream_token i s = stream_token j t \<longleftrightarrow> i = j \<and> s = t)
    \<and> take_bit 60 (stream_token i s) = i \<and> drop_bit 60 (stream_token i s) = s
    \<and> stream_token (2 ^ 60) 2 = stream_token 0 3"
proof -
  have st: "s < 16" "t < 16" using assms(3,4) by auto
  show ?thesis
    using stream_token_inj [OF assms(1,2) st] stream_token_parts [OF assms(1) st(1)]
    by (simp add: stream_token_def)
qed

lemma stream_tokens_unique_witness:
  "stream_token 5 1 \<noteq> stream_token 6 1 \<and> drop_bit 60 (stream_token 5 3) = 3"
  using stream_tokens_unique [of 5 6 1 1] stream_tokens_unique [of 5 5 3 3] by simp

text \<open>C20: Drain operations. Reading a stream or feeding stdin keeps the captured output within the
  limit and its capacity, touches no slot but its own, and empties its own slot exactly when it
  hands the finished slot back (end of file, or input done).\<close>

theorem drain_steps:
  assumes "read_bounded K" and "write_bounded K" and "wf_drain d"
    and "read_fd K out d w = Some (r, d1, w1)" and "write_stdin K d w = Some (q, d2, w2)"
  shows "wf_drain d1 \<and> stdin_slot d1 = stdin_slot d
    \<and> (if out then stderr_slot d1 = stderr_slot d else stdout_slot d1 = stdout_slot d)
    \<and> (if out then stdout_slot d1 else stderr_slot d1) =
        (if \<exists>s. r = Inr (Some s) then None else if out then stdout_slot d else stderr_slot d)
    \<and> wf_drain d2 \<and> stdout_slot d2 = stdout_slot d \<and> stderr_slot d2 = stderr_slot d
    \<and> drain_buffer d2 = drain_buffer d
    \<and> stdin_slot d2 = (if \<exists>s. q = Inr (Some s) then None else stdin_slot d)"
  using wf_drain_read_fd [OF assms(1,4,3)] wf_drain_write_stdin [OF assms(2,5,3)]
    read_fd_frame [OF assms(4)] read_fd_slot [OF assms(4)] write_stdin_frame [OF assms(5)]
  by auto

definition demo_drain :: drain_state where
  "demo_drain = \<lparr>stdout_slot = Some \<lparr>slot_token = 2, slot_fd = 5\<rparr>, stderr_slot = None,
     stdin_slot = None, drain_buffer = buffer_new 4, drain_writer = writer_new None,
     drain_early_exit = None\<rparr>"

lemma drain_steps_witness:
  "\<exists>s d1 w1. read_fd script_kernel True demo_drain ([Inr [1, 2]], 0) = Some (Inr (Some s), d1, w1)
     \<and> stdout_slot d1 = None \<and> wf_drain d1"
proof -
  have wf: "wf_drain demo_drain"
    by (simp add: wf_drain_def wf_vec_def demo_drain_def buffer_new_def with_capacity_def
        writer_new_def)
  obtain s d1 w1 where h: "read_fd script_kernel True demo_drain ([Inr [1, 2]], 0)
      = Some (Inr (Some s), d1, w1)"
    by (simp add: read_fd_def demo_drain_def read_from_fd_def read_loop_def buffer_new_def
        with_capacity_def run_loop_eval read_body_def prepare_read_def reserve_def Let_def
        push_bytes_def fd_read_def retry_def retry_body_def tag_error_def READ_CHUNK_def)
  have h': "write_stdin script_kernel demo_drain ([Inr [1, 2]], 0)
      = Some (Inr None, demo_drain, ([Inr [1, 2]], 0))"
    by (simp add: write_stdin_def demo_drain_def)
  from drain_steps [OF _ _ wf h h'] h show ?thesis by auto
qed

end
