(* ===== verification/SysLayer.thy ===== *)
theory SysLayer
  imports Prelude
begin

text \<open>
  \<open>src/low_level/sys/mod.rs\<close>: the execution context of a child (its argument and environment
  vectors as C strings and as null-terminated pointer arrays of fixed capacity), its process
  group and the cancellation policy.
\<close>

section \<open>Policies and groups\<close>

datatype sys_cancel_policy = SysCancelNone | SysCancelGraceful | SysCancelKill

record process_group =
  pg_leader :: "i32 option"
  pg_isolated :: bool

definition process_group_default :: process_group where
  "process_group_default = \<lparr>pg_leader = None, pg_isolated = False\<rparr>"

section \<open>Execution context\<close>

text \<open>\<open>CString::new(s).ok()\<close>: a string with an interior NUL is not a C string.\<close>

definition c_string :: "string \<Rightarrow> string option" where
  "c_string s = (if CHR 0x00 \<in> set s then None else Some s)"

record exec_context =
  ctx_argv :: "string list"
  ctx_envp :: "string list option"
  ctx_cwd :: "string option"

definition bin_false :: string where
  "bin_false = ''/bin/false''"

definition exec_context_new ::
    "string list \<Rightarrow> string list option \<Rightarrow> string option \<Rightarrow> exec_context" where
  "exec_context_new argv env cwd =
     (let c_argv = List.map_filter c_string argv;
          c_argv = (if c_argv = [] then c_argv @ [bin_false] else c_argv)
      in \<lparr>ctx_argv = c_argv, ctx_envp = map_option (List.map_filter c_string) env,
          ctx_cwd = Option.bind cwd c_string\<rparr>)"

text \<open>
  The pointer arrays: \<open>ArrayVec<_, 64>\<close> refuses a push beyond its capacity; a full array gives
  up its last pointer for the terminator. \<open>None\<close> is the null pointer.
\<close>

definition ARRAY_CAP :: nat where "ARRAY_CAP = 64"

fun push_ptrs :: "string option list \<Rightarrow> string list \<Rightarrow> string option list" where
  "push_ptrs ptrs [] = ptrs"
| "push_ptrs ptrs (s # ss) =
     (if length ptrs < ARRAY_CAP then push_ptrs (ptrs @ [Some s]) ss else ptrs)"

definition null_terminated :: "string list \<Rightarrow> string option list" where
  "null_terminated v =
     (let ptrs = push_ptrs [] v;
          ptrs = (if length ptrs = ARRAY_CAP then butlast ptrs else ptrs)
      in if length ptrs < ARRAY_CAP then ptrs @ [None] else ptrs)"

definition get_argv_ptrs :: "exec_context \<Rightarrow> string option list" where
  "get_argv_ptrs c = null_terminated (ctx_argv c)"

definition get_envp_ptrs :: "exec_context \<Rightarrow> string option list option" where
  "get_envp_ptrs c = map_option null_terminated (ctx_envp c)"

text \<open>What a C callee reads from such an array: everything before the first null pointer.\<close>

definition c_array :: "string option list \<Rightarrow> string list" where
  "c_array ptrs = map the (takeWhile (\<lambda>p. p \<noteq> None) ptrs)"

section \<open>Lemmas\<close>

lemma push_ptrs_eq: "length ptrs \<le> ARRAY_CAP \<Longrightarrow>
    push_ptrs ptrs v = ptrs @ map Some (take (ARRAY_CAP - length ptrs) v)"
proof (induction v arbitrary: ptrs)
  case (Cons s ss)
  show ?case
  proof (cases "length ptrs < ARRAY_CAP")
    case True
    then obtain n where "ARRAY_CAP - length ptrs = Suc n" by (metis Suc_diff_Suc)
    moreover from this have "ARRAY_CAP - Suc (length ptrs) = n" by simp
    ultimately show ?thesis using Cons.IH [of "ptrs @ [Some s]"] True by simp
  qed (use Cons.prems in simp)
qed simp

lemma null_terminated_eq: "null_terminated v = map Some (take 63 v) @ [None]"
proof -
  have p: "push_ptrs [] v = map Some (take 64 v)" by (simp add: push_ptrs_eq ARRAY_CAP_def)
  have b: "butlast (take 64 v) = take 63 v" if "64 \<le> length v"
    using that by (simp add: butlast_take)
  show ?thesis
  proof (cases "64 \<le> length v")
    case True
    then show ?thesis using b by (simp add: null_terminated_def p ARRAY_CAP_def map_butlast [symmetric])
  next
    case False
    then show ?thesis by (simp add: null_terminated_def p ARRAY_CAP_def)
  qed
qed

lemma c_array_null_terminated: "c_array (null_terminated v) = take 63 v"
proof -
  have "takeWhile (\<lambda>p. p \<noteq> None) (map Some xs @ [None]) = map Some xs" for xs :: "string list"
    by (induction xs) simp_all
  then show ?thesis by (simp add: c_array_def null_terminated_eq comp_def)
qed

lemma exec_context_argv_ne [simp]: "ctx_argv (exec_context_new argv env cwd) \<noteq> []"
  by (simp add: exec_context_new_def Let_def)

section \<open>Properties\<close>

text \<open>C31: The vectors handed to \<open>exec\<close>. Whatever the request contains, the argument array is
  null-terminated within its 64 pointers, the callee sees at least one argument, every argument
  it sees is free of NUL and comes from the request in order (at most the first 63 of those free
  of NUL), and a request without a usable argument runs \<open>/bin/false\<close>.\<close>

theorem argv_safe:
  shows "length (get_argv_ptrs (exec_context_new argv env cwd)) \<le> 64
    \<and> last (get_argv_ptrs (exec_context_new argv env cwd)) = None
    \<and> c_array (get_argv_ptrs (exec_context_new argv env cwd)) =
        (let ok = filter (\<lambda>s. CHR 0x00 \<notin> set s) argv
         in if ok = [] then [''/bin/false''] else take 63 ok)"
proof -
  have f: "List.map_filter c_string argv = filter (\<lambda>s. CHR 0x00 \<notin> set s) argv"
    by (induction argv) (simp_all add: List.map_filter_simps c_string_def)
  have l: "length (null_terminated v) \<le> 64" "last (null_terminated v) = None" for v
    by (simp_all add: null_terminated_eq)
  show ?thesis
    by (simp add: get_argv_ptrs_def l c_array_null_terminated exec_context_new_def Let_def f
        bin_false_def)
qed

end
