(* ===== verification/Process.thy ===== *)
theory Process
  imports Syscalls
begin

text \<open>
  The \<open>Process\<close> handle of \<open>src/low_level/spawn/mod.rs\<close>: decoding a wait status, the two
  \<open>waitpid\<close> loops and the two kill calls. The macros of the wait status are those of the Linux
  ABI, as the \<open>libc\<close> crate defines them.
\<close>

datatype exit_status = Exited i32 | Signaled i32

section \<open>Wait status\<close>

definition WIFEXITED :: "i32 \<Rightarrow> bool" where
  "WIFEXITED status \<longleftrightarrow> status AND 127 = 0"

definition WEXITSTATUS :: "i32 \<Rightarrow> i32" where
  "WEXITSTATUS status = drop_bit 8 status AND 255"

text \<open>\<open>((status & 0x7f) + 1) as i8 >= 2\<close>\<close>

definition as_i8 :: "int \<Rightarrow> int" where
  "as_i8 x = (x + 128) mod 256 - 128"

definition WIFSIGNALED :: "i32 \<Rightarrow> bool" where
  "WIFSIGNALED status \<longleftrightarrow> as_i8 ((status AND 127) + 1) \<ge> 2"

definition WTERMSIG :: "i32 \<Rightarrow> i32" where
  "WTERMSIG status = status AND 127"

definition decode_status :: "i32 \<Rightarrow> exit_status" where
  "decode_status status =
     (if WIFEXITED status then Exited (WEXITSTATUS status)
      else if WIFSIGNALED status then Signaled (WTERMSIG status)
      else Exited (-1))"

section \<open>Waiting\<close>

record process =
  proc_pid :: i32

definition wait_step_body :: "'w kernel \<Rightarrow> i32 \<Rightarrow> 'w \<Rightarrow>
    (((sys_error + exit_status option) \<times> 'w) + 'w) option" where
  "wait_step_body K pid w =
     Some (case k_waitpid K pid w of
        (Some (r, status), w) \<Rightarrow>
          if r = 0 then Inl (Inr None, w) else Inl (Inr (Some (decode_status status)), w)
      | (None, w) \<Rightarrow>
          if k_errno K w = EINTR then Inr w
          else if k_errno K w = ECHILD then Inl (Inr (Some (Exited 0)), w)
          else Inl (Inl (Syscall (k_errno K w) ''waitpid_step''), w))"

definition wait_step :: "'w kernel \<Rightarrow> process \<Rightarrow> 'w \<Rightarrow>
    ((sys_error + exit_status option) \<times> 'w) option" where
  "wait_step K p w = run_loop (wait_step_body K (proc_pid p)) w"

definition wait_blocking_body :: "'w kernel \<Rightarrow> i32 \<Rightarrow> 'w \<Rightarrow>
    (((sys_error + exit_status) \<times> 'w) + 'w) option" where
  "wait_blocking_body K pid w =
     map_option (\<lambda>x. case x of
        (Some (r, status), w) \<Rightarrow> Inl (Inr (decode_status status), w)
      | (None, w) \<Rightarrow>
          if k_errno K w = EINTR then Inr w
          else if k_errno K w = ECHILD then Inl (Inr (Exited 0), w)
          else Inl (Inl (Syscall (k_errno K w) ''waitpid_blocking''), w)) (k_wait_exit K pid w)"

text \<open>\<open>None\<close>: the child never exits, or the call is interrupted for ever.\<close>

definition wait_blocking :: "'w kernel \<Rightarrow> process \<Rightarrow> 'w \<Rightarrow>
    ((sys_error + exit_status) \<times> 'w) option" where
  "wait_blocking K p w = run_loop (wait_blocking_body K (proc_pid p)) w"

section \<open>Killing\<close>

definition kill_target :: "'w kernel \<Rightarrow> i32 \<Rightarrow> i32 \<Rightarrow> string \<Rightarrow> 'w \<Rightarrow> (sys_error + unit) \<times> 'w" where
  "kill_target K target sig op w =
     (let (r, w) = k_kill K target sig w in
      if r < 0 then
        if k_errno K w = ESRCH then (Inr (), w) else (Inl (Syscall (k_errno K w) op), w)
      else (Inr (), w))"

definition process_kill :: "'w kernel \<Rightarrow> process \<Rightarrow> i32 \<Rightarrow> 'w \<Rightarrow> (sys_error + unit) \<times> 'w" where
  "process_kill K p sig w = kill_target K (proc_pid p) sig ''kill'' w"

definition kill_pgroup :: "'w kernel \<Rightarrow> process \<Rightarrow> i32 \<Rightarrow> 'w \<Rightarrow> (sys_error + unit) \<times> 'w" where
  "kill_pgroup K p sig w = kill_target K (- proc_pid p) sig ''kill_pgroup'' w"

section \<open>Lemmas\<close>

text \<open>The low seven bits and the eight above them of a status word.\<close>

lemma status_low: "status AND 127 = status mod (128 :: int)"
  using take_bit_eq_mask [of 7 status] by (simp add: take_bit_eq_mod mask_eq_exp_minus_1)

lemma status_high: "drop_bit 8 status AND 255 = (status div 256) mod (256 :: int)"
  using take_bit_eq_mask [of 8 "drop_bit 8 status"]
  by (simp add: take_bit_eq_mod drop_bit_eq_div mask_eq_exp_minus_1)

lemma signaled_low: "0 \<le> x \<Longrightarrow> x < 128 \<Longrightarrow> as_i8 (x + 1) \<ge> 2 \<longleftrightarrow> 1 \<le> x \<and> x \<le> 126"
  by (cases "x = 127") (simp_all add: as_i8_def mod_pos_pos_trivial)

lemma decode_status_eq:
  "decode_status s = (if s mod 128 = 0 then Exited (s div 256 mod 256)
     else if s mod 128 = 127 then Exited (-1) else Signaled (s mod 128))"
proof -
  have "0 \<le> s mod 128" "s mod 128 < 128" by simp_all
  then show ?thesis
    using signaled_low [of "s mod 128"]
    by (auto simp: decode_status_def WIFEXITED_def WEXITSTATUS_def WIFSIGNALED_def WTERMSIG_def
        status_low status_high)
qed

text \<open>What a wait returns is the outcome of a last call of \<open>waitpid\<close>.\<close>

definition waitpid_call :: "'w kernel \<Rightarrow> i32 \<Rightarrow> bool \<Rightarrow> 'w \<Rightarrow> ((i32 \<times> i32) option \<times> 'w) option" where
  "waitpid_call K pid nohang w = (if nohang then Some (k_waitpid K pid w) else k_wait_exit K pid w)"

definition waited :: "'w kernel \<Rightarrow> i32 \<Rightarrow> bool \<Rightarrow> (sys_error + exit_status option) \<times> 'w \<Rightarrow> bool" where
  "waited K pid nohang x \<longleftrightarrow> (\<exists>v ret. waitpid_call K pid nohang v = Some (ret, snd x) \<and>
     (case ret of
        Some (r, s) \<Rightarrow> fst x = Inr (if nohang \<and> r = 0 then None else Some (decode_status s))
      | None \<Rightarrow> if k_errno K (snd x) = ECHILD then fst x = Inr (Some (Exited 0))
          else k_errno K (snd x) \<noteq> EINTR \<and>
            (\<exists>op. fst x = Inl (Syscall (k_errno K (snd x)) op))))"

lemma wait_step_waited:
  assumes "wait_step K p w = Some x"
  shows "waited K (proc_pid p) True x"
  using assms unfolding wait_step_def
proof (induction rule: run_loop_induct)
  case (leave w x)
  then show ?case
    unfolding waited_def
    by (intro exI [of _ w] exI [of _ "fst (k_waitpid K (proc_pid p) w)"])
      (auto simp: waitpid_call_def wait_step_body_def ECHILD_def EINTR_def split: prod.splits option.splits if_splits)
qed

lemma wait_blocking_waited_pair:
  assumes "wait_blocking K p w = Some x"
  shows "waited K (proc_pid p) False (map_sum id Some (fst x), snd x)"
  using assms unfolding wait_blocking_def
proof (induction rule: run_loop_induct)
  case (leave w x)
  then show ?case
    unfolding waited_def
    by (intro exI [of _ w] exI [of _ "fst (the (k_wait_exit K (proc_pid p) w))"])
      (auto simp: waitpid_call_def wait_blocking_body_def ECHILD_def EINTR_def
        split: prod.splits option.splits if_splits)
qed

lemma wait_blocking_waited:
  "wait_blocking K p w = Some (r, w') \<Longrightarrow> waited K (proc_pid p) False (map_sum id Some r, w')"
  using wait_blocking_waited_pair by fastforce

text \<open>
  Polling ends when \<open>waitpid\<close> is not interrupted for ever; the blocking wait also needs the child
  to exit.
\<close>

definition waits_end :: "'w kernel \<Rightarrow> i32 \<Rightarrow> bool" where
  "waits_end K pid \<longleftrightarrow> wfP (\<lambda>w' w. interrupted K (k_waitpid K pid) w w')"

definition child_exits :: "'w kernel \<Rightarrow> i32 \<Rightarrow> bool" where
  "child_exits K pid \<longleftrightarrow> (\<forall>w. k_wait_exit K pid w \<noteq> None) \<and>
     wfP (\<lambda>w' w. k_wait_exit K pid w = Some (None, w') \<and> k_errno K w' = EINTR)"

lemma wait_step_returns:
  assumes "waits_end K (proc_pid p)"
  shows "\<exists>x. wait_step K p w = Some x"
  unfolding wait_step_def
proof (rule run_loop_returns [where I = "\<lambda>_. True"])
  have "round (wait_step_body K (proc_pid p)) (\<lambda>_. True) \<le>
      (\<lambda>w' w. interrupted K (k_waitpid K (proc_pid p)) w w')"
    by (auto simp: round_def interrupted_def wait_step_body_def
        split: prod.splits option.splits if_splits)
  then show "wfP (round (wait_step_body K (proc_pid p)) (\<lambda>_. True))"
    using assms unfolding waits_end_def by (blast intro: wfp_subset)
qed (simp_all add: wait_step_body_def)

lemma wait_blocking_returns:
  assumes "child_exits K (proc_pid p)"
  shows "\<exists>x. wait_blocking K p w = Some x"
  unfolding wait_blocking_def
proof (rule run_loop_returns [where I = "\<lambda>_. True"])
  have "round (wait_blocking_body K (proc_pid p)) (\<lambda>_. True) \<le>
      (\<lambda>w' w. k_wait_exit K (proc_pid p) w = Some (None, w') \<and> k_errno K w' = EINTR)"
    by (auto simp: round_def wait_blocking_body_def
        split: prod.splits option.splits if_splits) (metis not_None_eq surj_pair)
  then show "wfP (round (wait_blocking_body K (proc_pid p)) (\<lambda>_. True))"
    using assms unfolding child_exits_def by (blast intro: wfp_subset)
qed (use assms in \<open>simp_all add: wait_blocking_body_def child_exits_def\<close>)

lemma wait_blocking_forever: "(\<And>w. k_wait_exit K (proc_pid p) w = None) \<Longrightarrow> wait_blocking K p w = None"
  by (simp add: wait_blocking_def run_loop.simps [of _ w] wait_blocking_body_def)

text \<open>Waiting changes nothing that \<open>waitpid\<close> does not change.\<close>

lemma wait_step_keep:
  assumes "\<And>pid w. f (snd (k_waitpid K pid w)) = f w" and "wait_step K p w = Some x"
  shows "f (snd x) = f w"
  using assms(2) unfolding wait_step_def
proof (induction rule: run_loop_induct)
  case (leave w x)
  with assms(1) [of "proc_pid p" w] show ?case
    by (auto simp: wait_step_body_def Let_def split: prod.splits option.splits if_splits)
next
  case (again w w' x)
  with assms(1) [of "proc_pid p" w] show ?case
    by (auto simp: wait_step_body_def Let_def split: prod.splits option.splits if_splits)
qed

section \<open>Properties\<close>

text \<open>C32: Wait statuses. The status of a child that exited with a code below 256 is decoded to
  that code, that of a child killed by signal 1 to 126, with or without a core dump (bit 7), to
  that signal, and a stop status (low byte 127) to -1; the three cases cover every status.\<close>

theorem wait_status_decoded:
  shows "(0 \<le> c \<and> c < 256 \<longrightarrow> decode_status (c * 256) = Exited c)
    \<and> (1 \<le> s \<and> s \<le> 126 \<longrightarrow> decode_status s = Signaled s \<and> decode_status (s + 128) = Signaled s)
    \<and> decode_status (k * 256 + 127) = Exited (-1)
    \<and> (\<exists>x. decode_status st = Exited x \<and> -1 \<le> x \<and> x < 256 \<or>
         decode_status st = Signaled x \<and> 1 \<le> x \<and> x \<le> 126)"
proof (intro conjI impI)
  have "(k * 256 + 127) mod 128 = (127 + 128 * (2 * k)) mod 128" by (simp add: algebra_simps)
  also have "\<dots> = 127" by (simp only: mod_mult_self2) simp
  finally show "decode_status (k * 256 + 127) = Exited (-1)" by (simp add: decode_status_eq)
  assume "0 \<le> c \<and> c < 256"
  moreover have "c * 256 mod 128 = (0 :: int)"
    using mod_mult_self1_is_0 [of 128 "2 * c"] by (simp add: mult.commute)
  ultimately show "decode_status (c * 256) = Exited c" by (simp add: decode_status_eq)
next
  assume s: "1 \<le> s \<and> s \<le> 126"
  then show "decode_status s = Signaled s" by (simp add: decode_status_eq)
  from s show "decode_status (s + 128) = Signaled s" by (simp add: decode_status_eq)
next
  have "0 \<le> st mod 128" "st mod 128 < 128" "0 \<le> st div 256 mod 256" "st div 256 mod 256 < 256"
    by simp_all
  then show "\<exists>x. decode_status st = Exited x \<and> -1 \<le> x \<and> x < 256 \<or>
         decode_status st = Signaled x \<and> 1 \<le> x \<and> x \<le> 126"
    by (auto simp: decode_status_eq)
qed

lemma wait_status_decoded_witness:
  "decode_status 768 = Exited 3 \<and> decode_status 137 = Signaled 9"
  using wait_status_decoded [of 3 9] by simp

text \<open>Waiting. If \<open>waitpid\<close> is not interrupted for ever and the child exits, both waits return; what they return
  is the outcome of the last \<open>waitpid\<close>: the decoded status, "still running" (polling only), exit
  code 0 when the child is unknown to the kernel, or the error.\<close>

theorem wait_returns_outcome:
  assumes "waits_end K (proc_pid p)" and "child_exits K (proc_pid p)"
  shows "(\<exists>r w'. wait_step K p w = Some (r, w') \<and> waited K (proc_pid p) True (r, w'))
    \<and> (\<exists>r w'. wait_blocking K p w = Some (r, w') \<and>
         waited K (proc_pid p) False (map_sum id Some r, w'))"
  using wait_step_returns [OF assms(1), of w] wait_blocking_returns [OF assms(2), of w]
    wait_step_waited [of K p w] wait_blocking_waited [of K p w]
  by fastforce

text \<open>A child table as a kernel: the world lists what successive \<open>waitpid\<close> calls return.\<close>

fun script_wait :: "(i32 + i32 \<times> i32) list \<times> i32 \<Rightarrow> (i32 \<times> i32) option \<times> (i32 + i32 \<times> i32) list \<times> i32" where
  "script_wait ([], err) = (None, [], ECHILD)"
| "script_wait (Inl c # ws, err) = (None, ws, c)"
| "script_wait (Inr rs # ws, err) = (Some rs, ws, err)"

definition wait_kernel :: "((i32 + i32 \<times> i32) list \<times> i32) kernel" where
  "wait_kernel = (quiet_kernel snd)\<lparr>k_waitpid := \<lambda>pid. script_wait, k_wait_exit := \<lambda>pid w. Some (script_wait w),
     k_kill := \<lambda>pid sig w. (0, w)\<rparr>"

lemma wait_kernel_sel [simp]:
  "k_errno wait_kernel = snd" "k_waitpid wait_kernel pid = script_wait"
  "k_wait_exit wait_kernel pid w = Some (script_wait w)"
  "k_kill wait_kernel pid sig w = (0, w)"
  by (simp_all add: wait_kernel_def quiet_kernel_def)

lemma wait_kernel_ends: "waits_end wait_kernel pid" "child_exits wait_kernel pid"
proof -
  have less: "length (fst w') < length (fst w)" if "script_wait w = (None, w')" "snd w' = EINTR" for w w'
    using that by (cases w rule: script_wait.cases) (auto simp: abi_defs)
  show "waits_end wait_kernel pid"
    unfolding waits_end_def
    by (rule wfp_if_convertible_to_nat [where f = "\<lambda>w. length (fst w)"]) (simp add: interrupted_def less)
  have "wfP (\<lambda>w' w. k_wait_exit wait_kernel pid w = Some (None, w') \<and> k_errno wait_kernel w' = EINTR)"
    by (rule wfp_if_convertible_to_nat [where f = "\<lambda>w. length (fst w)"]) (simp add: less)
  then show "child_exits wait_kernel pid" by (simp add: child_exits_def)
qed

lemma wait_returns_outcome_witness:
  "\<exists>r w'. wait_step wait_kernel \<lparr>proc_pid = 7\<rparr> ([Inl 4, Inr (7, 768)], 0) = Some (r, w')"
  using wait_returns_outcome [OF wait_kernel_ends, of "\<lparr>proc_pid = 7\<rparr>" "([Inl 4, Inr (7, 768)], 0)"]
  by auto

end
