(* ===== verification/Spawn.thy ===== *)
theory Spawn
  imports Drain SysLayer Process Decimal
begin

text \<open>
  Process creation of \<open>src/low_level/spawn/mod.rs\<close>: the pipes between parent and child, the choice
  between \<open>posix_spawn\<close> and \<open>fork\<close>, what the child does to its descriptors in either case, and the
  parent's ends wrapped in a drain state.
\<close>

section \<open>Options and back ends\<close>

datatype spawn_backend = BackendAuto | BackendPosixSpawn | BackendFork

datatype backend = PosixSpawn | Fork

record spawn_options =
  opt_ctx :: exec_context
  opt_stdin :: "bytes option"
  opt_capture_stdout :: bool
  opt_capture_stderr :: bool
  opt_wait :: bool
  opt_pgroup :: process_group
  opt_max_output :: usize
  opt_timeout_ms :: "u32 option"
  opt_kill_grace_ms :: u32
  opt_cancel :: sys_cancel_policy
  opt_backend :: spawn_backend
  opt_early_exit :: "(bytes \<Rightarrow> bool) option"

definition select_backend :: "'w kernel \<Rightarrow> backend" where
  "select_backend K =
     (case k_sdk_property K of
        None \<Rightarrow> PosixSpawn
      | Some s \<Rightarrow> (case parse_u32 s of
          None \<Rightarrow> PosixSpawn
        | Some api \<Rightarrow> if api < 32 then Fork else PosixSpawn))"

definition force_fork :: "spawn_options \<Rightarrow> bool" where
  "force_fork opts \<longleftrightarrow> pg_isolated (opt_pgroup opts) \<or> ctx_cwd (opt_ctx opts) \<noteq> None"

definition resolve_backend :: "'w kernel \<Rightarrow> spawn_options \<Rightarrow> backend" where
  "resolve_backend K opts =
     (if force_fork opts then Fork
      else case opt_backend opts of
        BackendAuto \<Rightarrow> select_backend K
      | BackendPosixSpawn \<Rightarrow> PosixSpawn
      | BackendFork \<Rightarrow> Fork)"

section \<open>Pipes\<close>

text \<open>Each pipe is present as both ends or not at all: (read end, write end).\<close>

record pipes =
  stdin_r :: "i32 option"
  stdin_w :: "i32 option"
  stdout_r :: "i32 option"
  stdout_w :: "i32 option"
  stderr_r :: "i32 option"
  stderr_w :: "i32 option"

definition make_pipe :: "'w kernel \<Rightarrow> 'w \<Rightarrow> (sys_error + i32 \<times> i32) \<times> 'w" where
  "make_pipe K w =
     (case k_pipe2 K w of
        (None, w) \<Rightarrow> (Inl (Syscall (k_errno K w) ''pipe2''), w)
      | (Some (a, b), w) \<Rightarrow>
          (case fd_new K a ''pipe2'' w of
             Inl e \<Rightarrow> (Inl e, w)
           | Inr r \<Rightarrow>
               (case fd_new K b ''pipe2'' w of
                  Inl e \<Rightarrow> (Inl e, fd_drop K r w)
                | Inr x \<Rightarrow> (Inr (r, x), w))))"

definition maybe_pipe :: "'w kernel \<Rightarrow> bool \<Rightarrow> 'w \<Rightarrow> (sys_error + i32 option \<times> i32 option) \<times> 'w" where
  "maybe_pipe K wanted w =
     (if wanted then
        (case make_pipe K w of
           (Inl e, w) \<Rightarrow> (Inl e, w)
         | (Inr (r, x), w) \<Rightarrow> (Inr (Some r, Some x), w))
      else (Inr (None, None), w))"

definition drop_pair :: "'w kernel \<Rightarrow> i32 option \<times> i32 option \<Rightarrow> 'w \<Rightarrow> 'w" where
  "drop_pair K p w = fd_drop_opt K (fst p) (fd_drop_opt K (snd p) w)"

definition pipes_new :: "'w kernel \<Rightarrow> bytes option \<Rightarrow> bool \<Rightarrow> bool \<Rightarrow> 'w \<Rightarrow>
    (sys_error + pipes) \<times> 'w" where
  "pipes_new K in_buf out err w =
     (case maybe_pipe K (in_buf \<noteq> None) w of
        (Inl e, w) \<Rightarrow> (Inl e, w)
      | (Inr p0, w) \<Rightarrow>
          (case maybe_pipe K out w of
             (Inl e, w) \<Rightarrow> (Inl e, drop_pair K p0 w)
           | (Inr p1, w) \<Rightarrow>
               (case maybe_pipe K err w of
                  (Inl e, w) \<Rightarrow> (Inl e, drop_pair K p0 (drop_pair K p1 w))
                | (Inr p2, w) \<Rightarrow>
                    (Inr \<lparr>stdin_r = fst p0, stdin_w = snd p0, stdout_r = fst p1,
                       stdout_w = snd p1, stderr_r = fst p2, stderr_w = snd p2\<rparr>, w))))"

definition close_all :: "'w kernel \<Rightarrow> pipes \<Rightarrow> 'w \<Rightarrow> 'w" where
  "close_all K p w =
     fold (fd_drop_opt K) [stdin_r p, stdin_w p, stdout_r p, stdout_w p, stderr_r p, stderr_w p] w"

section \<open>Closing inherited descriptors\<close>

text \<open>The descriptors above 2 named in \<open>/proc/self/fd\<close>, in directory order.\<close>

definition listed_fds :: "i32 list \<Rightarrow> string list \<Rightarrow> i32 list" where
  "listed_fds skip names = filter (\<lambda>fd. fd > 2 \<and> fd \<notin> set skip) (List.map_filter parse_i32 names)"

text \<open>
  \<open>close_range_fast\<close> on Linux: the \<open>close_range\<close> system call, or the descriptors listed in
  \<open>/proc/self/fd\<close> one by one.
\<close>

definition close_listed :: "'w kernel \<Rightarrow> i32 \<Rightarrow> 'w \<Rightarrow> 'w" where
  "close_listed K skip_fd w =
     (let (dir_fd, w) = k_open_proc_fd K w in
      if dir_fd \<ge> 0 then
        (case k_read_dir K dir_fd w of
           (None, w) \<Rightarrow> k_close K dir_fd w
         | (Some names, w) \<Rightarrow> k_close K dir_fd (fold (k_close K) (listed_fds [skip_fd, dir_fd] names) w))
      else w)"

definition close_range_fast :: "'w kernel \<Rightarrow> i32 option \<Rightarrow> 'w \<Rightarrow> 'w" where
  "close_range_fast K keep w =
     (case keep of
        Some fd \<Rightarrow>
          (let (r1, w) = k_close_range K 3 (word_of_int (max (fd - 1) 2)) w;
               (r2, w) = k_close_range K (word_of_int (fd + 1)) (- 1) w
           in if r1 = 0 \<and> r2 = 0 then w else close_listed K fd w)
      | None \<Rightarrow>
          (let (r, w) = k_close_range K 3 (- 1) w
           in if r = 0 then w else close_listed K (-1) w))"

section \<open>The posix_spawn back end\<close>

definition dup_and_close :: "i32 \<Rightarrow> i32 \<Rightarrow> i32 \<Rightarrow> string \<Rightarrow> string \<Rightarrow> string \<Rightarrow>
    (file_action \<times> string) list" where
  "dup_and_close src target other a b c =
     [(AddDup2 src target, a), (AddClose src, b), (AddClose other, c)]"

definition stdio_actions :: "pipes \<Rightarrow> (file_action \<times> string) list" where
  "stdio_actions p =
     (case (stdin_r p, stdin_w p) of (Some r, Some x) \<Rightarrow>
        dup_and_close r 0 x ''dup2 stdin'' ''close stdin pipe'' ''close stdin write pipe'' | _ \<Rightarrow> []) @
     (case (stdout_r p, stdout_w p) of (Some r, Some x) \<Rightarrow>
        dup_and_close x 1 r ''dup2 stdout'' ''close stdout pipe'' ''close stdout read pipe'' | _ \<Rightarrow> []) @
     (case (stderr_r p, stderr_w p) of (Some r, Some x) \<Rightarrow>
        dup_and_close x 2 r ''dup2 stderr'' ''close stderr pipe'' ''close stderr read pipe'' | _ \<Rightarrow> [])"

text \<open>Checked calls one after the other; the first error stops.\<close>

fun call_checked :: "('x \<Rightarrow> 'w \<Rightarrow> i32 \<times> 'w) \<Rightarrow> ('x \<times> string) list \<Rightarrow> 'w \<Rightarrow>
    (sys_error + unit) \<times> 'w" where
  "call_checked call [] w = (Inr (), w)"
| "call_checked call ((x, op) # xs) w =
     (let (r, w) = call x w in
      case posix_ret r op of Inl e \<Rightarrow> (Inl e, w) | Inr _ \<Rightarrow> call_checked call xs w)"

text \<open>
  The closes of inherited descriptors are added without a check; those that were added are the
  ones whose call succeeded.
\<close>

fun call_all :: "('x \<Rightarrow> 'w \<Rightarrow> i32 \<times> 'w) \<Rightarrow> 'x list \<Rightarrow> 'w \<Rightarrow> 'x list \<times> 'w" where
  "call_all call [] w = ([], w)"
| "call_all call (x # xs) w =
     (let (r, w) = call x w; (ys, w) = call_all call xs w
      in (if r = 0 then x # ys else ys, w))"

definition inherited_closes :: "'w kernel \<Rightarrow> 'w \<Rightarrow> file_action list \<times> 'w" where
  "inherited_closes K w =
     (let (dir_fd, w) = k_open_proc_fd K w in
      if dir_fd \<ge> 0 then
        (case k_read_dir K dir_fd w of
           (None, w) \<Rightarrow> ([], k_close K dir_fd w)
         | (Some names, w) \<Rightarrow>
             (let (cls, w) = call_all (k_file_action K)
                    (map AddClose (listed_fds [dir_fd] names)) w
              in (cls, k_close K dir_fd w)))
      else ([], w))"

definition POSIX_SPAWN_SETPGROUP :: int where "POSIX_SPAWN_SETPGROUP = 2"
definition POSIX_SPAWN_SETSIGDEF :: int where "POSIX_SPAWN_SETSIGDEF = 4"
definition POSIX_SPAWN_SETSIGMASK :: int where "POSIX_SPAWN_SETSIGMASK = 8"

definition spawn_attrs :: "process_group \<Rightarrow> (spawn_attr \<times> string) list" where
  "spawn_attrs pg =
     (case pg_leader pg of None \<Rightarrow> [] | Some l \<Rightarrow> [(SetPgroup l, ''setpgroup'')]) @
     [(SetFlags ((if pg_leader pg = None then 0 else POSIX_SPAWN_SETPGROUP)
         OR (POSIX_SPAWN_SETSIGMASK OR POSIX_SPAWN_SETSIGDEF)), ''setflags''),
      (SetSigmask [], ''setsigmask''), (SetSigdefault [SIGPIPE], ''setsigdefault'')]"

text \<open>The parent's side after either back end has created the child.\<close>

definition parent_drain :: "'w kernel \<Rightarrow> u64 \<Rightarrow> spawn_options \<Rightarrow> pipes \<Rightarrow> 'w \<Rightarrow>
    (sys_error + drain_state) \<times> 'w" where
  "parent_drain K job_id opts p w =
     (let w = fd_drop_opt K (stdin_r p) w; w = fd_drop_opt K (stdout_w p) w;
          w = fd_drop_opt K (stderr_w p) w;
          w = (if opt_stdin opts = None then fd_drop_opt K (stdin_w p) w else w);
          ifd = (if opt_stdin opts = None then None else stdin_w p)
      in drain_new K job_id ifd (opt_stdin opts) (stdout_r p) (stderr_r p) (opt_max_output opts)
           (opt_early_exit opts) w)"

definition spawn_posix_internal :: "'w kernel \<Rightarrow> u64 \<Rightarrow> spawn_options \<Rightarrow> 'w \<Rightarrow>
    (sys_error + i32 \<times> drain_state) \<times> 'w" where
  "spawn_posix_internal K job_id opts w =
     (case pipes_new K (opt_stdin opts) (opt_capture_stdout opts) (opt_capture_stderr opts) w of
        (Inl e, w) \<Rightarrow> (Inl e, w)
      | (Inr p, w) \<Rightarrow>
          (let exe = hd (ctx_argv (opt_ctx opts)); argv = get_argv_ptrs (opt_ctx opts);
               envp = get_envp_ptrs (opt_ctx opts);
               (r, w) = k_file_actions_init K w
           in case posix_ret r ''file_actions_init'' of
             Inl e \<Rightarrow> (Inl e, close_all K p w)
           | Inr _ \<Rightarrow>
          (case call_checked (k_file_action K) (stdio_actions p) w of
             (Inl e, w) \<Rightarrow> (Inl e, close_all K p w)
           | (Inr _, w) \<Rightarrow>
          (let (cls, w) = inherited_closes K w; (r, w) = k_attr_init K w
           in case posix_ret r ''attr_init'' of
             Inl e \<Rightarrow> (Inl e, close_all K p w)
           | Inr _ \<Rightarrow>
          (case call_checked (k_attr K) (spawn_attrs (opt_pgroup opts)) w of
             (Inl e, w) \<Rightarrow> (Inl e, close_all K p w)
           | (Inr _, w) \<Rightarrow>
          (let (r, pid, w) = k_posix_spawn K exe (map fst (stdio_actions p) @ cls)
                 (map fst (spawn_attrs (opt_pgroup opts))) (c_array argv) (map_option c_array envp) w
           in case posix_ret r ''posix_spawn'' of
             Inl e \<Rightarrow> (Inl e, close_all K p w)
           | Inr _ \<Rightarrow>
          (case parent_drain K job_id opts p w of
             (Inl e, w) \<Rightarrow> (Inl e, w)
           | (Inr d, w) \<Rightarrow> (Inr (pid, d), w))))))))"

section \<open>The fork back end\<close>

text \<open>
  What the child does between \<open>fork\<close> and \<open>exec\<close>, in order. \<open>ChdirOrExit\<close> is \<open>chdir\<close> followed by
  \<open>_exit(127)\<close> if it fails; \<open>Execve\<close> is followed by \<open>_exit(127)\<close> if it returns. \<open>CloseRange\<close>
  is \<open>close_range_fast\<close>.
\<close>

datatype child_call =
    Dup2 i32 i32
  | CloseRange "i32 option"
  | Setsid
  | ChdirOrExit string
  | Setpgid i32
  | UnblockAll
  | ResetDefault i32
  | Execve string "string list" "string list option"
  | Exit i32

definition child_dup :: "i32 option \<Rightarrow> i32 option \<Rightarrow> i32 \<Rightarrow> child_call list" where
  "child_dup src other target =
     (case (src, other) of (Some s, Some _) \<Rightarrow> if s \<noteq> target then [Dup2 s target] else [] | _ \<Rightarrow> [])"

definition fork_child :: "spawn_options \<Rightarrow> pipes \<Rightarrow> child_call list" where
  "fork_child opts p =
     child_dup (stdin_r p) (stdin_w p) 0 @ child_dup (stdout_w p) (stdout_r p) 1 @
     child_dup (stderr_w p) (stderr_r p) 2 @ [CloseRange None] @
     (if pg_isolated (opt_pgroup opts) then [Setsid] else []) @
     (case ctx_cwd (opt_ctx opts) of None \<Rightarrow> [] | Some d \<Rightarrow> [ChdirOrExit d]) @
     (case pg_leader (opt_pgroup opts) of None \<Rightarrow> [] | Some pg \<Rightarrow> [Setpgid pg]) @
     [UnblockAll, ResetDefault SIGPIPE,
      Execve (hd (ctx_argv (opt_ctx opts))) (c_array (get_argv_ptrs (opt_ctx opts)))
        (map_option c_array (get_envp_ptrs (opt_ctx opts))),
      Exit 127]"

text \<open>
  \<open>fork\<close> returns in the parent with the child's process id and in the child with 0; in the
  child the function does not return but performs \<open>fork_child\<close>.
\<close>

datatype forked = InParent "sys_error + i32 \<times> drain_state" | InChild "child_call list"

definition spawn_fork_internal :: "'w kernel \<Rightarrow> u64 \<Rightarrow> spawn_options \<Rightarrow> 'w \<Rightarrow> forked \<times> 'w" where
  "spawn_fork_internal K job_id opts w =
     (case pipes_new K (opt_stdin opts) (opt_capture_stdout opts) (opt_capture_stderr opts) w of
        (Inl e, w) \<Rightarrow> (InParent (Inl e), w)
      | (Inr p, w) \<Rightarrow>
          (let (pid, w) = k_fork K w in
           if pid < 0 then
             (let w = close_all K p w in (InParent (Inl (Syscall (k_errno K w) ''fork'')), w))
           else if pid = 0 then (InChild (fork_child opts p), w)
           else
             (case parent_drain K job_id opts p w of
                (Inl e, w) \<Rightarrow> (InParent (Inl e), w)
              | (Inr d, w) \<Rightarrow> (InParent (Inr (pid, d)), w))))"

section \<open>Starting a process\<close>

record running_process =
  run_process :: process
  run_drain :: drain_state

text \<open>\<open>None\<close>: the call is in the forked child and does not return.\<close>

definition spawn_start :: "'w kernel \<Rightarrow> u64 \<Rightarrow> spawn_options \<Rightarrow> 'w \<Rightarrow>
    ((sys_error + running_process) \<times> 'w) option" where
  "spawn_start K job_id opts w =
     (let (r, w) =
        (case resolve_backend K opts of
           PosixSpawn \<Rightarrow> map_prod InParent id (spawn_posix_internal K job_id opts w)
         | Fork \<Rightarrow> spawn_fork_internal K job_id opts w)
      in case r of
        InChild _ \<Rightarrow> None
      | InParent (Inl e) \<Rightarrow> Some (Inl e, w)
      | InParent (Inr (pid, d)) \<Rightarrow>
          Some (Inr \<lparr>run_process = \<lparr>proc_pid = pid\<rparr>, run_drain = d\<rparr>, w))"

end
