(* ===== verification/ChildFds.thy ===== *)
theory ChildFds
  imports Spawn
begin

text \<open>
  What the two back ends of \<open>src/low_level/spawn/mod.rs\<close> leave open in the child. A descriptor
  table maps each open descriptor to its file and its close-on-exec flag; the file actions of
  \<open>posix_spawn\<close> and the calls of the forked child are given their documented effect on it, and
  both are shown to implement one specification, \<open>wired\<close>. \<open>ChildWiring\<close> derives what is assumed
  here (good pipes, closes that cover the table, the effect of \<open>CloseRange\<close>) from the calls.
\<close>

type_synonym 'f fd_table = "i32 \<rightharpoonup> 'f \<times> bool"

section \<open>Effect of the calls\<close>

text \<open>\<open>dup2\<close> clears the flag of the copy; a file action on equal descriptors clears it too.\<close>

fun do_file_action :: "file_action \<Rightarrow> 'f fd_table \<Rightarrow> 'f fd_table" where
  "do_file_action (AddDup2 a b) t =
     (case t a of None \<Rightarrow> t | Some (f, c) \<Rightarrow> t(b \<mapsto> (f, False)))"
| "do_file_action (AddClose a) t = t(a := None)"

fun do_child_call :: "child_call \<Rightarrow> 'f fd_table \<Rightarrow> 'f fd_table" where
  "do_child_call (Dup2 a b) t =
     (case t a of None \<Rightarrow> t | Some (f, c) \<Rightarrow> if a = b then t else t(b \<mapsto> (f, False)))"
| "do_child_call (CloseRange keep) t = (\<lambda>fd. if fd > 2 \<and> keep \<noteq> Some fd then None else t fd)"
| "do_child_call _ t = t"

definition at_exec :: "'f fd_table \<Rightarrow> i32 \<rightharpoonup> 'f" where
  "at_exec t fd = (case t fd of None \<Rightarrow> None | Some (f, cloexec) \<Rightarrow> if cloexec then None else Some f)"

definition posix_table :: "pipes \<Rightarrow> file_action list \<Rightarrow> 'f fd_table \<Rightarrow> i32 \<rightharpoonup> 'f" where
  "posix_table p cls t = at_exec (fold do_file_action (map fst (stdio_actions p) @ cls) t)"

definition fork_table :: "spawn_options \<Rightarrow> pipes \<Rightarrow> 'f fd_table \<Rightarrow> i32 \<rightharpoonup> 'f" where
  "fork_table opts p t = at_exec (fold do_child_call (fork_child opts p) t)"

section \<open>The specification\<close>

text \<open>
  In the child, descriptor 0 is the read end of the stdin pipe, 1 and 2 are the write ends of the
  other two, a stream that is not piped is inherited, and nothing above 2 is open.
\<close>

definition wired :: "pipes \<Rightarrow> 'f fd_table \<Rightarrow> i32 \<rightharpoonup> 'f" where
  "wired p t fd =
     (if fd > 2 then None
      else case (if fd = 0 then stdin_r p else if fd = 1 then stdout_w p
                 else if fd = 2 then stderr_w p else None) of
        None \<Rightarrow> at_exec t fd
      | Some src \<Rightarrow> map_option fst (t src))"

definition pipe_ends :: "pipes \<Rightarrow> i32 list" where
  "pipe_ends p = List.map_filter id [stdin_r p, stdin_w p, stdout_r p, stdout_w p, stderr_r p, stderr_w p]"

text \<open>Both ends or neither, above the standard descriptors, all different, all open.\<close>

definition paired :: "pipes \<Rightarrow> bool" where
  "paired p \<longleftrightarrow> (stdin_r p = None \<longleftrightarrow> stdin_w p = None) \<and> (stdout_r p = None \<longleftrightarrow> stdout_w p = None)
     \<and> (stderr_r p = None \<longleftrightarrow> stderr_w p = None)"

definition good_pipes :: "pipes \<Rightarrow> 'f fd_table \<Rightarrow> bool" where
  "good_pipes p t \<longleftrightarrow> paired p \<and> distinct (pipe_ends p) \<and>
     (\<forall>fd \<in> set (pipe_ends p). fd > 2 \<and> t fd \<noteq> None)"

text \<open>The closes taken from the directory name every inheritable descriptor above 2.\<close>

definition covers :: "file_action list \<Rightarrow> 'f fd_table \<Rightarrow> bool" where
  "covers cls t \<longleftrightarrow> (\<exists>fds. cls = map AddClose fds \<and> (\<forall>fd \<in> set fds. fd > 2) \<and>
     (\<forall>fd > 2. at_exec t fd \<noteq> None \<longrightarrow> fd \<in> set fds))"

section \<open>Lemmas\<close>

lemma coversI:
  assumes "\<forall>fd \<in> set fds. fd > 2" and "\<forall>fd > 2. at_exec t fd \<noteq> None \<longrightarrow> fd \<in> set fds"
  shows "covers (map AddClose fds) t"
  unfolding covers_def using assms by blast

lemma fold_closes: "fold do_file_action (map AddClose fds) t = (\<lambda>fd. if fd \<in> set fds then None else t fd)"
  by (induction fds arbitrary: t) (auto simp: fun_eq_iff)

lemma at_exec_upd [simp]:
  "at_exec (t(a := None)) = (at_exec t)(a := None)"
  "at_exec (t(a \<mapsto> (f, False))) = (at_exec t)(a \<mapsto> f)"
  by (auto simp: at_exec_def fun_eq_iff)

lemma at_exec_None: "t fd = None \<Longrightarrow> at_exec t fd = None"
  by (simp add: at_exec_def)

text \<open>
  \<open>plug src b t\<close>: descriptor \<open>b\<close> becomes an inheritable copy of \<open>src\<close>, if there is one;
  \<open>unplug S t\<close>: the descriptors in \<open>S\<close> are closed.
\<close>

definition plug :: "i32 option \<Rightarrow> i32 \<Rightarrow> 'f fd_table \<Rightarrow> 'f fd_table" where
  "plug src b t = (case src of None \<Rightarrow> t | Some s \<Rightarrow> t(b \<mapsto> (fst (the (t s)), False)))"

definition unplug :: "i32 set \<Rightarrow> 'f fd_table \<Rightarrow> 'f fd_table" where
  "unplug S t = (\<lambda>fd. if fd \<in> S then None else t fd)"

definition plug_all :: "pipes \<Rightarrow> 'f fd_table \<Rightarrow> 'f fd_table" where
  "plug_all p t = plug (stderr_w p) 2 (plug (stdout_w p) 1 (plug (stdin_r p) 0 t))"

lemma plug_other: "fd \<noteq> b \<Longrightarrow> plug src b t fd = t fd"
  by (simp add: plug_def split: option.split)

lemma plug_at: "plug src b t b = (case src of None \<Rightarrow> t b | Some s \<Rightarrow> Some (fst (the (t s)), False))"
  by (simp add: plug_def split: option.split)

lemma plug_unplug:
  "set_option src \<inter> S = {} \<Longrightarrow> b \<notin> S \<Longrightarrow> plug src b (unplug S t) = unplug S (plug src b t)"
  by (auto simp: plug_def unplug_def fun_eq_iff split: option.split)

lemma unplug_unplug: "unplug S (unplug T t) = unplug (S \<union> T) t"
  by (auto simp: unplug_def fun_eq_iff)

lemma fold_unplug: "fold do_file_action (map AddClose fds) t = unplug (set fds) t"
  by (simp add: fold_closes unplug_def)

definition sources :: "i32 set \<Rightarrow> 'f fd_table \<Rightarrow> bool" where
  "sources S t \<longleftrightarrow> (\<forall>s \<in> S. s > 2 \<and> t s \<noteq> None)"

lemma sources_plug: "sources S t \<Longrightarrow> b \<le> 2 \<Longrightarrow> sources S (plug src b t)"
  unfolding sources_def by (metis plug_other verit_comp_simplify1(3))

lemma sources_unplug: "sources S t \<Longrightarrow> S \<inter> T = {} \<Longrightarrow> sources S (unplug T t)"
  unfolding sources_def unplug_def by (simp add: disjoint_iff)

lemma sources_high: "sources S t \<Longrightarrow> b \<le> 2 \<Longrightarrow> b \<notin> S"
  unfolding sources_def by fastforce

text \<open>One stream's three file actions, and the child's one \<open>dup2\<close>.\<close>

definition stream_actions :: "i32 option \<Rightarrow> i32 option \<Rightarrow> i32 \<Rightarrow> file_action list" where
  "stream_actions src other b =
     (case (src, other) of (Some s, Some x) \<Rightarrow> [AddDup2 s b, AddClose s, AddClose x] | _ \<Rightarrow> [])"

lemma stdio_actions_streams:
  assumes "paired p"
  shows "map fst (stdio_actions p) = stream_actions (stdin_r p) (stdin_w p) 0 @
    stream_actions (stdout_w p) (stdout_r p) 1 @ stream_actions (stderr_w p) (stderr_r p) 2"
  using assms
  by (simp add: stdio_actions_def dup_and_close_def stream_actions_def paired_def split: option.split)

lemma stream_actions_table:
  assumes "src = None \<longleftrightarrow> other = None" and "sources (set_option src) t"
    and "b \<notin> set_option src \<union> set_option other"
  shows "fold do_file_action (stream_actions src other b) t =
    unplug (set_option src \<union> set_option other) (plug src b t)"
  using assms
  by (cases src; cases other)
    (auto simp: stream_actions_def plug_def unplug_def fun_eq_iff sources_def)

lemma child_dup_table:
  assumes "src = None \<longleftrightarrow> other = None" and "sources (set_option src) t" and "b \<le> 2"
  shows "fold do_child_call (child_dup src other b) t = plug src b t"
  using assms by (cases src; cases other) (auto simp: child_dup_def plug_def sources_def)

lemma good_pipes_facts:
  assumes "good_pipes p t"
  shows "\<And>fd. fd \<in> set (pipe_ends p) \<Longrightarrow> fd > 2" and "\<And>fd. fd \<in> set (pipe_ends p) \<Longrightarrow> t fd \<noteq> None"
    and "paired p"
    and "(set_option (stdin_r p) \<union> set_option (stdin_w p)) \<inter> (set_option (stdout_w p) \<union> set_option (stdout_r p)) = {}"
    and "(set_option (stdin_r p) \<union> set_option (stdin_w p) \<union> (set_option (stdout_w p) \<union> set_option (stdout_r p)))
      \<inter> (set_option (stderr_w p) \<union> set_option (stderr_r p)) = {}"
  using assms by (auto simp: good_pipes_def pipe_ends_def List.map_filter_simps split: option.splits)

lemma set_pipe_ends:
  "set (pipe_ends p) = set_option (stdin_r p) \<union> set_option (stdin_w p) \<union> set_option (stdout_r p)
     \<union> set_option (stdout_w p) \<union> set_option (stderr_r p) \<union> set_option (stderr_w p)"
  by (auto simp: pipe_ends_def List.map_filter_simps split: option.splits)

lemma plug_high: "fd > 2 \<Longrightarrow> plug_all p t fd = t fd"
  by (simp add: plug_all_def plug_other)

lemma good_pipes_sources:
  assumes "good_pipes p t"
  shows "sources (set_option (stdin_r p) \<union> set_option (stdin_w p)) t"
    and "sources (set_option (stdout_w p) \<union> set_option (stdout_r p)) t"
    and "sources (set_option (stderr_w p) \<union> set_option (stderr_r p)) t"
    and "sources (set_option (stdin_r p)) t" and "sources (set_option (stdout_w p)) t"
    and "sources (set_option (stderr_w p)) t"
  using good_pipes_facts(1,2) [OF assms] by (auto simp: sources_def set_pipe_ends)

lemma good_pipes_paired:
  assumes "good_pipes p t"
  shows "stdin_r p = None \<longleftrightarrow> stdin_w p = None" and "stdout_w p = None \<longleftrightarrow> stdout_r p = None"
    and "stderr_w p = None \<longleftrightarrow> stderr_r p = None"
  using good_pipes_facts(3) [OF assms] by (auto simp: paired_def)

lemma fork_plugged:
  assumes "good_pipes p t"
  shows "fold do_child_call (fork_child opts p) t = (\<lambda>fd. if fd > 2 then None else plug_all p t fd)"
proof -
  note s = good_pipes_sources(4-6) [OF assms] and pr = good_pipes_paired [OF assms]
  have "fold do_child_call (child_dup (stdin_r p) (stdin_w p) 0) t = plug (stdin_r p) 0 t"
    by (rule child_dup_table [OF pr(1) s(1)]) simp
  moreover have "fold do_child_call (child_dup (stdout_w p) (stdout_r p) 1) (plug (stdin_r p) 0 t) =
      plug (stdout_w p) 1 (plug (stdin_r p) 0 t)"
    by (rule child_dup_table [OF pr(2) sources_plug [OF s(2)]]) simp_all
  moreover have "fold do_child_call (child_dup (stderr_w p) (stderr_r p) 2)
      (plug (stdout_w p) 1 (plug (stdin_r p) 0 t)) = plug_all p t"
    unfolding plug_all_def
    by (rule child_dup_table [OF pr(3) sources_plug [OF sources_plug [OF s(3)]]]) simp_all
  ultimately show ?thesis
    by (simp add: fork_child_def split: option.split)
qed

text \<open>One stream after others have been set up and their ends \<open>T\<close> closed.\<close>

lemma next_stream_table:
  assumes "src = None \<longleftrightarrow> other = None" and "sources (set_option src \<union> set_option other) t"
    and "T \<inter> (set_option src \<union> set_option other) = {}" and "b \<notin> T" and "b \<le> 2"
  shows "fold do_file_action (stream_actions src other b) (unplug T t) =
    unplug (set_option src \<union> set_option other \<union> T) (plug src b t)"
proof -
  have src: "sources (set_option src) t" using assms(2) by (simp add: sources_def)
  then have "sources (set_option src) (unplug T t)"
    by (rule sources_unplug) (use assms(3) in auto)
  then have "fold do_file_action (stream_actions src other b) (unplug T t) =
      unplug (set_option src \<union> set_option other) (plug src b (unplug T t))"
    by (rule stream_actions_table [OF assms(1)]) (rule sources_high [OF assms(2,5)])
  also have "plug src b (unplug T t) = unplug T (plug src b t)"
    by (rule plug_unplug) (use assms(3,4) in auto)
  finally show ?thesis by (simp only: unplug_unplug)
qed

lemma posix_plugged:
  assumes "good_pipes p t"
  shows "fold do_file_action (map fst (stdio_actions p)) t = unplug (set (pipe_ends p)) (plug_all p t)"
proof -
  note g = good_pipes_facts [OF assms] and s = good_pipes_sources [OF assms]
  note pr = good_pipes_paired [OF assms]
  let ?I = "set_option (stdin_r p) \<union> set_option (stdin_w p)"
  let ?O = "set_option (stdout_w p) \<union> set_option (stdout_r p)"
  let ?E = "set_option (stderr_w p) \<union> set_option (stderr_r p)"
  have s1: "fold do_file_action (stream_actions (stdin_r p) (stdin_w p) 0) t =
      unplug ?I (plug (stdin_r p) 0 t)"
    by (rule stream_actions_table [OF pr(1) s(4)]) (rule sources_high [OF s(1)], simp)
  have s2: "fold do_file_action (stream_actions (stdout_w p) (stdout_r p) 1)
      (unplug ?I (plug (stdin_r p) 0 t)) =
      unplug (?O \<union> ?I) (plug (stdout_w p) 1 (plug (stdin_r p) 0 t))"
    by (rule next_stream_table [OF pr(2) sources_plug [OF s(2)] g(4) sources_high [OF s(1)]])
      simp_all
  have n: "2 \<notin> ?O \<union> ?I" using sources_high [OF s(1), of 2] sources_high [OF s(2), of 2] by simp
  have d: "(?O \<union> ?I) \<inter> ?E = {}" using g(5) by blast
  have s3: "fold do_file_action (stream_actions (stderr_w p) (stderr_r p) 2)
      (unplug (?O \<union> ?I) (plug (stdout_w p) 1 (plug (stdin_r p) 0 t))) =
      unplug (?E \<union> (?O \<union> ?I)) (plug_all p t)"
    unfolding plug_all_def
    by (rule next_stream_table [OF pr(3) sources_plug [OF sources_plug [OF s(3)]] d n]) simp_all
  have "?E \<union> (?O \<union> ?I) = set (pipe_ends p)" by (auto simp: set_pipe_ends)
  then show ?thesis
    unfolding stdio_actions_streams [OF g(3)] fold_append comp_def s1 s2 s3 by simp
qed

text \<open>The specification in terms of \<open>plug_all\<close>.\<close>

lemma wired_plugged:
  assumes "good_pipes p t"
  shows "wired p t fd = (if fd > 2 then None else at_exec (plug_all p t) fd)"
proof -
  note g = good_pipes_facts [OF assms]
  have copy: "plug_all p t 0 = (case stdin_r p of None \<Rightarrow> t 0 | Some s \<Rightarrow> Some (fst (the (t s)), False))"
    "plug_all p t 1 = (case stdout_w p of None \<Rightarrow> t 1 | Some s \<Rightarrow> Some (fst (the (t s)), False))"
    "plug_all p t 2 = (case stderr_w p of None \<Rightarrow> t 2 | Some s \<Rightarrow> Some (fst (the (t s)), False))"
    using g(1) [of "the (stdout_w p)"] g(1) [of "the (stderr_w p)"]
    by (auto simp: plug_all_def plug_at plug_other set_pipe_ends split: option.split)
  have src: "map_option fst (t s) = Some (fst (the (t s)))" if "s \<in> set (pipe_ends p)" for s
    using g(2) [OF that] by (cases "t s") auto
  consider "fd > 2" | "fd = 0" | "fd = 1" | "fd = 2" | "fd < 0" by linarith
  then show ?thesis
  proof cases
    case 5
    then show ?thesis by (simp add: wired_def plug_all_def plug_other at_exec_def)
  qed (use copy src in \<open>simp_all add: wired_def at_exec_def set_pipe_ends split: option.split\<close>)
qed

lemma fork_wired:
  assumes "good_pipes p t"
  shows "fork_table opts p t = wired p t"
  unfolding fork_table_def fork_plugged [OF assms] fun_eq_iff wired_plugged [OF assms]
  by (simp add: at_exec_def)

lemma posix_wired:
  assumes "good_pipes p t" and "covers cls t"
  shows "posix_table p cls t = wired p t"
proof
  fix fd
  note g = good_pipes_facts [OF assms(1)]
  from assms(2) obtain fds where cls: "cls = map AddClose fds" and high: "\<forall>fd \<in> set fds. fd > 2"
    and cov: "\<forall>fd > 2. at_exec t fd \<noteq> None \<longrightarrow> fd \<in> set fds"
    by (auto simp: covers_def)
  have "posix_table p cls t fd =
      at_exec (unplug (set fds \<union> set (pipe_ends p)) (plug_all p t)) fd"
    by (simp add: posix_table_def posix_plugged [OF assms(1)] cls fold_unplug unplug_unplug)
  also have "\<dots> = wired p t fd"
  proof (cases "fd > 2")
    case True
    with cov have "fd \<in> set fds \<or> at_exec (plug_all p t) fd = None"
      by (auto simp: at_exec_def plug_high)
    with True show ?thesis by (auto simp: wired_def at_exec_def unplug_def)
  next
    case False
    with high g(1) have "fd \<notin> set fds \<union> set (pipe_ends p)" by auto
    with False show ?thesis
      by (simp add: wired_plugged [OF assms(1)] at_exec_def unplug_def)
  qed
  finally show "posix_table p cls t fd = wired p t fd" .
qed

section \<open>Properties\<close>

text \<open>Pipes on the standard descriptors break the child. If the parent runs with descriptor 0
  closed, so that the read end of the stdin pipe is descriptor 0 itself, the file actions close it
  again after the copy, and the forked child skips the copy and loses it to its close-on-exec
  flag: either way the child starts without a standard input.\<close>

theorem low_pipe_lost:
  assumes "p = \<lparr>stdin_r = Some 0, stdin_w = Some x, stdout_r = None, stdout_w = None,
      stderr_r = None, stderr_w = None\<rparr>"
    and "t 0 = Some (f, True)"
  shows "posix_table p (map AddClose fds) t 0 = None \<and> fork_table opts p t 0 = None"
proof
  have "posix_table p (map AddClose fds) t = at_exec (unplug (set fds) ((t(0 := None))(x := None)))"
    using assms by (simp add: posix_table_def stdio_actions_def dup_and_close_def fold_unplug)
  then show "posix_table p (map AddClose fds) t 0 = None"
    by (simp add: at_exec_def unplug_def)
  show "fork_table opts p t 0 = None"
    using assms
    by (simp add: fork_table_def fork_child_def child_dup_def at_exec_def split: option.split)
qed

lemma low_pipe_lost_witness:
  "posix_table \<lparr>stdin_r = Some 0, stdin_w = Some 3, stdout_r = None, stdout_w = None,
      stderr_r = None, stderr_w = None\<rparr> (map AddClose []) [0 \<mapsto> (''in r'', True)] 0 = None"
  by (rule conjunct1 [OF low_pipe_lost]) simp_all

end
