(* ===== verification/SpawnFds.thy ===== *)
theory SpawnFds
  imports ChildFds
begin

text \<open>
  Descriptor accounting in the parent for \<open>spawn_start\<close> of \<open>src/low_level/spawn/mod.rs\<close>: on every
  path, error or not, what is open afterwards is what was open before and the slots of the
  returned drain state.
\<close>

section \<open>The documented effect of the system calls on the descriptor table\<close>

definition fd_laws :: "'w kernel \<Rightarrow> ('w \<Rightarrow> i32 set) \<Rightarrow> bool" where
  "fd_laws K opn \<longleftrightarrow> closes_fds K opn
   \<and> (\<forall>w w'. k_pipe2 K w = (None, w') \<longrightarrow> opn w' = opn w)
   \<and> (\<forall>w a b w'. k_pipe2 K w = (Some (a, b), w') \<longrightarrow> 0 \<le> a \<and> 0 \<le> b \<and> a \<noteq> b \<and> a \<notin> opn w
        \<and> b \<notin> opn w \<and> opn w' = insert a (insert b (opn w)))
   \<and> (\<forall>w d w'. k_open_proc_fd K w = (d, w') \<longrightarrow>
        (if d < 0 then opn w' = opn w else d \<notin> opn w \<and> opn w' = insert d (opn w)))
   \<and> (\<forall>w fd. opn (snd (k_read_dir K fd w)) = opn w)
   \<and> (\<forall>w. opn (snd (k_file_actions_init K w)) = opn w)
   \<and> (\<forall>w a. opn (snd (k_file_action K a w)) = opn w)
   \<and> (\<forall>w. opn (snd (k_attr_init K w)) = opn w)
   \<and> (\<forall>w a. opn (snd (k_attr K a w)) = opn w)
   \<and> (\<forall>w exe fa at av ev. opn (snd (snd (k_posix_spawn K exe fa at av ev w))) = opn w)
   \<and> (\<forall>w. opn (snd (k_fork K w)) = opn w)"

lemma fd_laws_pipe:
  assumes "fd_laws K opn" and "k_pipe2 K w = (Some (a, b), w')"
  shows "0 \<le> a" and "0 \<le> b" and "a \<noteq> b" and "a \<notin> opn w" and "b \<notin> opn w"
    and "opn w' = insert a (insert b (opn w))"
  using assms unfolding fd_laws_def by auto

lemma fd_laws_no_pipe:
  assumes "fd_laws K opn" and "k_pipe2 K w = (None, w')"
  shows "opn w' = opn w"
  using assms unfolding fd_laws_def by auto

lemma fd_laws_open_proc:
  assumes "fd_laws K opn" and "k_open_proc_fd K w = (d, w')"
  shows "d < 0 \<Longrightarrow> opn w' = opn w" and "0 \<le> d \<Longrightarrow> d \<notin> opn w \<and> opn w' = insert d (opn w)"
  using assms unfolding fd_laws_def by fastforce+

lemma fd_laws_simps:
  assumes "fd_laws K opn"
  shows "closes_fds K opn" and "opn (snd (k_read_dir K fd w)) = opn w"
    and "opn (snd (k_file_actions_init K w)) = opn w" and "opn (snd (k_file_action K a w)) = opn w"
    and "opn (snd (k_attr_init K w)) = opn w" and "opn (snd (k_attr K at w)) = opn w"
    and "opn (snd (snd (k_posix_spawn K exe fa ats av ev w))) = opn w"
    and "opn (snd (k_fork K w)) = opn w"
  using assms unfolding fd_laws_def by auto

section \<open>Pipes\<close>

lemma maybe_pipe_fds:
  assumes "fd_laws K opn" and "maybe_pipe K wanted w = (r, w')"
  shows "case r of
      Inl _ \<Rightarrow> opn w' = opn w
    | Inr (a, b) \<Rightarrow> opn w' = opn w \<union> (set_option a \<union> set_option b) \<and>
        (set_option a \<union> set_option b) \<inter> opn w = {} \<and> valid_fd a \<and> valid_fd b \<and>
        set_option a \<inter> set_option b = {} \<and> (a = None \<longleftrightarrow> \<not> wanted) \<and> (b = None \<longleftrightarrow> \<not> wanted)"
proof (cases wanted)
  case True
  show ?thesis
  proof (cases "k_pipe2 K w")
    case (Pair x w1)
    show ?thesis
    proof (cases x)
      case None
      with Pair assms(2) True have "Inl (Syscall (k_errno K w1) ''pipe2'') = r" "w1 = w'"
        by (auto simp: maybe_pipe_def make_pipe_def)
      moreover have "opn w1 = opn w" using fd_laws_no_pipe [OF assms(1)] Pair None by simp
      ultimately show ?thesis by (cases r) auto
    next
      case (Some ab)
      obtain a b where ab: "ab = (a, b)" by (cases ab)
      with Pair Some have "k_pipe2 K w = (Some (a, b), w1)" by simp
      note f = fd_laws_pipe [OF assms(1) this]
      have "maybe_pipe K wanted w = (Inr (Some a, Some b), w1)"
        using f(1,2) Pair Some ab True by (simp add: maybe_pipe_def make_pipe_def fd_new_def)
      with assms(2) have "r = Inr (Some a, Some b)" "w' = w1" by simp_all
      with f True show ?thesis by auto
    qed
  qed
next
  case False
  with assms(2) have "r = Inr (None, None)" "w' = w" by (simp_all add: maybe_pipe_def)
  with False show ?thesis by simp
qed

text \<open>
  The pipes \<open>p\<close> were opened between \<open>w\<close> and \<open>w'\<close>: \<open>child_ends\<close> go to the child, \<open>parent_ends\<close>
  stay.
\<close>

definition child_ends :: "pipes \<Rightarrow> i32 set" where
  "child_ends p = set_option (stdin_r p) \<union> set_option (stdout_w p) \<union> set_option (stderr_w p)"

definition parent_ends :: "pipes \<Rightarrow> i32 set" where
  "parent_ends p = set_option (stdin_w p) \<union> set_option (stdout_r p) \<union> set_option (stderr_r p)"

definition valid_pipes :: "pipes \<Rightarrow> bool" where
  "valid_pipes p \<longleftrightarrow> valid_fd (stdin_r p) \<and> valid_fd (stdin_w p) \<and> valid_fd (stdout_r p)
     \<and> valid_fd (stdout_w p) \<and> valid_fd (stderr_r p) \<and> valid_fd (stderr_w p)"

definition opened :: "('w \<Rightarrow> i32 set) \<Rightarrow> 'w \<Rightarrow> pipes \<Rightarrow> 'w \<Rightarrow> bool" where
  "opened opn w p w' \<longleftrightarrow> opn w' = opn w \<union> (child_ends p \<union> parent_ends p)
     \<and> (child_ends p \<union> parent_ends p) \<inter> opn w = {} \<and> child_ends p \<inter> parent_ends p = {}
     \<and> apart (stdin_w p) (stdout_r p) (stderr_r p) \<and> valid_pipes p"

lemma opn_drop_pair:
  assumes "closes_fds K opn" and "valid_fd a" and "valid_fd b"
  shows "opn (drop_pair K (a, b) w) = opn w - (set_option a \<union> set_option b)"
  using assms by (auto simp: drop_pair_def opn_fd_drop_opt)

lemma pipes_new_fds:
  assumes K: "fd_laws K opn" and "pipes_new K ib out err w = (r, w')"
  shows "case r of Inl _ \<Rightarrow> opn w' = opn w
    | Inr p \<Rightarrow> opened opn w p w' \<and> (stdin_w p = None \<longleftrightarrow> ib = None)"
proof -
  note drops = opn_drop_pair [OF fd_laws_simps(1) [OF K]]
  obtain r0 w0 where s0: "maybe_pipe K (ib \<noteq> None) w = (r0, w0)" by fastforce
  note f0 = maybe_pipe_fds [OF K s0]
  show ?thesis
  proof (cases r0)
    case (Inl e)
    with s0 f0 assms(2) show ?thesis by (auto simp: pipes_new_def)
  next
    case r0: (Inr x0)
    obtain a0 b0 where x0: "x0 = (a0, b0)" by (cases x0)
    obtain r1 w1 where s1: "maybe_pipe K out w0 = (r1, w1)" by fastforce
    note f1 = maybe_pipe_fds [OF K s1]
    show ?thesis
    proof (cases r1)
      case (Inl e)
      with s0 s1 r0 x0 assms(2) have "r = Inl e" "w' = drop_pair K (a0, b0) w1"
        by (simp_all add: pipes_new_def)
      with f0 f1 r0 x0 Inl show ?thesis by (auto simp: drops)
    next
      case r1: (Inr x1)
      obtain a1 b1 where x1: "x1 = (a1, b1)" by (cases x1)
      obtain r2 w2 where s2: "maybe_pipe K err w1 = (r2, w2)" by fastforce
      note f2 = maybe_pipe_fds [OF K s2]
      show ?thesis
      proof (cases r2)
        case (Inl e)
        with s0 s1 s2 r0 r1 x0 x1 assms(2)
        have "r = Inl e" "w' = drop_pair K (a0, b0) (drop_pair K (a1, b1) w2)"
          by (simp_all add: pipes_new_def)
        moreover from f0 r0 x0 have "valid_fd a0" "valid_fd b0"
          "opn w0 = opn w \<union> (set_option a0 \<union> set_option b0)"
          "(set_option a0 \<union> set_option b0) \<inter> opn w = {}"
          by simp_all
        moreover from f1 r1 x1 have "valid_fd a1" "valid_fd b1"
          "opn w1 = opn w0 \<union> (set_option a1 \<union> set_option b1)"
          "(set_option a1 \<union> set_option b1) \<inter> opn w0 = {}"
          by simp_all
        moreover from f2 Inl have "opn w2 = opn w1" by simp
        ultimately show ?thesis by (simp add: drops) blast
      next
        case r2: (Inr x2)
        obtain a2 b2 where x2: "x2 = (a2, b2)" by (cases x2)
        from s0 s1 s2 r0 r1 r2 x0 x1 x2 assms(2)
        have r: "r = Inr \<lparr>stdin_r = a0, stdin_w = b0, stdout_r = a1, stdout_w = b1,
            stderr_r = a2, stderr_w = b2\<rparr>" and w': "w' = w2"
          by (simp_all add: pipes_new_def)
        from f0 r0 x0 have F0: "opn w0 = opn w \<union> (set_option a0 \<union> set_option b0)"
          "(set_option a0 \<union> set_option b0) \<inter> opn w = {}" "set_option a0 \<inter> set_option b0 = {}"
          and v0: "valid_fd a0" "valid_fd b0" "b0 = None \<longleftrightarrow> ib = None"
          by simp_all
        from f1 r1 x1 have F1: "opn w1 = opn w0 \<union> (set_option a1 \<union> set_option b1)"
          "(set_option a1 \<union> set_option b1) \<inter> opn w0 = {}" "set_option a1 \<inter> set_option b1 = {}"
          and v1: "valid_fd a1" "valid_fd b1"
          by simp_all
        from f2 r2 x2 have F2: "opn w2 = opn w1 \<union> (set_option a2 \<union> set_option b2)"
          "(set_option a2 \<union> set_option b2) \<inter> opn w1 = {}" "set_option a2 \<inter> set_option b2 = {}"
          and v2: "valid_fd a2" "valid_fd b2"
          by simp_all
        let ?C = "set_option a0 \<union> set_option b1 \<union> set_option b2"
        let ?P = "set_option b0 \<union> set_option a1 \<union> set_option a2"
        have "opn w2 = opn w \<union> (?C \<union> ?P)" unfolding F2(1) F1(1) F0(1) by blast
        moreover have "(?C \<union> ?P) \<inter> opn w = {}"
          using F2(2) F1(2) F0(2) unfolding F1(1) F0(1) by blast
        moreover have "?C \<inter> ?P = {}"
          using F2(2,3) F1(2,3) F0(2,3) unfolding F1(1) F0(1) by blast
        moreover have "apart b0 a1 a2"
          using F2(2) F1(2) unfolding apart_def F1(1) F0(1) by blast
        ultimately show ?thesis
          unfolding r w' by (simp add: opened_def child_ends_def parent_ends_def valid_pipes_def v0 v1 v2)
      qed
    qed
  qed
qed

lemma opn_close_all:
  assumes "closes_fds K opn" and "valid_pipes p"
  shows "opn (close_all K p w) = opn w - (child_ends p \<union> parent_ends p)"
  using assms
  by (auto simp: close_all_def opn_fd_drop_opt valid_pipes_def child_ends_def parent_ends_def)

lemma opened_close_all:
  assumes "closes_fds K opn" and "opened opn w p w1" and "opn w2 = opn w1"
  shows "opn (close_all K p w2) = opn w"
  using assms by (auto simp: opn_close_all opened_def)

section \<open>The parent's drain\<close>

lemma parent_drain_fds:
  assumes K: "closes_fds K opn" and p: "opened opn w p w1" and eq: "opn w2 = opn w1"
    and ib: "stdin_w p = None \<longleftrightarrow> opt_stdin opts = None"
    and run: "parent_drain K j opts p w2 = (r, w')"
  shows "case r of Inl _ \<Rightarrow> opn w' = opn w
    | Inr d \<Rightarrow> opn w' = opn w \<union> slot_fds d \<and> slot_fds d \<inter> opn w = {} \<and> wf_drain d \<and> slots_apart d"
proof -
  have v: "valid_pipes p" using p by (simp add: opened_def)
  define w3 where "w3 = fd_drop_opt K (stderr_w p) (fd_drop_opt K (stdout_w p)
      (fd_drop_opt K (stdin_r p) w2))"
  have o3: "opn w3 = opn w2 - child_ends p"
    using v unfolding w3_def valid_pipes_def child_ends_def by (auto simp: opn_fd_drop_opt [OF K])
  have none: "fd_drop_opt K None w = w" for w by (simp add: fd_drop_opt_def)
  have run': "drain_new K j (stdin_w p) (opt_stdin opts) (stdout_r p) (stderr_r p)
      (opt_max_output opts) (opt_early_exit opts) w3 = (r, w')"
    using run ib by (cases "opt_stdin opts") (auto simp: parent_drain_def Let_def w3_def none)
  have v3: "valid_fd (stdin_w p)" "valid_fd (stdout_r p)" "valid_fd (stderr_r p)"
    using v by (simp_all add: valid_pipes_def)
  note f = drain_new_fds [OF K v3 run']
  show ?thesis
  proof (cases r)
    case (Inl e)
    with f o3 eq p show ?thesis by (auto simp: opened_def parent_ends_def)
  next
    case (Inr d)
    have ends: "parent_ends p = slot_fds d" "opn w' = opn w3"
      using f Inr ib by (auto simp: parent_ends_def split: if_splits)
    have "wf_drain d" using run' unfolding Inr by (rule wf_drain_new)
    moreover have "slots_apart d"
      using drain_new_apart [OF run' [unfolded Inr]] p by (simp add: opened_def)
    ultimately show ?thesis using ends Inr o3 eq p by (auto simp: opened_def)
  qed
qed

section \<open>Both back ends\<close>

lemma call_checked_fds:
  assumes "\<And>x w. opn (snd (call x w)) = opn w"
  shows "opn (snd (call_checked call xs w)) = opn w"
  using assms
  by (induction xs arbitrary: w)
    (auto simp: Let_def split_beta split: sum.split)

lemma call_all_fds:
  assumes "\<And>x w. opn (snd (call x w)) = opn w"
  shows "opn (snd (call_all call xs w)) = opn w"
  using assms by (induction xs arbitrary: w) (auto simp: Let_def split_beta)

lemma inherited_closes_fds:
  assumes K: "fd_laws K opn"
  shows "opn (snd (inherited_closes K w)) = opn w"
proof -
  obtain d w1 where d: "k_open_proc_fd K w = (d, w1)" by fastforce
  note o = fd_laws_open_proc [OF K d]
  obtain x w2 where x: "k_read_dir K d w1 = (x, w2)" by fastforce
  have o2: "opn w2 = opn w1" using fd_laws_simps(2) [OF K, of d w1] x by simp
  have cl: "opn (k_close K fd v) = opn v - {fd}" for fd v
    using fd_laws_simps(1) [OF K] by (simp add: closes_fds_def)
  note a = call_all_fds [of opn "k_file_action K", OF fd_laws_simps(4) [OF K]]
  show ?thesis
    using o o2 by (cases x) (auto simp: inherited_closes_def Let_def d x split_beta cl a)
qed

lemma spawn_posix_fds:
  assumes K: "fd_laws K opn" and run: "spawn_posix_internal K j opts w = (r, w')"
  shows "case r of Inl _ \<Rightarrow> opn w' = opn w
    | Inr (pid, d) \<Rightarrow> opn w' = opn w \<union> slot_fds d \<and> slot_fds d \<inter> opn w = {} \<and> wf_drain d \<and> slots_apart d"
proof -
  note L = fd_laws_simps [OF K]
  obtain rp w1 where rp: "pipes_new K (opt_stdin opts) (opt_capture_stdout opts)
      (opt_capture_stderr opts) w = (rp, w1)" by fastforce
  note fp = pipes_new_fds [OF K rp]
  show ?thesis
  proof (cases rp)
    case (Inl e)
    with rp fp run show ?thesis by (auto simp: spawn_posix_internal_def)
  next
    case (Inr p)
    with fp have p: "opened opn w p w1" and ib: "stdin_w p = None \<longleftrightarrow> opt_stdin opts = None"
      by simp_all
    note bail = opened_close_all [OF L(1) p]
    define w2 where "w2 = snd (k_file_actions_init K w1)"
    define w3 where "w3 = snd (call_checked (k_file_action K) (stdio_actions p) w2)"
    define w4 where "w4 = snd (inherited_closes K w3)"
    define w5 where "w5 = snd (k_attr_init K w4)"
    define w6 where "w6 = snd (call_checked (k_attr K) (spawn_attrs (opt_pgroup opts)) w5)"
    have o: "opn w2 = opn w1" "opn w3 = opn w1" "opn w4 = opn w1" "opn w5 = opn w1" "opn w6 = opn w1"
      using call_checked_fds [of opn "k_file_action K", OF L(4)]
        call_checked_fds [of opn "k_attr K", OF L(6)] inherited_closes_fds [OF K]
      by (simp_all add: w2_def w3_def w4_def w5_def w6_def L)
    define w7 where "w7 = snd (snd (k_posix_spawn K (hd (ctx_argv (opt_ctx opts)))
        (map fst (stdio_actions p) @ fst (inherited_closes K w3))
        (map fst (spawn_attrs (opt_pgroup opts))) (c_array (get_argv_ptrs (opt_ctx opts)))
        (map_option c_array (get_envp_ptrs (opt_ctx opts))) w6))"
    define pid where "pid = fst (snd (k_posix_spawn K (hd (ctx_argv (opt_ctx opts)))
        (map fst (stdio_actions p) @ fst (inherited_closes K w3))
        (map fst (spawn_attrs (opt_pgroup opts))) (c_array (get_argv_ptrs (opt_ctx opts)))
        (map_option c_array (get_envp_ptrs (opt_ctx opts))) w6))"
    have o7: "opn w7 = opn w1" by (simp add: w7_def L o)
    note unf = spawn_posix_internal_def rp Inr Let_def split_beta
    note ws = w2_def [symmetric] w3_def [symmetric] w4_def [symmetric] w5_def [symmetric]
      w6_def [symmetric] w7_def [symmetric] pid_def [symmetric]
    consider (bail) v e where "opn v = opn w1" "r = Inl e" "w' = close_all K p v"
      | (on) "(r, w') = map_prod (map_sum id (Pair pid)) id (parent_drain K j opts p w7)"
    proof (cases "posix_ret (fst (k_file_actions_init K w1)) ''file_actions_init''")
      case (Inl e)
      with run have "r = Inl e" "w' = close_all K p w2" by (simp_all add: unf ws)
      with o(1) show thesis by (rule that(1))
    next
      case c1: (Inr u)
      show thesis
      proof (cases "fst (call_checked (k_file_action K) (stdio_actions p) w2)")
        case (Inl e)
        with run c1 have "r = Inl e" "w' = close_all K p w3" by (simp_all add: unf ws)
        with o(2) show thesis by (rule that(1))
      next
        case c2: (Inr u)
        show thesis
        proof (cases "posix_ret (fst (k_attr_init K w4)) ''attr_init''")
          case (Inl e)
          with run c1 c2 have "r = Inl e" "w' = close_all K p w5" by (simp_all add: unf ws)
          with o(4) show thesis by (rule that(1))
        next
          case c3: (Inr u)
          show thesis
          proof (cases "fst (call_checked (k_attr K) (spawn_attrs (opt_pgroup opts)) w5)")
            case (Inl e)
            with run c1 c2 c3 have "r = Inl e" "w' = close_all K p w6" by (simp_all add: unf ws)
            with o(5) show thesis by (rule that(1))
          next
            case c4: (Inr u)
            show thesis
            proof (cases "posix_ret (fst (k_posix_spawn K (hd (ctx_argv (opt_ctx opts)))
                (map fst (stdio_actions p) @ fst (inherited_closes K w3))
                (map fst (spawn_attrs (opt_pgroup opts))) (c_array (get_argv_ptrs (opt_ctx opts)))
                (map_option c_array (get_envp_ptrs (opt_ctx opts))) w6)) ''posix_spawn''")
              case (Inl e)
              with run c1 c2 c3 c4 have "r = Inl e" "w' = close_all K p w7"
                by (simp_all add: unf ws)
              with o7 show thesis by (rule that(1))
            next
              case c5: (Inr u)
              obtain q v where q: "parent_drain K j opts p w7 = (q, v)" by fastforce
              with run c1 c2 c3 c4 c5 show thesis
                by (intro that(2); cases q) (simp_all add: unf ws)
            qed
          qed
        qed
      qed
    qed
    then show ?thesis
    proof cases
      case bail
      with opened_close_all [OF L(1) p, of v] show ?thesis by simp
    next
      case on
      obtain q v where q: "parent_drain K j opts p w7 = (q, v)" by fastforce
      from parent_drain_fds [OF L(1) p o7 ib q] on q show ?thesis by (cases q) auto
    qed
  qed
qed

lemma spawn_fork_fds:
  assumes K: "fd_laws K opn" and run: "spawn_fork_internal K j opts w = (InParent r, w')"
  shows "case r of Inl _ \<Rightarrow> opn w' = opn w
    | Inr (pid, d) \<Rightarrow> opn w' = opn w \<union> slot_fds d \<and> slot_fds d \<inter> opn w = {} \<and> wf_drain d \<and> slots_apart d"
proof -
  note L = fd_laws_simps [OF K]
  obtain rp w1 where rp: "pipes_new K (opt_stdin opts) (opt_capture_stdout opts)
      (opt_capture_stderr opts) w = (rp, w1)" by fastforce
  note fp = pipes_new_fds [OF K rp]
  show ?thesis
  proof (cases rp)
    case (Inl e)
    with rp fp run show ?thesis by (auto simp: spawn_fork_internal_def)
  next
    case (Inr p)
    with fp have p: "opened opn w p w1" and ib: "stdin_w p = None \<longleftrightarrow> opt_stdin opts = None"
      by simp_all
    obtain pid w2 where f: "k_fork K w1 = (pid, w2)" by fastforce
    have o: "opn w2 = opn w1" using L(8) [of w1] f by simp
    note unf = spawn_fork_internal_def rp Inr Let_def f
    consider "pid < 0" | "pid = 0" | "0 < pid" by linarith
    then show ?thesis
    proof cases
      case 1
      with run have "w' = close_all K p w2" "\<exists>e. r = Inl e" by (auto simp: unf)
      with opened_close_all [OF L(1) p o] show ?thesis by auto
    next
      case 2
      with run show ?thesis by (simp add: unf)
    next
      case 3
      obtain q v where q: "parent_drain K j opts p w2 = (q, v)" by fastforce
      with run 3 have "r = map_sum id (Pair pid) q" "w' = v"
        by (cases q; simp add: unf)+
      with parent_drain_fds [OF L(1) p o ib q] show ?thesis by (cases q) auto
    qed
  qed
qed

lemma spawn_start_fds:
  assumes "fd_laws K opn" and "spawn_start K j opts w = Some (r, w')"
  shows "case r of Inl _ \<Rightarrow> opn w' = opn w
    | Inr rp \<Rightarrow> opn w' = opn w \<union> slot_fds (run_drain rp) \<and> slot_fds (run_drain rp) \<inter> opn w = {}
        \<and> wf_drain (run_drain rp) \<and> slots_apart (run_drain rp)"
proof -
  obtain q v where q: "(case resolve_backend K opts of
           PosixSpawn \<Rightarrow> map_prod InParent id (spawn_posix_internal K j opts w)
         | Fork \<Rightarrow> spawn_fork_internal K j opts w) = (q, v)" by fastforce
  have "\<exists>x. q = InParent x"
    using assms(2) q by (cases q) (auto simp: spawn_start_def Let_def)
  then obtain x where x: "q = InParent x" ..
  have acc: "case x of Inl _ \<Rightarrow> opn v = opn w
    | Inr (pid, d) \<Rightarrow> opn v = opn w \<union> slot_fds d \<and> slot_fds d \<inter> opn w = {} \<and> wf_drain d \<and> slots_apart d"
  proof (cases "resolve_backend K opts")
    case PosixSpawn
    with q x have "spawn_posix_internal K j opts w = (x, v)"
      by (cases "spawn_posix_internal K j opts w") auto
    from spawn_posix_fds [OF assms(1) this] show ?thesis .
  next
    case Fork
    with q x have "spawn_fork_internal K j opts w = (InParent x, v)" by simp
    from spawn_fork_fds [OF assms(1) this] show ?thesis .
  qed
  have run: "Some (case x of Inl e \<Rightarrow> (Inl e, v)
     | Inr (pid, d) \<Rightarrow> (Inr \<lparr>run_process = \<lparr>proc_pid = pid\<rparr>, run_drain = d\<rparr>, v)) = Some (r, w')"
    using assms(2) unfolding spawn_start_def q x by (cases x) auto
  with acc show ?thesis by (cases x) auto
qed

section \<open>Properties\<close>

text \<open>C8: No descriptor leaks out of process creation. Whatever fails on the way, a call of
  \<open>spawn_start\<close> that returns an error leaves the parent's descriptor table as it was, and one that
  succeeds adds exactly the parent's pipe ends, all of them new, different from one another and
  held in the slots of the returned, well-formed drain state.\<close>

theorem spawn_start_accounts:
  assumes "fd_laws K opn" and "spawn_start K j opts w = Some (r, w')"
  shows "case r of Inl _ \<Rightarrow> opn w' = opn w
    | Inr rp \<Rightarrow> opn w' = opn w \<union> slot_fds (run_drain rp) \<and> slot_fds (run_drain rp) \<inter> opn w = {}
        \<and> wf_drain (run_drain rp) \<and> slots_apart (run_drain rp)"
  using spawn_start_fds [OF assms] .

text \<open>
  A kernel whose world is the set of open descriptors: pipes get numbers above all open ones,
  everything else succeeds.
\<close>

definition table_kernel :: "i32 set kernel" where
  "table_kernel = (quiet_kernel (\<lambda>_. 0))\<lparr>
     k_close := \<lambda>fd w. w - {fd}, k_fcntl := \<lambda>fd c w. (0, w),
     k_pipe2 := \<lambda>w. if finite w then (Some (Max (insert 2 w) + 1, Max (insert 2 w) + 2),
         insert (Max (insert 2 w) + 1) (insert (Max (insert 2 w) + 2) w)) else (None, w),
     k_posix_spawn := \<lambda>exe fa at av ev w. (0, 4711, w)\<rparr>"

lemma table_kernel_laws: "fd_laws table_kernel id"
proof -
  have m: "Max (insert 2 w) + 1 \<notin> w" "Max (insert 2 w) + 2 \<notin> w" "2 \<le> Max (insert 2 w)"
    if "finite w" for w :: "i32 set"
    using that Max_ge [of "insert 2 w"] by fastforce+
  show ?thesis
    unfolding fd_laws_def closes_fds_def
    by (auto simp: table_kernel_def quiet_kernel_def split: if_splits dest: m)
qed

definition demo_options :: spawn_options where
  "demo_options = \<lparr>opt_ctx = exec_context_new [''ls''] None None, opt_stdin = None,
     opt_capture_stdout = True, opt_capture_stderr = False, opt_wait = False,
     opt_pgroup = process_group_default, opt_max_output = 100, opt_timeout_ms = None,
     opt_kill_grace_ms = 0, opt_cancel = SysCancelNone, opt_backend = BackendAuto,
     opt_early_exit = None\<rparr>"

lemma spawn_start_accounts_witness:
  "\<exists>rp w'. spawn_start table_kernel 1 demo_options {0, 1, 2} = Some (Inr rp, w')
     \<and> w' = {0, 1, 2} \<union> slot_fds (run_drain rp)"
proof -
  have "Max (insert 2 {0, 1, 2 :: int}) = 2" by simp
  then obtain rp w' where h: "spawn_start table_kernel 1 demo_options {0, 1, 2} = Some (Inr rp, w')"
    by (simp add: spawn_start_def resolve_backend_def force_fork_def demo_options_def
        exec_context_new_def process_group_default_def select_backend_def table_kernel_def
        quiet_kernel_def spawn_posix_internal_def pipes_new_def maybe_pipe_def make_pipe_def
        fd_new_def Let_def posix_ret_def stdio_actions_def dup_and_close_def inherited_closes_def
        spawn_attrs_def parent_drain_def drain_new_def claim_slot_def set_nonblock_def
        syscall_ret_def)
  from spawn_start_accounts [OF table_kernel_laws h] h show ?thesis by auto
qed

end
