(* ===== verification/IdSupply.thy ===== *)
theory IdSupply
  imports Prelude
begin

text \<open>
  The interface of the program's counters (job ids, handles, client ids, reactor tokens). A
  counter walks through a cycle of names; the locale shows that any run of draws no longer than
  the cycle yields pairwise different names. Each component that owns a counter interprets it.
\<close>

fun draws :: "('s \<Rightarrow> 'i \<times> 's) \<Rightarrow> nat \<Rightarrow> 's \<Rightarrow> 'i list \<times> 's" where
  "draws draw 0 s = ([], s)"
| "draws draw (Suc n) s = (let (x, s) = draw s; (xs, s) = draws draw n s in (x # xs, s))"

lemma draws_prefix: "j \<le> k \<Longrightarrow> fst (draws draw j s) = take j (fst (draws draw k s))"
proof (induction j arbitrary: k s)
  case (Suc j)
  then obtain k' where "k = Suc k'" "j \<le> k'" by (cases k) auto
  with Suc.IH [of k' "snd (draw s)"] show ?case by (simp add: split_beta Let_def)
qed simp

locale id_supply =
  fixes draw :: "'s \<Rightarrow> 'i \<times> 's" and ok :: "'s \<Rightarrow> bool" and pos :: "'s \<Rightarrow> nat"
    and period :: nat and name :: "nat \<Rightarrow> 'i"
  assumes draw_ok: "ok s \<Longrightarrow> draw s = (x, s') \<Longrightarrow> ok s'"
    and draw_name: "ok s \<Longrightarrow> draw s = (x, s') \<Longrightarrow> x = name (pos s)"
    and draw_pos: "ok s \<Longrightarrow> draw s = (x, s') \<Longrightarrow> pos s' = Suc (pos s) mod period"
    and pos_less: "ok s \<Longrightarrow> pos s < period"
    and name_inj: "inj_on name {..<period}"
begin

definition supplied :: "'s \<Rightarrow> nat \<Rightarrow> 'i list \<Rightarrow> 's \<Rightarrow> bool" where
  "supplied s n xs s' \<longleftrightarrow> xs = map (\<lambda>k. name ((pos s + k) mod period)) [0..<n]
     \<and> pos s' = (pos s + n) mod period \<and> ok s'"

lemma draws_supplied:
  assumes "ok s" and "draws draw n s = (xs, s')"
  shows "supplied s n xs s'"
  using assms
proof (induction n arbitrary: s xs)
  case 0
  then show ?case using pos_less by (simp add: supplied_def)
next
  case (Suc n)
  obtain y s1 where d: "draw s = (y, s1)" by fastforce
  obtain ys s2 where ds: "draws draw n s1 = (ys, s2)" by fastforce
  have xs: "xs = y # ys" and s2: "s2 = s'" using Suc.prems(2) d ds by simp_all
  have p1: "pos s1 = Suc (pos s) mod period" using draw_pos [OF Suc.prems(1) d] .
  have y: "y = name (pos s mod period)"
    using draw_name [OF Suc.prems(1) d] pos_less [OF Suc.prems(1)] by simp
  have IH: "supplied s1 n ys s'"
    using Suc.IH [OF draw_ok [OF Suc.prems(1) d]] ds s2 by blast
  then have "ys = map (\<lambda>k. name ((pos s + k) mod period)) (map Suc [0..<n])"
    by (simp add: supplied_def p1 mod_add_left_eq)
  then have "xs = map (\<lambda>k. name ((pos s + k) mod period)) [0..<Suc n]"
    using xs y by (simp add: upt_conv_Cons map_Suc_upt del: upt_Suc)
  with IH show ?case by (simp add: supplied_def p1 mod_add_left_eq)
qed

lemma shifted_less:
  assumes "a \<le> b" and "b < period" and "(p + a) mod period = (p + b) mod period"
  shows "a = (b :: nat)"
proof -
  have "period dvd (p + b) - (p + a)"
    using assms(1,3) by (subst mod_eq_dvd_iff_nat [symmetric]) simp_all
  then have "period dvd b - a" by simp
  moreover have "b - a < period" using assms(2) by simp
  ultimately have "b - a = 0" using nat_dvd_not_less [of "b - a" period] by (cases "b - a = 0") auto
  with assms(1) show ?thesis by simp
qed

lemma shifted_inj: "inj_on (\<lambda>k. (p + k) mod period) {..<period}"
proof (rule inj_onI)
  fix a b assume "a \<in> {..<period}" "b \<in> {..<period}" "(p + a) mod period = (p + b) mod period"
  then show "a = b"
    using shifted_less [of a b p] shifted_less [of b a p] by (cases "a \<le> b") auto
qed

lemma draws_distinct:
  assumes "ok s" and "draws draw n s = (xs, s')" and "n \<le> period"
  shows "distinct xs"
proof -
  have "inj_on (\<lambda>k. name ((pos s + k) mod period)) {..<period}"
  proof (rule comp_inj_on [OF shifted_inj, unfolded comp_def])
    have "(\<lambda>k. (pos s + k) mod period) ` {..<period} \<subseteq> {..<period}"
      using pos_less [OF assms(1)] by auto
    with name_inj show "inj_on name ((\<lambda>k. (pos s + k) mod period) ` {..<period})"
      by (rule inj_on_subset)
  qed
  then have "inj_on (\<lambda>k. name ((pos s + k) mod period)) {0..<n}"
    by (rule inj_on_subset) (use assms(3) in auto)
  then show ?thesis
    using draws_supplied [OF assms(1,2)] by (simp add: supplied_def distinct_map)
qed

end

text \<open>A 64-bit counter that is read and then incremented, as \<open>fetch_add(1)\<close> does.\<close>

lemma counter64_inj: "inj_on (of_nat :: nat \<Rightarrow> u64) {..<2 ^ 64}"
proof (rule inj_onI)
  fix a b :: nat assume ab: "a \<in> {..<2 ^ 64}" "b \<in> {..<2 ^ 64}" and "(of_nat a :: u64) = of_nat b"
  then have "unat (of_nat a :: u64) = unat (of_nat b :: u64)" by (rule_tac arg_cong [where f = unat])
  then have "a mod 2 ^ 64 = b mod 2 ^ 64" unfolding unat_of_nat by simp
  with ab show "a = b" by simp
qed

lemma counter64_next: "unat (x + 1 :: u64) = Suc (unat x) mod 2 ^ 64"
  by (simp add: unat_word_ariths)

end
