(* ===== verification/Reactor.thy ===== *)
theory Reactor
  imports Syscalls IdSupply
begin

text \<open>
  \<open>src/low_level/reactor/mod.rs\<close>: the epoll reactor. It hands out tokens, registers
  descriptors edge-triggered under a token and decodes the kernel's event masks.
\<close>

record reactor_event =
  ev_token :: u64
  ev_readable :: bool
  ev_writable :: bool
  ev_error :: bool

record reactor =
  epfd :: i32
  next_token :: u64
  signalfd :: "i32 option"
  sigchld_token :: "u64 option"

section \<open>Operations\<close>

definition reactor_new :: "'w kernel \<Rightarrow> 'w \<Rightarrow> (sys_error + reactor) \<times> 'w" where
  "reactor_new K w =
     (let (ep, w) = k_epoll_create1 K w in
      case syscall_ret K ep ''epoll_create1'' w of
        Inl e \<Rightarrow> (Inl e, w)
      | Inr _ \<Rightarrow>
          (Inr \<lparr>epfd = ep, next_token = 1, signalfd = None, sigchld_token = None\<rparr>, w))"

definition interest_mask :: "bool \<Rightarrow> bool \<Rightarrow> u32" where
  "interest_mask readable writable =
     (let events = EPOLLET;
          events = (if readable then events OR EPOLLIN else events)
      in if writable then events OR EPOLLOUT else events)"

definition add_with_token :: "'w kernel \<Rightarrow> reactor \<Rightarrow> i32 \<Rightarrow> u64 \<Rightarrow> bool \<Rightarrow> bool \<Rightarrow> 'w \<Rightarrow>
    (sys_error + unit) \<times> 'w" where
  "add_with_token K r raw_fd token readable writable w =
     (let (ret, w) = k_epoll_ctl K (epfd r) raw_fd
            (EPOLL_CTL_ADD (interest_mask readable writable) token) w
      in (syscall_ret K ret ''epoll_ctl_add'' w, w))"

definition take_token :: "reactor \<Rightarrow> u64 \<times> reactor" where
  "take_token r = (next_token r, r\<lparr>next_token := next_token r + 1\<rparr>)"

definition reactor_add :: "'w kernel \<Rightarrow> reactor \<Rightarrow> i32 \<Rightarrow> bool \<Rightarrow> bool \<Rightarrow> 'w \<Rightarrow>
    (sys_error + u64) \<times> reactor \<times> 'w" where
  "reactor_add K r fd readable writable w =
     (let (token, r) = take_token r in
      case add_with_token K r fd token readable writable w of
        (Inl e, w) \<Rightarrow> (Inl e, r, w)
      | (Inr _, w) \<Rightarrow> (Inr token, r, w))"

definition del_raw :: "'w kernel \<Rightarrow> reactor \<Rightarrow> i32 \<Rightarrow> 'w \<Rightarrow> 'w" where
  "del_raw K r raw w = snd (k_epoll_ctl K (epfd r) raw EPOLL_CTL_DEL w)"

definition decode_event :: "u32 \<times> u64 \<Rightarrow> reactor_event" where
  "decode_event ev =
     (let is_read = (fst ev AND EPOLLIN \<noteq> 0); is_write = (fst ev AND EPOLLOUT \<noteq> 0);
          is_err = (fst ev AND (EPOLLERR OR EPOLLHUP) \<noteq> 0)
      in \<lparr>ev_token = snd ev, ev_readable = is_read \<or> is_err, ev_writable = is_write \<or> is_err,
          ev_error = is_err\<rparr>)"

definition reactor_wait :: "'w kernel \<Rightarrow> reactor \<Rightarrow> nat \<Rightarrow> i32 \<Rightarrow> 'w \<Rightarrow>
    (sys_error + reactor_event list) \<times> 'w" where
  "reactor_wait K r max_events timeout w =
     (case k_epoll_wait K (epfd r) max_events timeout w of
        (Some evs, w) \<Rightarrow> (Inr (map decode_event evs), w)
      | (None, w) \<Rightarrow>
          (if k_errno K w = EINTR then (Inr [], w)
           else (Inl (Syscall (k_errno K w) ''epoll_wait''), w)))"

definition reactor_drop :: "'w kernel \<Rightarrow> reactor \<Rightarrow> 'w \<Rightarrow> 'w" where
  "reactor_drop K r w =
     (let w = (if epfd r \<ge> 0 then k_close K (epfd r) w else w) in fd_drop_opt K (signalfd r) w)"

section \<open>Child signals through a signalfd\<close>

definition SIGINFO_SIZE :: nat where "SIGINFO_SIZE = 128"

definition setup_signalfd :: "'w kernel \<Rightarrow> reactor \<Rightarrow> 'w \<Rightarrow> (sys_error + unit) \<times> reactor \<times> 'w" where
  "setup_signalfd K r w =
     (let (ret, w) = k_block_sigchld K w in
      case syscall_ret K ret ''sigprocmask'' w of
        Inl e \<Rightarrow> (Inl e, r, w)
      | Inr _ \<Rightarrow>
          (let (sfd, w) = k_signalfd K w in
           case syscall_ret K sfd ''signalfd'' w of
             Inl e \<Rightarrow> (Inl e, r, w)
           | Inr _ \<Rightarrow>
               (case fd_new K sfd ''signalfd'' w of
                  Inl e \<Rightarrow> (Inl e, r, w)
                | Inr fd \<Rightarrow>
                    (case reactor_add K r fd True False w of
                       (Inl e, r, w) \<Rightarrow> (Inl e, r, fd_drop K fd w)
                     | (Inr token, r, w) \<Rightarrow>
                         (Inr (), r\<lparr>signalfd := Some fd, sigchld_token := Some token\<rparr>,
                          fd_drop_opt K (signalfd r) w)))))"

definition drain_signal_body :: "'w kernel \<Rightarrow> i32 \<Rightarrow> 'w \<Rightarrow> ('w + 'w) option" where
  "drain_signal_body K fd w = do {
     (r, w) \<leftarrow> fd_read K fd SIGINFO_SIZE w;
     Some (case r of Inr bs \<Rightarrow> if length bs < SIGINFO_SIZE then Inl w else Inr w | Inl _ \<Rightarrow> Inl w)
   }"

definition drain_signalfd :: "'w kernel \<Rightarrow> reactor \<Rightarrow> 'w \<Rightarrow> 'w option" where
  "drain_signalfd K r w =
     (case signalfd r of None \<Rightarrow> Some w | Some fd \<Rightarrow> run_loop (drain_signal_body K fd) w)"

section \<open>Lemmas\<close>

lemma reactor_wait_cases:
  assumes "reactor_wait K r n t w = (x, w')"
  obtains (events) evs where "k_epoll_wait K (epfd r) n t w = (Some evs, w')"
      "x = Inr (map decode_event evs)"
  | (interrupted) "k_epoll_wait K (epfd r) n t w = (None, w')" "k_errno K w' = EINTR" "x = Inr []"
  | (failed) "k_epoll_wait K (epfd r) n t w = (None, w')" "k_errno K w' \<noteq> EINTR"
      "x = Inl (Syscall (k_errno K w') ''epoll_wait'')"
  using assms by (auto simp: reactor_wait_def split: prod.splits option.splits if_splits)

lemma decode_event_token [simp]: "ev_token (decode_event ev) = snd ev"
  by (simp add: decode_event_def Let_def)

lemma single_bit_and: "(x AND push_bit n 1 \<noteq> (0 :: u32)) = (bit x n \<and> n < 32)"
proof -
  have "x AND push_bit n 1 = of_bool (bit x n) * push_bit n 1"
    by (rule bit_eqI) (auto simp: bit_simps)
  then show ?thesis by (auto simp: push_bit_eq_mult exp_eq_zero_iff)
qed

lemma event_mask_bits:
  fixes m :: u32
  shows "(m AND 1 \<noteq> 0) = bit m 0" and "(m AND 4 \<noteq> 0) = bit m 2"
    and "(m AND (8 OR 16) \<noteq> 0) = (bit m 3 \<or> bit m 4)"
proof -
  have b: "(x AND 1 \<noteq> (0 :: u32)) = bit x 0" "(x AND 4 \<noteq> (0 :: u32)) = bit x 2"
    "(x AND 8 \<noteq> (0 :: u32)) = bit x 3" "(x AND 16 \<noteq> (0 :: u32)) = bit x 4" for x
    using single_bit_and [of x 0] single_bit_and [of x 2] single_bit_and [of x 3]
      single_bit_and [of x 4]
    by (simp_all add: push_bit_eq_mult)
  have "(m AND (8 OR 16) \<noteq> 0) = (m AND 8 \<noteq> 0 \<or> m AND 16 \<noteq> 0)"
    by (simp only: bit.conj_disj_distrib or_eq_0_iff) simp
  then have e: "(m AND (8 OR 16) \<noteq> 0) = (bit m 3 \<or> bit m 4)" by (simp only: b)
  show "(m AND 1 \<noteq> 0) = bit m 0" "(m AND 4 \<noteq> 0) = bit m 2"
    "(m AND (8 OR 16) \<noteq> 0) = (bit m 3 \<or> bit m 4)"
    using b e by simp_all
qed

lemma event_mask_error: "bit m 4 \<Longrightarrow> ev_error (decode_event (m, t))"
  unfolding decode_event_def Let_def abi_defs reactor_event.simps fst_conv event_mask_bits by simp

section \<open>Tokens\<close>

interpretation tokens: id_supply take_token "\<lambda>_. True" "\<lambda>r. unat (next_token r)" "2 ^ 64"
    "of_nat :: nat \<Rightarrow> u64"
proof (unfold_locales, goal_cases)
  case (3 s x s')
  then show ?case using counter64_next [of "next_token s"] by (auto simp: take_token_def)
next
  case (4 s)
  show ?case using unsigned_less [of "next_token s"] by simp
next
  case 5
  show ?case by (rule counter64_inj)
qed (auto simp: take_token_def)

section \<open>Properties\<close>

text \<open>Event masks. Readability, writability and error are read off the bits 0, 2 and 3 or 4
  of the kernel's mask, an error makes an event readable and writable, the token comes back
  unchanged, and the mask a stream is registered with is edge-triggered and asks for exactly the
  directions wanted.\<close>

theorem event_mask_decoded:
  shows "ev_token (decode_event (m, t)) = t
    \<and> ev_error (decode_event (m, t)) = (bit m 3 \<or> bit m 4)
    \<and> ev_readable (decode_event (m, t)) = (bit m 0 \<or> bit m 3 \<or> bit m 4)
    \<and> ev_writable (decode_event (m, t)) = (bit m 2 \<or> bit m 3 \<or> bit m 4)
    \<and> bit (interest_mask rd wr) 31 \<and> bit (interest_mask rd wr) 0 = rd
    \<and> bit (interest_mask rd wr) 2 = wr"
proof -
  show ?thesis
    unfolding decode_event_def interest_mask_def Let_def abi_defs reactor_event.simps fst_conv
      snd_conv event_mask_bits
    by (auto simp: bit_simps)
qed

end
