(* ===== verification/WaitLoop.thy ===== *)
theory WaitLoop
  imports SpawnFds Reactor
begin

text \<open>
  The synchronous side of \<open>src/low_level/spawn/mod.rs\<close>: \<open>wait_loop\<close>, which drains a child's
  streams through a reactor while it enforces a deadline with a kill escalation, and \<open>spawn\<close>,
  which starts a process and waits for it.
\<close>

section \<open>Kill escalation\<close>

datatype kill_state = KillNone | TermSent | KillSent

text \<open>The signal a poll after the deadline sends, and the state it leads to.\<close>

definition escalation_signal :: "sys_cancel_policy \<Rightarrow> bool \<Rightarrow> kill_state \<Rightarrow> i32 option" where
  "escalation_signal cancel over_grace ks =
     (case ks of
        KillNone \<Rightarrow>
          if cancel = SysCancelGraceful then Some SIGTERM
          else if cancel = SysCancelKill then Some SIGKILL else None
      | TermSent \<Rightarrow> if over_grace then Some SIGKILL else None
      | KillSent \<Rightarrow> None)"

definition escalate :: "'w kernel \<Rightarrow> process \<Rightarrow> bool \<Rightarrow> sys_cancel_policy \<Rightarrow> bool \<Rightarrow> kill_state \<Rightarrow>
    'w \<Rightarrow> kill_state \<times> 'w" where
  "escalate K p is_group cancel over_grace ks w =
     (case escalation_signal cancel over_grace ks of
        None \<Rightarrow> (ks, w)
      | Some sig \<Rightarrow>
          (let (r, w) = (if is_group then kill_pgroup K p sig w else process_kill K p sig w)
           in (if sig = SIGTERM \<and> (\<exists>u. r = Inr u) then TermSent else KillSent, w)))"

section \<open>Reactor events on the drain\<close>

definition has_token :: "fd_slot option \<Rightarrow> u64 \<Rightarrow> bool" where
  "has_token s t \<longleftrightarrow> (case s of None \<Rightarrow> False | Some x \<Rightarrow> slot_token x = t)"

definition del_and_drop :: "'w kernel \<Rightarrow> reactor \<Rightarrow> fd_slot option \<Rightarrow> 'w \<Rightarrow> 'w" where
  "del_and_drop K r s w =
     (case s of None \<Rightarrow> w | Some x \<Rightarrow> fd_drop K (slot_fd x) (del_raw K r (slot_fd x) w))"

definition drop_error_slot :: "'w kernel \<Rightarrow> reactor \<Rightarrow> drain_state \<Rightarrow> u64 \<Rightarrow> 'w \<Rightarrow>
    drain_state \<times> 'w" where
  "drop_error_slot K r d t w =
     (if has_token (stdout_slot d) t
      then (d\<lparr>stdout_slot := None\<rparr>, del_and_drop K r (stdout_slot d) w)
      else if has_token (stderr_slot d) t
      then (d\<lparr>stderr_slot := None\<rparr>, del_and_drop K r (stderr_slot d) w)
      else if has_token (stdin_slot d) t
      then (d\<lparr>stdin_slot := None, drain_writer := (drain_writer d)\<lparr>wr_buf := None\<rparr>\<rparr>,
            del_and_drop K r (stdin_slot d) w)
      else (d, w))"

text \<open>\<open>let _ = ...?\<close>: a finished slot is dropped, an error is passed on.\<close>

definition discard_slot :: "'w kernel \<Rightarrow> (sys_error + fd_slot option) \<times> drain_state \<times> 'w \<Rightarrow>
    (sys_error + unit) \<times> drain_state \<times> 'w" where
  "discard_slot K x =
     (case x of
        (Inl e, d, w) \<Rightarrow> (Inl e, d, w)
      | (Inr s, d, w) \<Rightarrow> (Inr (), d, drop_slot K s w))"

definition on_event :: "'w kernel \<Rightarrow> reactor \<Rightarrow> reactor_event \<Rightarrow> drain_state \<Rightarrow> 'w \<Rightarrow>
    ((sys_error + unit) \<times> drain_state \<times> 'w) option" where
  "on_event K r ev d w =
     (if ev_error ev then
        (let (d, w) = drop_error_slot K r d (ev_token ev) w in Some (Inr (), d, w))
      else if has_token (stdout_slot d) (ev_token ev) \<and> ev_readable ev then
        map_option (discard_slot K) (read_fd K True d w)
      else if has_token (stderr_slot d) (ev_token ev) \<and> ev_readable ev then
        map_option (discard_slot K) (read_fd K False d w)
      else if has_token (stdin_slot d) (ev_token ev) \<and> ev_writable ev then
        map_option (discard_slot K) (write_stdin K d w)
      else Some (Inr (), d, w))"

fun on_events :: "'w kernel \<Rightarrow> reactor \<Rightarrow> reactor_event list \<Rightarrow> drain_state \<Rightarrow> 'w \<Rightarrow>
    ((sys_error + unit) \<times> drain_state \<times> 'w) option" where
  "on_events K r [] d w = Some (Inr (), d, w)"
| "on_events K r (ev # evs) d w = do {
     (x, d, w) \<leftarrow> on_event K r ev d w;
     case x of Inl e \<Rightarrow> Some (Inl e, d, w) | Inr _ \<Rightarrow> on_events K r evs d w
   }"

section \<open>The loop\<close>

record spawn_output =
  cap_pid :: i32
  cap_status :: "exit_status option"
  cap_stdout :: bytes
  cap_stderr :: bytes
  cap_timed_out :: bool

record wait_state =
  ws_status :: "exit_status option"
  ws_kill :: kill_state
  ws_timed_out :: bool
  ws_drain :: drain_state

record wait_params =
  wp_process :: process
  wp_reactor :: reactor
  wp_deadline :: "instant option"
  wp_grace_ms :: u32
  wp_cancel :: sys_cancel_policy
  wp_is_group :: bool

text \<open>The deadline check: the poll timeout, and the kill escalation once it has passed.\<close>

definition check_deadline :: "'w kernel \<Rightarrow> wait_params \<Rightarrow> wait_state \<Rightarrow> 'w \<Rightarrow>
    i32 \<times> wait_state \<times> 'w" where
  "check_deadline K P s w =
     (case wp_deadline P of
        None \<Rightarrow> (-1, s, w)
      | Some dl \<Rightarrow>
          (let (e, w) = k_std K w; now = env_now e in
           if now \<ge> dl then
             (let over = as_millis (now - dl) > unat (wp_grace_ms P);
                  (ks, w) = escalate K (wp_process P) (wp_is_group P) (wp_cancel P) over (ws_kill s) w
              in (100, s\<lparr>ws_timed_out := True, ws_kill := ks\<rparr>, w))
           else (min (int (as_millis (dl - now))) i32_max, s, w)))"

text \<open>Leaving the function: the reactor and the drain are dropped.\<close>

definition abandon :: "'w kernel \<Rightarrow> wait_params \<Rightarrow> drain_state \<Rightarrow> 'w \<Rightarrow> 'w" where
  "abandon K P d w = snd (drain_into_parts K d (reactor_drop K (wp_reactor P) w))"

definition finish :: "'w kernel \<Rightarrow> wait_params \<Rightarrow> wait_state \<Rightarrow> exit_status \<Rightarrow> 'w \<Rightarrow> spawn_output \<times> 'w" where
  "finish K P s st w =
     (let (slots, d) = take_all_slots (ws_drain s);
          w = fold (\<lambda>x w. del_and_drop K (wp_reactor P) (Some x) w) slots w;
          ((out, err), w) = drain_into_parts K d w
      in (\<lparr>cap_pid = proc_pid (wp_process P), cap_status = Some st, cap_stdout = out,
           cap_stderr = err, cap_timed_out = ws_timed_out s\<rparr>,
          reactor_drop K (wp_reactor P) w))"

definition poll_ms :: "i32 \<Rightarrow> exit_status option \<Rightarrow> i32" where
  "poll_ms poll_timeout status =
     (if status \<noteq> None then if poll_timeout = -1 \<or> poll_timeout > 1 then 1 else poll_timeout
      else poll_timeout)"

definition wait_body :: "'w kernel \<Rightarrow> wait_params \<Rightarrow> wait_state \<times> 'w \<Rightarrow>
    (((sys_error + spawn_output) \<times> 'w) + (wait_state \<times> 'w)) option" where
  "wait_body K P = (\<lambda>(s, w). do {
     let (poll_timeout, s, w) = check_deadline K P s w;
     (st, w) \<leftarrow> (if ws_status s = None then wait_step K (wp_process P) w
                 else Some (Inr (ws_status s), w));
     case st of
       Inl e \<Rightarrow> Some (Inl (Inl e, abandon K P (ws_drain s) w))
     | Inr status \<Rightarrow>
         if is_done (ws_drain s) then do {
           (fs, w) \<leftarrow> (case status of Some x \<Rightarrow> Some (Inr x, w)
                      | None \<Rightarrow> wait_blocking K (wp_process P) w);
           Some (Inl (case fs of
               Inl e \<Rightarrow> (Inl e, abandon K P (ws_drain s) w)
             | Inr x \<Rightarrow> (let (out, w) = finish K P s x w in (Inr out, w))))
         }
         else
           (case reactor_wait K (wp_reactor P) 64 (poll_ms poll_timeout status) w of
              (Inl e, w) \<Rightarrow> Some (Inl (Inl e, abandon K P (ws_drain s) w))
            | (Inr evs, w) \<Rightarrow> do {
                (x, d, w) \<leftarrow> on_events K (wp_reactor P) (take 64 evs) (ws_drain s) w;
                Some (case x of
                    Inl e \<Rightarrow> Inl (Inl e, abandon K P d w)
                  | Inr _ \<Rightarrow> Inr (s\<lparr>ws_status := status, ws_drain := d\<rparr>, w))
              })
   })"

definition wait_loop :: "'w kernel \<Rightarrow> i32 \<Rightarrow> drain_state \<Rightarrow> reactor \<Rightarrow> u32 option \<Rightarrow> u32 \<Rightarrow>
    sys_cancel_policy \<Rightarrow> process_group \<Rightarrow> 'w \<Rightarrow> ((sys_error + spawn_output) \<times> 'w) option" where
  "wait_loop K pid d r timeout_ms grace cancel pg w = do {
     (st, w) \<leftarrow> wait_step K \<lparr>proc_pid = pid\<rparr> w;
     case st of
       Inl e \<Rightarrow> Some (Inl e, snd (drain_into_parts K d (reactor_drop K r w)))
     | Inr status \<Rightarrow>
         (let (deadline, w) = (case timeout_ms of
                None \<Rightarrow> (None, w)
              | Some t \<Rightarrow> (let (e, w) = k_std K w in (Some (env_now e + from_millis (unat t)), w)))
          in run_loop (wait_body K \<lparr>wp_process = \<lparr>proc_pid = pid\<rparr>, wp_reactor = r,
                 wp_deadline = deadline, wp_grace_ms = grace, wp_cancel = cancel,
                 wp_is_group = pg_isolated pg \<or> pg_leader pg \<noteq> None\<rparr>)
               (\<lparr>ws_status = status, ws_kill = KillNone, ws_timed_out = False, ws_drain = d\<rparr>, w))
   }"

section \<open>Synchronous execution\<close>

text \<open>Each slot is registered and its descriptor is then forgotten (never closed).\<close>

fun watch_slots :: "'w kernel \<Rightarrow> reactor \<Rightarrow> fd_slot list \<Rightarrow> 'w \<Rightarrow> (sys_error + unit) \<times> 'w" where
  "watch_slots K r [] w = (Inr (), w)"
| "watch_slots K r (s # ss) w =
     (case add_with_token K r (slot_fd s) (slot_token s) True True w of
        (Inl e, w) \<Rightarrow> (Inl e, fold (\<lambda>x w. drop_slot K (Some x) w) (s # ss) w)
      | (Inr _, w) \<Rightarrow> watch_slots K r ss w)"

definition spawn :: "'w kernel \<Rightarrow> spawn_options \<Rightarrow> 'w \<Rightarrow> ((sys_error + spawn_output) \<times> 'w) option" where
  "spawn K opts w =
     (case reactor_new K w of
        (Inl e, w) \<Rightarrow> Some (Inl e, w)
      | (Inr r, w) \<Rightarrow> do {
          (x, w) \<leftarrow> spawn_start K 0 opts w;
          case x of
            Inl e \<Rightarrow> Some (Inl e, reactor_drop K r w)
          | Inr run \<Rightarrow>
              (let pid = proc_pid (run_process run);
                   (slots, d) = take_all_slots (run_drain run)
               in case watch_slots K r slots w of
                 (Inl e, w) \<Rightarrow> Some (Inl e, reactor_drop K r (snd (drain_into_parts K d w)))
               | (Inr _, w) \<Rightarrow>
                   if \<not> opt_wait opts then
                     (let ((out, err), w) = drain_into_parts K d w
                      in Some (Inr \<lparr>cap_pid = pid, cap_status = None, cap_stdout = out,
                            cap_stderr = err, cap_timed_out = False\<rparr>, reactor_drop K r w))
                   else
                     wait_loop K pid d r (opt_timeout_ms opts) (opt_kill_grace_ms opts)
                       (opt_cancel opts) (opt_pgroup opts) w)
        })"

section \<open>Escalation as a state machine\<close>

text \<open>One poll: the signal it sends, if any, and the states before and after.\<close>

inductive kill_step :: "sys_cancel_policy \<Rightarrow> kill_state \<Rightarrow> i32 list \<Rightarrow> kill_state \<Rightarrow> bool"
  for cancel where
  quiet: "kill_step cancel ks [] ks"
| term_ok: "cancel = SysCancelGraceful \<Longrightarrow> kill_step cancel KillNone [SIGTERM] TermSent"
| term_failed: "cancel = SysCancelGraceful \<Longrightarrow> kill_step cancel KillNone [SIGTERM] KillSent"
| kill_now: "cancel = SysCancelKill \<Longrightarrow> kill_step cancel KillNone [SIGKILL] KillSent"
| kill_late: "kill_step cancel TermSent [SIGKILL] KillSent"

inductive_cases kill_stepE: "kill_step cancel ks sigs ks'"

text \<open>The signals of a whole run of polls.\<close>

inductive kill_run :: "sys_cancel_policy \<Rightarrow> kill_state \<Rightarrow> i32 list \<Rightarrow> kill_state \<Rightarrow> bool"
  for cancel where
  start: "kill_run cancel ks [] ks"
| step: "kill_run cancel ks sigs ks1 \<Longrightarrow> kill_step cancel ks1 later ks2 \<Longrightarrow>
    kill_run cancel ks (sigs @ later) ks2"

lemma escalate_step:
  assumes "escalate K p g cancel over ks w = (ks', w')"
  shows "kill_step cancel ks
    (case escalation_signal cancel over ks of None \<Rightarrow> [] | Some s \<Rightarrow> [s]) ks'"
  using assms
  by (cases ks; cases cancel)
    (auto simp: escalate_def escalation_signal_def SIGTERM_def SIGKILL_def Let_def
      intro: kill_step.intros [unfolded SIGTERM_def SIGKILL_def] split: prod.splits if_splits)

lemma kill_run_signals:
  assumes "kill_run cancel KillNone sigs ks"
  shows "(ks = KillNone \<and> sigs = []) \<or>
    (ks = TermSent \<and> cancel = SysCancelGraceful \<and> sigs = [SIGTERM]) \<or>
    (ks = KillSent \<and> (cancel = SysCancelGraceful \<and> sigs \<in> {[SIGTERM], [SIGTERM, SIGKILL]}
       \<or> cancel = SysCancelKill \<and> sigs = [SIGKILL]))"
  using assms
proof (induction KillNone sigs ks rule: kill_run.induct)
  case (step sigs ks1 later ks2)
  from step(3) show ?case
    by (cases rule: kill_stepE) (use step(2) in auto)
qed simp

section \<open>Invariant of the loop\<close>

lemma wf_drain_slots [simp]:
  "wf_drain (d\<lparr>stdout_slot := s\<rparr>) = wf_drain d" "wf_drain (d\<lparr>stderr_slot := s\<rparr>) = wf_drain d"
  "wf_drain (d\<lparr>stdin_slot := s\<rparr>) = wf_drain d"
  by (simp_all add: wf_drain_def)

lemma wf_drain_drop_buf [simp]:
  "wf_drain d \<Longrightarrow> wf_drain (d\<lparr>stdin_slot := s, drain_writer := wr\<lparr>wr_buf := None\<rparr>\<rparr>)"
  by (simp add: wf_drain_def)

lemma discard_slot_drain: "fst (snd (discard_slot K x)) = fst (snd x)"
  by (cases x) (auto simp: discard_slot_def split: sum.split)

lemma on_event_cases:
  assumes "on_event K r ev d w = Some (x, d', w')"
  obtains (out) y v where "read_fd K True d w = Some (y, d', v)"
  | (err) y v where "read_fd K False d w = Some (y, d', v)"
  | (inp) y v where "write_stdin K d w = Some (y, d', v)"
  | (cut) "drain_buffer d' = drain_buffer d" "stdout_slot d' \<in> {None, stdout_slot d}"
      "stderr_slot d' \<in> {None, stderr_slot d}" "wf_drain d \<Longrightarrow> wf_drain d'"
proof (cases "ev_error ev")
  case True
  with assms cut show thesis by (auto simp: on_event_def drop_error_slot_def split: if_splits)
next
  case False
  have disc: "\<exists>y v. z = (y, d', v)" if "discard_slot K z = (x, d', w')" for z
    using discard_slot_drain [of K z] that by (cases z) auto
  consider (o) z where "read_fd K True d w = Some z" "discard_slot K z = (x, d', w')"
    | (e) z where "read_fd K False d w = Some z" "discard_slot K z = (x, d', w')"
    | (i) z where "write_stdin K d w = Some z" "discard_slot K z = (x, d', w')"
    | (n) "d' = d"
    using assms False by (auto simp: on_event_def split: if_splits)
  then show thesis
  proof cases
    case o
    with disc [OF o(2)] out show thesis by auto
  next
    case e
    with disc [OF e(2)] err show thesis by auto
  next
    case i
    with disc [OF i(2)] inp show thesis by auto
  qed (use cut in simp)
qed

lemma on_event_wf:
  assumes "read_bounded K" and "write_bounded K" and "on_event K r ev d w = Some (x, d', w')"
    and "wf_drain d"
  shows "wf_drain d' \<and> buf_limit (drain_buffer d') = buf_limit (drain_buffer d)"
proof -
  have rd: "buf_limit (drain_buffer d') = buf_limit (drain_buffer d)"
    if "read_fd K out d w = Some (y, d', v)" for out y v
    using that
    by (cases rule: read_fd_cases) (auto elim!: read_from_fd_cases split: if_splits)
  from assms(3) show ?thesis
  proof (cases rule: on_event_cases)
    case (out y v)
    with wf_drain_read_fd [OF assms(1) out assms(4)] rd show ?thesis by blast
  next
    case (err y v)
    with wf_drain_read_fd [OF assms(1) err assms(4)] rd show ?thesis by blast
  next
    case (inp y v)
    with wf_drain_write_stdin [OF assms(2) inp assms(4)] write_stdin_frame(3) [OF inp] show ?thesis by simp
  next
    case cut
    with assms(4) show ?thesis by simp
  qed
qed

lemma on_events_wf:
  assumes "read_bounded K" and "write_bounded K" and "on_events K r evs d w = Some (x, d', w')"
    and "wf_drain d"
  shows "wf_drain d' \<and> buf_limit (drain_buffer d') = buf_limit (drain_buffer d)"
  using assms(3,4)
proof (induction evs arbitrary: d w)
  case (Cons ev evs)
  from Cons.prems(1) obtain y d1 w1 where y: "on_event K r ev d w = Some (y, d1, w1)"
    and rest: "(case y of Inl e \<Rightarrow> Some (Inl e, d1, w1) | Inr _ \<Rightarrow> on_events K r evs d1 w1) =
      Some (x, d', w')"
    by (auto simp: bind_eq_Some_conv)
  note one = on_event_wf [OF assms(1,2) y Cons.prems(2)]
  show ?case
  proof (cases y)
    case (Inl e)
    with rest one show ?thesis by simp
  next
    case (Inr u)
    with rest one Cons.IH [of d1 w1] show ?thesis by simp
  qed
qed simp

section \<open>What the loop gathers\<close>

text \<open>
  \<open>taken K s xs\<close>: \<open>xs\<close> is what the kernel delivered, over any number of reads, on the descriptor
  of slot \<open>s\<close>. \<open>grown K limit d d'\<close>: the two buffers of \<open>d'\<close> are those of \<open>d\<close> followed by bytes taken
  from the slot each belongs to, cut off at the limit.
\<close>

inductive taken :: "'w kernel \<Rightarrow> fd_slot option \<Rightarrow> bytes \<Rightarrow> bool" for K s where
  nothing: "taken K s []"
| more: "taken K s xs \<Longrightarrow> s = Some sl \<Longrightarrow> delivers K (slot_fd sl) v bs v' \<Longrightarrow> taken K s (xs @ bs)"

lemma taken_append: "taken K s ys \<Longrightarrow> taken K s xs \<Longrightarrow> taken K s (xs @ ys)"
proof (induction rule: taken.induct)
  case (more ys sl v bs v')
  from taken.more [OF more.IH [OF more.prems] more.hyps(2,3)] show ?case by simp
qed simp

lemma taken_None: "taken K None xs \<Longrightarrow> xs = []"
  by (cases rule: taken.cases) auto

definition grown :: "'w kernel \<Rightarrow> usize \<Rightarrow> drain_state \<Rightarrow> drain_state \<Rightarrow> bool" where
  "grown K limit d d' \<longleftrightarrow> (\<exists>xs ys. taken K (stdout_slot d) xs \<and> taken K (stderr_slot d) ys
     \<and> elems (buf_stdout (drain_buffer d')) = take limit (elems (buf_stdout (drain_buffer d)) @ xs)
     \<and> elems (buf_stderr (drain_buffer d')) = take limit (elems (buf_stderr (drain_buffer d)) @ ys)
     \<and> stdout_slot d' \<in> {None, stdout_slot d} \<and> stderr_slot d' \<in> {None, stderr_slot d})"

lemma grownI:
  assumes "taken K (stdout_slot d) xs" and "taken K (stderr_slot d) ys"
    and "elems (buf_stdout (drain_buffer d')) = take limit (elems (buf_stdout (drain_buffer d)) @ xs)"
    and "elems (buf_stderr (drain_buffer d')) = take limit (elems (buf_stderr (drain_buffer d)) @ ys)"
    and "stdout_slot d' \<in> {None, stdout_slot d}" and "stderr_slot d' \<in> {None, stderr_slot d}"
  shows "grown K limit d d'"
  using assms unfolding grown_def by blast

lemma grown_same:
  assumes "wf_drain d" and "drain_buffer d' = drain_buffer d" and "stdout_slot d' \<in> {None, stdout_slot d}"
    and "stderr_slot d' \<in> {None, stderr_slot d}"
  shows "grown K (buf_limit (drain_buffer d)) d d'"
  using assms by (intro grownI [OF taken.nothing taken.nothing]) (simp_all add: wf_drain_def)

lemma grown_trans:
  assumes "grown K limit d d1" and "grown K limit d1 d2"
  shows "grown K limit d d2"
proof -
  have sub: "taken K s xs" if "taken K s' xs" "s' \<in> {None, s}" for s s' xs
    using that taken_None [of K xs] by (auto intro: taken.nothing)
  from assms(1) obtain xs ys where 1: "taken K (stdout_slot d) xs" "taken K (stderr_slot d) ys"
    "elems (buf_stdout (drain_buffer d1)) = take limit (elems (buf_stdout (drain_buffer d)) @ xs)"
    "elems (buf_stderr (drain_buffer d1)) = take limit (elems (buf_stderr (drain_buffer d)) @ ys)"
    "stdout_slot d1 \<in> {None, stdout_slot d}" "stderr_slot d1 \<in> {None, stderr_slot d}"
    by (auto simp: grown_def)
  from assms(2) obtain us vs where 2: "taken K (stdout_slot d1) us" "taken K (stderr_slot d1) vs"
    "elems (buf_stdout (drain_buffer d2)) = take limit (elems (buf_stdout (drain_buffer d1)) @ us)"
    "elems (buf_stderr (drain_buffer d2)) = take limit (elems (buf_stderr (drain_buffer d1)) @ vs)"
    "stdout_slot d2 \<in> {None, stdout_slot d1}" "stderr_slot d2 \<in> {None, stderr_slot d1}"
    by (auto simp: grown_def)
  have join: "take n (take n a @ b) @ [] = take n (a @ b)" for n and a b :: bytes
    by (cases "length a \<le> n") simp_all
  have "elems (buf_stdout (drain_buffer d2)) = take limit (elems (buf_stdout (drain_buffer d)) @ xs @ us)"
    "elems (buf_stderr (drain_buffer d2)) = take limit (elems (buf_stderr (drain_buffer d)) @ ys @ vs)"
    using join [of limit "elems (buf_stdout (drain_buffer d)) @ xs" us]
      join [of limit "elems (buf_stderr (drain_buffer d)) @ ys" vs]
    unfolding 2(3,4) 1(3,4) append_Nil2 append_assoc by this+
  moreover have "stdout_slot d2 \<in> {None, stdout_slot d}" "stderr_slot d2 \<in> {None, stderr_slot d}"
    using 1(5,6) 2(5,6) by auto
  ultimately show ?thesis
    by (rule grownI [OF taken_append [OF sub [OF 2(1) 1(5)] 1(1)] taken_append [OF sub [OF 2(2) 1(6)] 1(2)]])
qed

lemma read_fd_grown:
  assumes "read_bounded K" and "read_fd K out d w = Some (r, d', w')" and "wf_drain d"
  shows "grown K (buf_limit (drain_buffer d)) d d'"
  using assms(2)
proof (cases rule: read_fd_cases)
  case empty
  then show ?thesis by (intro grown_same [OF assms(3)]) simp_all
next
  case (ran s q b)
  let ?b = "drain_buffer d" and ?dest = "if out then buf_stdout (drain_buffer d) else buf_stderr (drain_buffer d)"
  from ran(2) obtain dest where loop: "read_loop K (slot_fd s) (buf_limit ?b)
      (if out then drain_early_exit d else None) ?dest w = Some (q, dest, w')"
    and b: "b = (if out then ?b\<lparr>buf_stdout := dest\<rparr> else ?b\<lparr>buf_stderr := dest\<rparr>)"
    by (rule read_from_fd_cases)
  have "max (buf_limit ?b) (length (elems ?dest)) = buf_limit ?b"
    using assms(3) by (simp add: wf_drain_def)
  with read_loop_drained [OF assms(1) loop] obtain bs where bs: "delivers K (slot_fd s) w bs w'"
    "elems dest = take (buf_limit ?b) (elems ?dest @ bs)"
    by (auto simp: drained_def)
  have tk: "taken K (Some s) bs" using taken.more [OF taken.nothing refl bs(1)] by simp
  have le: "length (elems (buf_stdout ?b)) \<le> buf_limit ?b" "length (elems (buf_stderr ?b)) \<le> buf_limit ?b"
    using assms(3) by (simp_all add: wf_drain_def)
  show ?thesis
  proof (cases out)
    case True
    show ?thesis
      by (rule grownI [where xs = bs and ys = "[]"])
        (use True ran(1,4) b bs tk le in \<open>auto intro: taken.nothing\<close>)
  next
    case False
    show ?thesis
      by (rule grownI [where xs = "[]" and ys = bs])
        (use False ran(1,4) b bs tk le in \<open>auto intro: taken.nothing\<close>)
  qed
qed

lemma on_event_grown:
  assumes "read_bounded K" and "on_event K r ev d w = Some (x, d', w')" and "wf_drain d"
  shows "grown K (buf_limit (drain_buffer d)) d d'"
  using assms(2)
proof (cases rule: on_event_cases)
  case (inp y v)
  from write_stdin_frame(1-3) [OF inp] show ?thesis by (intro grown_same [OF assms(3)]) simp_all
next
  case cut
  from cut(1-3) show ?thesis by (rule grown_same [OF assms(3)])
qed (use read_fd_grown [OF assms(1) _ assms(3)] in blast)+

lemma on_events_grown:
  assumes "read_bounded K" and "write_bounded K" and "on_events K r evs d w = Some (x, d', w')"
    and "wf_drain d"
  shows "grown K (buf_limit (drain_buffer d)) d d'"
  using assms(3,4)
proof (induction evs arbitrary: d w)
  case Nil
  then show ?case by (intro grown_same) simp_all
next
  case (Cons ev evs)
  from Cons.prems(1) obtain y d1 w1 where y: "on_event K r ev d w = Some (y, d1, w1)"
    and rest: "(case y of Inl e \<Rightarrow> Some (Inl e, d1, w1) | Inr _ \<Rightarrow> on_events K r evs d1 w1) =
      Some (x, d', w')"
    by (auto simp: bind_eq_Some_conv)
  note one = on_event_wf [OF assms(1,2) y Cons.prems(2)]
  note g = on_event_grown [OF assms(1) y Cons.prems(2)]
  show ?case
  proof (cases y)
    case (Inl e)
    with rest g show ?thesis by simp
  next
    case (Inr u)
    with rest one Cons.IH [of d1 w1] have "grown K (buf_limit (drain_buffer d)) d1 d'" by simp
    with g show ?thesis by (rule grown_trans)
  qed
qed

text \<open>What a wait may report: the decoded outcome of a \<open>waitpid\<close> for the process.\<close>

definition reported :: "'w kernel \<Rightarrow> i32 \<Rightarrow> exit_status \<Rightarrow> bool" where
  "reported K pid st \<longleftrightarrow> (\<exists>nohang v ret v'. waitpid_call K pid nohang v = Some (ret, v') \<and>
     (case ret of Some (r, raw) \<Rightarrow> st = decode_status raw \<and> (nohang \<longrightarrow> r \<noteq> 0)
      | None \<Rightarrow> k_errno K v' = ECHILD \<and> st = Exited 0))"

lemma waited_reported: "waited K pid nohang (Inr (Some st), w') \<Longrightarrow> reported K pid st"
  unfolding waited_def reported_def
  by (elim exE conjE) (rule exI, rule exI, rule exI, rule exI, rule conjI, assumption,
    auto split: option.splits if_splits)

text \<open>What a finished round leaves of the state, and the result of the loop.\<close>

definition wait_inv :: "'w kernel \<Rightarrow> drain_state \<Rightarrow> wait_params \<Rightarrow> wait_state \<Rightarrow> bool" where
  "wait_inv K d0 P s \<longleftrightarrow> wf_drain (ws_drain s)
     \<and> buf_limit (drain_buffer (ws_drain s)) = buf_limit (drain_buffer d0)
     \<and> grown K (buf_limit (drain_buffer d0)) d0 (ws_drain s)
     \<and> (\<forall>st. ws_status s = Some st \<longrightarrow> reported K (proc_pid (wp_process P)) st) \<and>
     (wp_deadline P = None \<longrightarrow> \<not> ws_timed_out s) \<and>
     (\<exists>sigs. kill_run (wp_cancel P) KillNone sigs (ws_kill s))"

definition wait_result :: "'w kernel \<Rightarrow> drain_state \<Rightarrow> wait_params \<Rightarrow>
    (sys_error + spawn_output) \<times> 'w \<Rightarrow> bool" where
  "wait_result K d0 P x \<longleftrightarrow> (\<forall>out. fst x = Inr out \<longrightarrow>
     cap_pid out = proc_pid (wp_process P) \<and>
     (\<exists>st. cap_status out = Some st \<and> reported K (proc_pid (wp_process P)) st) \<and>
     (\<exists>d. grown K (buf_limit (drain_buffer d0)) d0 d \<and> is_done d
        \<and> cap_stdout out = elems (buf_stdout (drain_buffer d))
        \<and> cap_stderr out = elems (buf_stderr (drain_buffer d))) \<and>
     (wp_deadline P = None \<longrightarrow> \<not> cap_timed_out out))"

lemma check_deadline_inv:
  assumes "check_deadline K P s w = (t, s', w')" and "wait_inv K d0 P s"
  shows "wait_inv K d0 P s'" and "ws_drain s' = ws_drain s" and "ws_status s' = ws_status s"
proof -
  have "wait_inv K d0 P s' \<and> ws_drain s' = ws_drain s \<and> ws_status s' = ws_status s"
  proof (cases "wp_deadline P")
    case None
    with assms show ?thesis by (simp add: check_deadline_def)
  next
    case (Some dl)
    obtain e w1 where e: "k_std K w = (e, w1)" by fastforce
    show ?thesis
    proof (cases "env_now e \<ge> dl")
      case True
      obtain ks w2 where ks: "escalate K (wp_process P) (wp_is_group P) (wp_cancel P)
          (as_millis (env_now e - dl) > unat (wp_grace_ms P)) (ws_kill s) w1 = (ks, w2)"
        by fastforce
      from assms(2) obtain sigs where "kill_run (wp_cancel P) KillNone sigs (ws_kill s)"
        by (auto simp: wait_inv_def)
      from kill_run.step [OF this escalate_step [OF ks]] assms e Some True ks show ?thesis
        by (auto simp: check_deadline_def wait_inv_def Let_def)
    next
      case False
      with assms e Some show ?thesis by (auto simp: check_deadline_def)
    qed
  qed
  then show "wait_inv K d0 P s'" and "ws_drain s' = ws_drain s" and "ws_status s' = ws_status s"
    by simp_all
qed

lemma take_all_slots_buffer: "drain_buffer (snd (take_all_slots d)) = drain_buffer d"
  by (simp add: take_all_slots_def)

lemma finish_output:
  "fst (finish K P s st w) = \<lparr>cap_pid = proc_pid (wp_process P), cap_status = Some st,
     cap_stdout = elems (buf_stdout (drain_buffer (ws_drain s))),
     cap_stderr = elems (buf_stderr (drain_buffer (ws_drain s))), cap_timed_out = ws_timed_out s\<rparr>"
  by (simp add: finish_def drain_into_parts_def buffer_into_parts_def take_all_slots_buffer
      split_beta Let_def)

lemma finish_result:
  assumes "wait_inv K d0 P s" and "is_done (ws_drain s)" and "reported K (proc_pid (wp_process P)) st"
  shows "wait_result K d0 P (Inr (fst (finish K P s st w)), w')"
  using assms by (auto simp: wait_result_def wait_inv_def finish_output)

text \<open>One round of the loop, by how it ends.\<close>

lemma wait_body_cases:
  assumes "wait_body K P (s, w) = Some x"
  obtains (failed) e w' where "x = Inl (Inl e, w')"
  | (finished) t s1 w1 st w2 w3 where "check_deadline K P s w = (t, s1, w1)" "is_done (ws_drain s1)"
      "ws_status s1 = Some st \<or> reported K (proc_pid (wp_process P)) st"
      "x = Inl (Inr (fst (finish K P s1 st w2)), w3)"
  | (again) t s1 w1 st r evs w2 d w3 where "check_deadline K P s w = (t, s1, w1)"
      "\<not> is_done (ws_drain s1)"
      "\<forall>y. st = Some y \<longrightarrow> ws_status s1 = Some y \<or> reported K (proc_pid (wp_process P)) y"
      "on_events K (wp_reactor P) evs (ws_drain s1) w2 = Some (Inr r, d, w3)"
      "x = Inr (s1\<lparr>ws_status := st, ws_drain := d\<rparr>, w3)"
proof -
  obtain t s1 w1 where cd: "check_deadline K P s w = (t, s1, w1)" by (rule prod_cases3)
  from assms cd obtain st w2 where st: "(if ws_status s1 = None then wait_step K (wp_process P) w1
      else Some (Inr (ws_status s1), w1)) = Some (st, w2)"
    by (auto simp: wait_body_def Let_def bind_eq_Some_conv)
  show thesis
  proof (cases st)
    case (Inl e)
    with assms cd st show thesis by (auto simp: wait_body_def Let_def intro: failed)
  next
    case (Inr status)
    have known: "ws_status s1 = Some y \<or> reported K (proc_pid (wp_process P)) y" if "status = Some y" for y
      using st Inr that wait_step_waited [of K "wp_process P" w1 "(Inr (Some y), w2)"]
      by (auto split: if_splits intro: waited_reported)
    show thesis
    proof (cases "is_done (ws_drain s1)")
      case True
      with assms cd st Inr obtain fs w3 where fs: "(case status of Some x \<Rightarrow> Some (Inr x, w2)
            | None \<Rightarrow> wait_blocking K (wp_process P) w2) = Some (fs, w3)"
        by (auto simp: wait_body_def Let_def bind_eq_Some_conv)
      show thesis
      proof (cases fs)
        case (Inl e)
        with assms cd st Inr True fs show thesis
          by (auto simp: wait_body_def Let_def intro: failed)
      next
        case fs_Inr: (Inr y)
        have y: "ws_status s1 = Some y \<or> reported K (proc_pid (wp_process P)) y"
        proof (cases status)
          case None
          with fs fs_Inr have "wait_blocking K (wp_process P) w2 = Some (Inr y, w3)" by simp
          from wait_blocking_waited [OF this] show ?thesis by (auto intro: waited_reported)
        next
          case (Some z)
          with fs fs_Inr known show ?thesis by simp
        qed
        obtain out w4 where f: "finish K P s1 y w3 = (out, w4)" by fastforce
        with assms cd st Inr True fs fs_Inr have "x = Inl (Inr (fst (finish K P s1 y w3)), w4)"
          by (auto simp: wait_body_def Let_def)
        then show thesis by (rule finished [OF cd True y])
      qed
    next
      case False
      obtain y w3 where y: "reactor_wait K (wp_reactor P) 64 (poll_ms t status) w2 = (y, w3)"
        by fastforce
      show thesis
      proof (cases y)
        case (Inl e)
        with assms cd st Inr False y show thesis
          by (auto simp: wait_body_def Let_def intro: failed)
      next
        case y_Inr: (Inr evs)
        with assms cd st Inr False y obtain q d w4 where
          q: "on_events K (wp_reactor P) (take 64 evs) (ws_drain s1) w3 = Some (q, d, w4)"
          by (auto simp: wait_body_def Let_def bind_eq_Some_conv)
        show thesis
        proof (cases q)
          case (Inl e)
          with assms cd st Inr False y y_Inr q show thesis
            by (auto simp: wait_body_def Let_def intro: failed)
        next
          case q_Inr: (Inr u)
          with assms cd st Inr False y y_Inr q show thesis
            by (intro again [OF cd False, of status "take 64 evs" w3 u d w4])
              (simp_all add: wait_body_def Let_def known)
        qed
      qed
    qed
  qed
qed

lemma wait_run_result:
  assumes "read_bounded K" and "write_bounded K"
    and "run_loop (wait_body K P) (s, w) = Some x" and "wait_inv K d0 P s"
  shows "wait_result K d0 P x"
  using assms(3)
proof (rule run_loop_rule [where I = "\<lambda>(s, w). wait_inv K d0 P s"])
  show "case (s, w) of (s, w) \<Rightarrow> wait_inv K d0 P s" using assms(4) by simp
next
  fix st st' assume i: "case st of (s, w) \<Rightarrow> wait_inv K d0 P s"
    and b: "wait_body K P st = Some (Inr st')"
  obtain s w where st: "st = (s, w)" by fastforce
  from b [unfolded st] show "case st' of (s, w) \<Rightarrow> wait_inv K d0 P s"
  proof (cases rule: wait_body_cases)
    case (again t s1 w1 stt r evs w2 d w3)
    from check_deadline_inv [OF again(1)] i st have "wait_inv K d0 P s1" by simp
    then have s1: "wf_drain (ws_drain s1)" "grown K (buf_limit (drain_buffer d0)) d0 (ws_drain s1)"
      "buf_limit (drain_buffer (ws_drain s1)) = buf_limit (drain_buffer d0)" by (simp_all add: wait_inv_def)
    note d = on_events_wf [OF assms(1,2) again(4) s1(1)] on_events_grown [OF assms(1,2) again(4) s1(1)]
    have "grown K (buf_limit (drain_buffer d0)) d0 d" using grown_trans [OF s1(2)] d(2) s1(3) by simp
    with d(1) s1(3) again(3,5) \<open>wait_inv K d0 P s1\<close> show ?thesis
      by (auto simp: wait_inv_def)
  qed simp_all
next
  fix st x assume i: "case st of (s, w) \<Rightarrow> wait_inv K d0 P s"
    and b: "wait_body K P st = Some (Inl x)"
  obtain s w where st: "st = (s, w)" by fastforce
  from b [unfolded st] show "wait_result K d0 P x"
  proof (cases rule: wait_body_cases)
    case (failed e w')
    then show ?thesis by (simp add: wait_result_def)
  next
    case (finished t s1 w1 y w2 w3)
    from check_deadline_inv [OF finished(1)] i st have "wait_inv K d0 P s1" by simp
    moreover from this finished(3) have "reported K (proc_pid (wp_process P)) y" by (auto simp: wait_inv_def)
    ultimately show ?thesis using finished(2,4) by (simp add: finish_result)
  qed simp
qed

section \<open>A freshly started child has no output yet\<close>

lemma drain_new_buffer:
  assumes "drain_new K j ifd ib ofd efd limit early w = (Inr d, w')"
  shows "drain_buffer d = buffer_new limit"
  using assms by (cases rule: drain_new_cases) auto

lemma parent_drain_buffer:
  "parent_drain K j opts p w = (Inr d, w') \<Longrightarrow> drain_buffer d = buffer_new (opt_max_output opts)"
  unfolding parent_drain_def Let_def by (rule drain_new_buffer)

lemma spawn_posix_drain:
  assumes "spawn_posix_internal K j opts w = (Inr (pid, d), w')"
  shows "drain_buffer d = buffer_new (opt_max_output opts)"
  using assms unfolding spawn_posix_internal_def Let_def
  by (elim prod.splits [THEN iffD1, elim_format])
    (auto dest: parent_drain_buffer split: prod.splits sum.splits)

lemma spawn_fork_drain:
  assumes "spawn_fork_internal K j opts w = (InParent (Inr (pid, d)), w')"
  shows "drain_buffer d = buffer_new (opt_max_output opts)"
  using assms
  by (auto simp: spawn_fork_internal_def Let_def dest: parent_drain_buffer
      split: prod.splits sum.splits if_splits)

lemma spawn_start_drain:
  assumes "spawn_start K j opts w = Some (Inr rp, w')"
  shows "drain_buffer (run_drain rp) = buffer_new (opt_max_output opts)"
proof (cases "resolve_backend K opts")
  case PosixSpawn
  obtain x v where x: "spawn_posix_internal K j opts w = (x, v)" by fastforce
  with assms PosixSpawn show ?thesis
    by (cases x) (auto simp: spawn_start_def Let_def dest: spawn_posix_drain)
next
  case Fork
  obtain x v where x: "spawn_fork_internal K j opts w = (x, v)" by fastforce
  with assms Fork show ?thesis
    by (auto simp: spawn_start_def Let_def dest: spawn_fork_drain split: forked.splits sum.splits)
qed

lemma check_deadline_drain:
  "check_deadline K P s w = (t, s', w') \<Longrightarrow> ws_drain s' = ws_drain s"
  by (auto simp: check_deadline_def Let_def split: option.splits prod.splits if_splits)

lemma wait_body_done:
  assumes "wait_body K P (s, w) = Some x" and "is_done (ws_drain s)"
  shows "\<exists>y. x = Inl y \<and> (\<forall>out. fst y = Inr out \<longrightarrow>
     cap_stdout out = elems (buf_stdout (drain_buffer (ws_drain s)))
   \<and> cap_stderr out = elems (buf_stderr (drain_buffer (ws_drain s))))"
  using assms(1)
proof (cases rule: wait_body_cases)
  case (failed e w')
  then show ?thesis by simp
next
  case (finished t s1 w1 y w2 w3)
  from finished(4) check_deadline_drain [OF finished(1)] show ?thesis by (auto simp: finish_output)
next
  case (again t s1 w1 st r evs w2 d w3)
  with check_deadline_drain [OF again(1)] assms(2) show ?thesis by simp
qed

definition first_state :: "drain_state \<Rightarrow> exit_status option \<Rightarrow> wait_state" where
  "first_state d status =
     \<lparr>ws_status = status, ws_kill = KillNone, ws_timed_out = False, ws_drain = d\<rparr>"

lemma wait_loop_cases:
  assumes "wait_loop K pid d r t g c pg w = Some (x, w')"
  obtains (failed) e where "x = Inl e"
  | (ran) P status v where "run_loop (wait_body K P) (first_state d status, v) = Some (x, w')"
      "wp_process P = \<lparr>proc_pid = pid\<rparr>" "t = None \<Longrightarrow> wp_deadline P = None"
      "\<forall>y. status = Some y \<longrightarrow> reported K pid y"
proof -
  from assms obtain st v where st: "wait_step K \<lparr>proc_pid = pid\<rparr> w = Some (st, v)"
    by (auto simp: wait_loop_def bind_eq_Some_conv)
  show thesis
  proof (cases st)
    case (Inl e)
    with assms st show thesis by (auto simp: wait_loop_def intro: failed)
  next
    case (Inr status)
    have known: "\<forall>y. status = Some y \<longrightarrow> reported K pid y"
      using wait_step_waited [OF st] Inr by (auto intro: waited_reported)
    let ?P = "\<lambda>dl. \<lparr>wp_process = \<lparr>proc_pid = pid\<rparr>, wp_reactor = r, wp_deadline = dl,
        wp_grace_ms = g, wp_cancel = c, wp_is_group = pg_isolated pg \<or> pg_leader pg \<noteq> None\<rparr>"
    show thesis
    proof (cases t)
      case None
      with assms st Inr have
        "run_loop (wait_body K (?P None)) (first_state d status, v) = Some (x, w')"
        by (simp add: wait_loop_def first_state_def)
      then show thesis by (rule ran) (simp_all add: known)
    next
      case (Some n)
      obtain e u where "k_std K v = (e, u)" by fastforce
      with assms st Inr Some have
        "run_loop (wait_body K (?P (Some (env_now e + from_millis (unat n)))))
           (first_state d status, u) = Some (x, w')"
        by (simp add: wait_loop_def first_state_def)
      then show thesis by (rule ran) (simp_all add: Some known)
    qed
  qed
qed

lemma run_loop_Some_body: "run_loop body s = Some r \<Longrightarrow> \<exists>x. body s = Some x"
  by (subst (asm) run_loop.simps) (auto simp: bind_eq_Some_conv)

lemma wait_loop_done:
  assumes "wait_loop K pid d r t g c pg w = Some (Inr out, w')" and "is_done d"
  shows "cap_stdout out = elems (buf_stdout (drain_buffer d))
    \<and> cap_stderr out = elems (buf_stderr (drain_buffer d))"
  using assms(1)
proof (cases rule: wait_loop_cases)
  case (ran P status v)
  from run_loop_Some_body [OF ran(1)] obtain x
    where x: "wait_body K P (first_state d status, v) = Some x" ..
  have dr: "ws_drain (first_state d status) = d" by (simp add: first_state_def)
  from wait_body_done [OF x, unfolded dr, OF assms(2)] obtain y where y: "x = Inl y"
    "\<forall>out. fst y = Inr out \<longrightarrow> cap_stdout out = elems (buf_stdout (drain_buffer d))
       \<and> cap_stderr out = elems (buf_stderr (drain_buffer d))"
    by blast
  from ran(1) run_loop_eval [of "wait_body K P", OF x] y(1) have "y = (Inr out, w')" by simp
  with y(2) show ?thesis by simp
qed simp

section \<open>Termination\<close>

lemma wait_body_done_returns:
  assumes "waits_end K (proc_pid (wp_process P))" and "child_exits K (proc_pid (wp_process P))"
    and "is_done (ws_drain s)"
  shows "\<exists>y. wait_body K P (s, w) = Some (Inl y)"
proof -
  obtain t s1 w1 where cd: "check_deadline K P s w = (t, s1, w1)" by (rule prod_cases3)
  have d: "is_done (ws_drain s1)" using check_deadline_drain [OF cd] assms(3) by simp
  obtain st w2 where st: "(if ws_status s1 = None then wait_step K (wp_process P) w1
      else Some (Inr (ws_status s1), w1)) = Some (st, w2)"
    using wait_step_returns [OF assms(1), of w1] by fastforce
  show ?thesis
  proof (cases st)
    case (Inl e)
    with cd st show ?thesis by (simp add: wait_body_def Let_def)
  next
    case (Inr status)
    obtain fs w3 where fs: "(case status of Some x \<Rightarrow> Some (Inr x, w2)
        | None \<Rightarrow> wait_blocking K (wp_process P) w2) = Some (fs, w3)"
      using wait_blocking_returns [OF assms(2), of w2] by (cases status) fastforce+
    with cd st Inr d show ?thesis by (simp add: wait_body_def Let_def)
  qed
qed

lemma wait_loop_done_returns:
  assumes "waits_end K pid" and "child_exits K pid" and "is_done d"
  shows "\<exists>x. wait_loop K pid d r t g c pg w = Some x"
proof -
  obtain st v where st: "wait_step K \<lparr>proc_pid = pid\<rparr> w = Some (st, v)"
    using wait_step_returns [of K "\<lparr>proc_pid = pid\<rparr>" w] assms(1) by fastforce
  have run: "\<exists>y. run_loop (wait_body K P) (s, u) = Some y"
    if "wp_process P = \<lparr>proc_pid = pid\<rparr>" "ws_drain s = d" for P s u
    using wait_body_done_returns [of K P s u] that assms by (auto simp: run_loop_eval)
  show ?thesis
  proof (cases st)
    case (Inl e)
    with st show ?thesis by (simp add: wait_loop_def)
  next
    case (Inr status)
    then show ?thesis using st run
      by (cases t) (auto simp: wait_loop_def split: prod.split)
  qed
qed

lemma posix_start_returns:
  assumes "resolve_backend K opts = PosixSpawn"
  shows "spawn_start K j opts w \<noteq> None"
proof -
  obtain r v where "spawn_posix_internal K j opts w = (r, v)" by fastforce
  with assms show ?thesis by (cases r) (auto simp: spawn_start_def)
qed

text \<open>In the parent, starting a process always returns.\<close>

lemma spawn_start_returns:
  assumes "\<And>v. fst (k_fork K v) \<noteq> 0"
  shows "spawn_start K i opts w \<noteq> None"
proof (cases "resolve_backend K opts")
  case Fork
  have "fst (spawn_fork_internal K i opts w) \<noteq> InChild cs" for cs
    using assms by (auto simp: spawn_fork_internal_def Let_def split_beta split: prod.splits sum.splits if_splits)
  then show ?thesis
    using Fork by (cases "spawn_fork_internal K i opts w"; cases "fst (spawn_fork_internal K i opts w)")
      (auto simp: spawn_start_def split: sum.splits prod.splits)
qed (simp add: posix_start_returns)

text \<open>
  \<open>runs_on K pid c n P\<close>: as long as \<open>P\<close> holds of the world, the clock shows less than \<open>n\<close> after \<open>c\<close>
  and the child runs; reading the clock and polling the child keep \<open>P\<close>. So \<open>P\<close> can say that no
  signal has been sent to the child and that it does not exit without one.
\<close>

definition runs_on :: "'w kernel \<Rightarrow> i32 \<Rightarrow> instant \<Rightarrow> instant \<Rightarrow> ('w \<Rightarrow> bool) \<Rightarrow> bool" where
  "runs_on K pid c n P \<longleftrightarrow> (\<forall>w. P w \<longrightarrow>
     P (snd (k_std K w)) \<and> c \<le> env_now (fst (k_std K w)) \<and> env_now (fst (k_std K w)) < c + n
     \<and> (\<exists>raw. fst (k_waitpid K pid w) = Some (0, raw)) \<and> P (snd (k_waitpid K pid w))
     \<and> k_wait_exit K pid w = None)"

lemma runs_on_poll:
  assumes "runs_on K pid c n P" and "P w"
  shows "\<exists>w'. wait_step K \<lparr>proc_pid = pid\<rparr> w = Some (Inr None, w') \<and> P w'"
proof -
  obtain raw w' where "k_waitpid K pid w = (Some (0, raw), w')" "P w'"
    using assms unfolding runs_on_def by (metis prod.collapse)
  then show ?thesis
    by (intro exI [of _ w']) (simp add: wait_step_def run_loop_eval wait_step_body_def)
qed

lemma runs_on_blocks: "runs_on K pid c n P \<Longrightarrow> P w \<Longrightarrow> wait_blocking K \<lparr>proc_pid = pid\<rparr> w = None"
  by (simp add: runs_on_def wait_blocking_def run_loop.simps [of _ w] wait_blocking_body_def)

lemma wait_loop_done_blocks:
  assumes R: "runs_on K pid c n P" and "P w" and "is_done d"
    and "case t of None \<Rightarrow> True | Some ms \<Rightarrow> n \<le> from_millis (unat ms)"
  shows "wait_loop K pid d r t g cancel pg w = None"
proof -
  from runs_on_poll [OF R assms(2)] obtain w1 where
    w1: "wait_step K \<lparr>proc_pid = pid\<rparr> w = Some (Inr None, w1)" "P w1" by blast
  have run: "run_loop (wait_body K Q) (s, v) = None"
    if Q: "wp_process Q = \<lparr>proc_pid = pid\<rparr>" "case wp_deadline Q of None \<Rightarrow> True | Some dl \<Rightarrow> c + n \<le> dl"
      and s: "ws_status s = None" "ws_drain s = d" and v: "P v" for Q s v
  proof -
    obtain t' v1 where cd: "check_deadline K Q s v = (t', s, v1)" "P v1"
    proof (cases "wp_deadline Q")
      case None
      then show thesis using that v by (simp add: check_deadline_def)
    next
      case (Some dl)
      obtain e v1 where e: "k_std K v = (e, v1)" by fastforce
      have "env_now e < c + n" "P v1" using R v e unfolding runs_on_def by (metis fst_conv, metis snd_conv)
      then show thesis using that Q(2) Some e by (simp add: check_deadline_def)
    qed
    from runs_on_poll [OF R cd(2)] obtain v2 where
      v2: "wait_step K \<lparr>proc_pid = pid\<rparr> v1 = Some (Inr None, v2)" "P v2" by blast
    have "wait_body K Q (s, v) = None"
      using cd v2(1) runs_on_blocks [OF R v2(2)] Q(1) s assms(3) by (simp add: wait_body_def)
    then show ?thesis by (simp add: run_loop.simps [of _ "(s, v)"])
  qed
  show ?thesis
  proof (cases t)
    case None
    then show ?thesis using w1 by (simp add: wait_loop_def) (rule run; simp)
  next
    case (Some ms)
    obtain e w2 where e: "k_std K w1 = (e, w2)" by fastforce
    have "c \<le> env_now e" "P w2" using R w1(2) e unfolding runs_on_def by (metis fst_conv, metis snd_conv)
    then show ?thesis using w1(1) Some e assms(4) by (simp add: wait_loop_def) (rule run; simp)
  qed
qed

section \<open>Properties\<close>

text \<open>C16: Escalation. Over any run of polls after the deadline the signals sent are a prefix of
  \<open>SIGTERM, SIGKILL\<close> under the graceful policy, at most one \<open>SIGKILL\<close> under the kill policy and
  none otherwise; each poll sends exactly the signal decided, to the process or to its group.\<close>

theorem escalation_bounded:
  assumes "kill_run cancel KillNone sigs ks" and "escalate K p g cancel over ks w = (ks', w')"
  defines "new \<equiv> (case escalation_signal cancel over ks of None \<Rightarrow> [] | Some s \<Rightarrow> [s])"
  shows "kill_run cancel KillNone (sigs @ new) ks'
    \<and> (case cancel of
         SysCancelNone \<Rightarrow> sigs @ new = []
       | SysCancelGraceful \<Rightarrow> sigs @ new \<in> {[], [SIGTERM], [SIGTERM, SIGKILL]}
       | SysCancelKill \<Rightarrow> sigs @ new \<in> {[], [SIGKILL]})
    \<and> w' = fold (\<lambda>s w. snd (k_kill K (if g then - proc_pid p else proc_pid p) s w)) new w"
proof -
  have run: "kill_run cancel KillNone (sigs @ new) ks'"
    unfolding new_def by (rule kill_run.step [OF assms(1) escalate_step [OF assms(2)]])
  have "w' = fold (\<lambda>s w. snd (k_kill K (if g then - proc_pid p else proc_pid p) s w)) new w"
    using assms(2)
    by (auto simp: new_def escalate_def process_kill_def kill_pgroup_def kill_target_def Let_def
        split_beta split: option.splits if_splits)
  moreover have "case cancel of SysCancelNone \<Rightarrow> sigs @ new = []
       | SysCancelGraceful \<Rightarrow> sigs @ new \<in> {[], [SIGTERM], [SIGTERM, SIGKILL]}
       | SysCancelKill \<Rightarrow> sigs @ new \<in> {[], [SIGKILL]}"
    using kill_run_signals [OF run] by (cases cancel) auto
  ultimately show ?thesis using run by blast
qed

lemma escalation_bounded_witness:
  "kill_run SysCancelGraceful KillNone ([SIGTERM] @ [SIGKILL]) KillSent"
proof -
  have "kill_run SysCancelGraceful KillNone ([] @ [SIGTERM]) TermSent"
    by (rule kill_run.step [OF kill_run.start kill_step.term_ok]) simp
  moreover have "escalate wait_kernel \<lparr>proc_pid = 7\<rparr> False SysCancelGraceful True TermSent ([], 0) =
      (KillSent, ([], 0))"
    by (simp add: escalate_def escalation_signal_def process_kill_def kill_target_def abi_defs)
  ultimately show ?thesis
    using escalation_bounded [of SysCancelGraceful "[SIGTERM]" TermSent wait_kernel
        "\<lparr>proc_pid = 7\<rparr>" False True "([], 0)" KillSent "([], 0)"]
    by (simp add: escalation_signal_def)
qed


definition demo_reactor :: reactor where
  "demo_reactor = \<lparr>epfd = 3, next_token = 1, signalfd = None, sigchld_token = None\<rparr>"

definition drained_demo :: drain_state where
  "drained_demo = demo_drain\<lparr>stdout_slot := None, drain_buffer :=
     \<lparr>buf_stdout = \<lparr>elems = [1, 2], cap = 8\<rparr>, buf_stderr = \<lparr>elems = [], cap = 8\<rparr>, buf_limit = 4\<rparr>\<rparr>"


text \<open>C39: Output lost at hang-up. When the child closes its end while unread output is still in the
  pipe, the kernel reports readable and hung up together; the event is decoded as an error, and
  the loop then closes the stream without reading it: the buffers are as before.\<close>

theorem hangup_discards_output:
  assumes "bit m 0" and "bit m 4" and "stdout_slot d = Some s" and "slot_token s = t"
  shows "on_event K r (decode_event (m, t)) d w =
    Some (Inr (), d\<lparr>stdout_slot := None\<rparr>, fd_drop K (slot_fd s) (del_raw K r (slot_fd s) w))"
proof -
  have "ev_error (decode_event (m, t))" using event_mask_error assms(2) by blast
  with assms(3,4) show ?thesis
    by (simp add: on_event_def drop_error_slot_def has_token_def del_and_drop_def)
qed

lemma hangup_discards_output_witness:
  "on_event script_kernel \<lparr>epfd = 3, next_token = 1, signalfd = None, sigchld_token = None\<rparr>
     (decode_event (17, 2)) demo_drain ([Inr [1, 2, 3]], 0) =
   Some (Inr (), demo_drain\<lparr>stdout_slot := None\<rparr>, ([Inr [1, 2, 3]], 0))"
proof -
  have "bit (17 :: u32) 0" "bit (17 :: u32) 4" by simp_all
  from hangup_discards_output [OF this, of demo_drain "\<lparr>slot_token = 2, slot_fd = 5\<rparr>" 2 script_kernel]
  show ?thesis
    by (simp add: demo_drain_def del_raw_def fd_drop_def script_kernel_def quiet_kernel_def)
qed

text \<open>C40: Synchronous execution never captures anything. \<open>spawn\<close> takes every slot out of the
  drain state before it waits, so whatever the child writes and whatever the options ask for, the
  output it returns is empty.\<close>

theorem spawn_captures_nothing:
  assumes "spawn K opts w = Some (Inr out, w')"
  shows "cap_stdout out = [] \<and> cap_stderr out = []"
proof -
  from assms obtain r w1 where r: "reactor_new K w = (Inr r, w1)"
    by (auto simp: spawn_def split: prod.splits sum.splits)
  with assms obtain x w2 where x: "spawn_start K 0 opts w1 = Some (x, w2)"
    by (auto simp: spawn_def bind_eq_Some_conv)
  with assms r obtain run where run: "x = Inr run"
    by (cases x) (auto simp: spawn_def)
  note buf = spawn_start_drain [OF x [unfolded run]]
  obtain slots d where d: "take_all_slots (run_drain run) = (slots, d)" by fastforce
  with take_all_slots_done [of "run_drain run"] take_all_slots_buffer [of "run_drain run"] buf
  have dn: "is_done d" and db: "drain_buffer d = buffer_new (opt_max_output opts)" by simp_all
  obtain y w3 where y: "watch_slots K r slots w2 = (y, w3)" by fastforce
  have empty: "elems (buf_stdout (drain_buffer d)) = []" "elems (buf_stderr (drain_buffer d)) = []"
    by (simp_all add: db buffer_new_def with_capacity_def)
  show ?thesis
  proof (cases "opt_wait opts")
    case True
    with assms r x run d y obtain u where
      "wait_loop K (proc_pid (run_process run)) d r (opt_timeout_ms opts) (opt_kill_grace_ms opts)
        (opt_cancel opts) (opt_pgroup opts) u = Some (Inr out, w')"
      by (cases y) (auto simp: spawn_def)
    from wait_loop_done [OF this dn] empty show ?thesis by simp
  next
    case False
    with assms r x run d y empty show ?thesis
      by (cases y) (auto simp: spawn_def drain_into_parts_def buffer_into_parts_def)
  qed
qed

text \<open>A child that has exited with code 3, and one that never exits.\<close>

definition spawn_kernel :: "bool \<Rightarrow> i32 set kernel" where
  "spawn_kernel exits = table_kernel\<lparr>k_epoll_create1 := \<lambda>w. (100, insert 100 w),
     k_epoll_ctl := \<lambda>ep fd op w. (0, w), k_waitpid := \<lambda>pid w. (Some (if exits then (pid, 768) else (0, 0)), w),
     k_wait_exit := \<lambda>pid w. if exits then Some (Some (pid, 768), w) else None\<rparr>"

lemma spawn_kernel_waits: "waits_end (spawn_kernel x) pid" "child_exits (spawn_kernel True) pid"
    "fst (k_fork (spawn_kernel x) w) \<noteq> 0"
  by (simp_all add: waits_end_def child_exits_def interrupted_def spawn_kernel_def wfp_on_def
      table_kernel_def quiet_kernel_def)

lemma spawn_kernel_runs: "runs_on (spawn_kernel False) pid 0 1000000 (\<lambda>_. True)"
  by (simp add: runs_on_def spawn_kernel_def table_kernel_def quiet_kernel_def env_at_def)

lemma demo_posix:
  "resolve_backend (spawn_kernel x) (demo_options\<lparr>opt_wait := b, opt_timeout_ms := t\<rparr>) = PosixSpawn"
  by (simp add: resolve_backend_def force_fork_def demo_options_def exec_context_new_def
      process_group_default_def select_backend_def spawn_kernel_def table_kernel_def
      quiet_kernel_def Let_def)

lemma demo_start:
  "\<exists>rp w'. spawn_start (spawn_kernel x) 0 (demo_options\<lparr>opt_wait := b, opt_timeout_ms := t\<rparr>) {0, 1, 2, 100} = Some (Inr rp, w')"
proof -
  have "Max (insert 2 {0, 1, 2, 100 :: int}) = 100" by simp
  then show ?thesis
    unfolding spawn_start_def demo_posix
    by (simp add: demo_options_def exec_context_new_def spawn_kernel_def table_kernel_def
        quiet_kernel_def process_group_default_def spawn_posix_internal_def pipes_new_def
        maybe_pipe_def make_pipe_def fd_new_def Let_def posix_ret_def stdio_actions_def
        dup_and_close_def inherited_closes_def spawn_attrs_def parent_drain_def drain_new_def
        claim_slot_def set_nonblock_def syscall_ret_def)
qed

lemma spawn_captures_nothing_witness:
  "\<exists>out w'. spawn (spawn_kernel True) (demo_options\<lparr>opt_wait := False, opt_timeout_ms := None\<rparr>) {0, 1, 2} = Some (Inr out, w')
     \<and> cap_stdout out = []"
proof -
  obtain rp w' where st: "spawn_start (spawn_kernel True) 0 (demo_options\<lparr>opt_wait := False, opt_timeout_ms := None\<rparr>) {100, 0, 1, 2}
      = Some (Inr rp, w')"
    using demo_start [where x = True and b = False and t = None] by (auto simp: insert_commute)
  have ok: "watch_slots (spawn_kernel True) r ss w = (Inr (), w)" for r ss w
    by (induction ss arbitrary: w)
      (simp_all add: add_with_token_def spawn_kernel_def syscall_ret_def Let_def)
  have "reactor_new (spawn_kernel True) {0, 1, 2} =
      (Inr \<lparr>epfd = 100, next_token = 1, signalfd = None, sigchld_token = None\<rparr>, {100, 0, 1, 2})"
    by (simp add: reactor_new_def spawn_kernel_def syscall_ret_def)
  with st obtain out v where
    h: "spawn (spawn_kernel True) (demo_options\<lparr>opt_wait := False, opt_timeout_ms := None\<rparr>) {0, 1, 2} = Some (Inr out, v)"
    by (simp add: spawn_def split_beta Let_def ok demo_options_def)
  from spawn_captures_nothing [OF h] h show ?thesis by auto
qed



end
