(* ===== verification/Observers.thy ===== *)
theory Observers
  imports Drain
begin

text \<open>
  What transfers leave alone. \<open>f\<close> observes something of the world that reading and writing do not
  change, such as the set of open descriptors or the length of an accept queue; then no loop
  built of transfers changes it either.
\<close>

definition transfers_keep :: "'w kernel \<Rightarrow> ('w \<Rightarrow> 'x) \<Rightarrow> bool" where
  "transfers_keep K f \<longleftrightarrow> (\<forall>fd n w. f (snd (k_read K fd n w)) = f w) \<and>
     (\<forall>fd bs w. f (snd (k_write K fd bs w)) = f w)"

lemma transfers_keepD:
  assumes "transfers_keep K f"
  shows "k_read K fd n w = (x, w') \<Longrightarrow> f w' = f w"
    and "k_write K fd bs w = (y, w') \<Longrightarrow> f w' = f w"
proof -
  show "k_read K fd n w = (x, w') \<Longrightarrow> f w' = f w"
    using assms unfolding transfers_keep_def by (metis snd_conv)
  show "k_write K fd bs w = (y, w') \<Longrightarrow> f w' = f w"
    using assms unfolding transfers_keep_def by (metis snd_conv)
qed

lemma delivers_keep:
  assumes "delivers K fd w bs w'" and "transfers_keep K f"
  shows "f w' = f w"
  using assms(1) by induction (auto dest: transfers_keepD [OF assms(2)])

lemma accepts_keep:
  assumes "accepts K fd w bs w'" and "transfers_keep K f"
  shows "f w' = f w"
  using assms(1) by induction (auto dest: transfers_keepD [OF assms(2)])

lemma fd_read_keep:
  assumes "transfers_keep K f" and "fd_read K fd n w = Some (r, w')"
  shows "f w' = f w"
  using delivers_keep [OF fd_read_delivers [OF assms(2)] assms(1)] .

lemma fd_write_keep:
  assumes "transfers_keep K f" and "fd_write K fd bs w = Some (r, w')"
  shows "f w' = f w"
  using accepts_keep [OF fd_write_accepts [OF assms(2)] assms(1)] .

section \<open>Steps of a drain\<close>

lemma read_from_fd_keep:
  assumes "transfers_keep K f" and "read_bounded K" and "read_from_fd K fd out early b w = Some (r, b', w')"
  shows "f w' = f w"
proof -
  from assms(3) obtain dest where "read_loop K fd (buf_limit b) (if out then early else None)
      (if out then buf_stdout b else buf_stderr b) w = Some (r, dest, w')"
    by (auto simp: read_from_fd_def)
  from read_loop_drained [OF assms(2) this] delivers_keep [OF _ assms(1)]
  show ?thesis by (auto simp: drained_def)
qed

lemma write_to_fd_keep:
  assumes "transfers_keep K f" and "write_bounded K" and "write_to_fd K fd s w = Some (r, s', w')"
  shows "f w' = f w"
  using assms(3)
proof (cases rule: write_to_fd_cases)
  case (loop buf fin keep off)
  from write_loop_sent [OF assms(2) loop(2)] accepts_keep [OF _ assms(1)]
  show ?thesis by (auto simp: sent_def)
qed simp

text \<open>
  A step keeps the observation, and the slot it reports as finished was one of the drain's and is
  no longer there.
\<close>

definition slot_set :: "drain_state \<Rightarrow> fd_slot set" where
  "slot_set d = set_option (stdin_slot d) \<union> set_option (stdout_slot d) \<union> set_option (stderr_slot d)"

lemma slot_fds_slot_set: "slot_fds d = slot_fd ` slot_set d"
  by (simp add: slot_fds_def slot_set_def)

definition finished_slot :: "sys_error + fd_slot option \<Rightarrow> fd_slot set" where
  "finished_slot r = (case r of Inr (Some s) \<Rightarrow> {s} | _ \<Rightarrow> {})"

lemma read_fd_step:
  assumes "transfers_keep K f" and "read_bounded K" and "read_fd K out d w = Some (r, d', w')"
  shows "f w' = f w" and "slot_set d' \<union> finished_slot r = slot_set d"
    and "slots_apart d \<Longrightarrow> slots_apart d' \<and> slot_fd ` finished_slot r \<inter> slot_fds d' = {}"
proof -
  show "f w' = f w"
    using assms(3) by (cases rule: read_fd_cases) (auto dest: read_from_fd_keep [OF assms(1,2)])
  show "slot_set d' \<union> finished_slot r = slot_set d"
    using assms(3)
    by (cases rule: read_fd_cases)
      (auto simp: slot_set_def finished_slot_def split: if_splits sum.splits option.splits)
  show "slots_apart d' \<and> slot_fd ` finished_slot r \<inter> slot_fds d' = {}" if "slots_apart d"
    using assms(3) that
    by (cases rule: read_fd_cases)
      (auto simp: slots_apart_def apart_def slot_fds_def finished_slot_def
        split: if_splits sum.splits option.splits)
qed

lemma write_stdin_step:
  assumes "transfers_keep K f" and "write_bounded K" and "write_stdin K d w = Some (r, d', w')"
  shows "f w' = f w" and "slot_set d' \<union> finished_slot r = slot_set d"
    and "slots_apart d \<Longrightarrow> slots_apart d' \<and> slot_fd ` finished_slot r \<inter> slot_fds d' = {}"
proof -
  show "f w' = f w"
    using assms(3) by (cases rule: write_stdin_cases) (auto dest: write_to_fd_keep [OF assms(1,2)])
  show "slot_set d' \<union> finished_slot r = slot_set d"
    using assms(3)
    by (cases rule: write_stdin_cases)
      (auto simp: slot_set_def finished_slot_def split: if_splits sum.splits option.splits)
  show "slots_apart d' \<and> slot_fd ` finished_slot r \<inter> slot_fds d' = {}" if "slots_apart d"
    using assms(3) that
    by (cases rule: write_stdin_cases)
      (auto simp: slots_apart_def apart_def slot_fds_def finished_slot_def
        split: if_splits sum.splits option.splits)
qed

end
