(* ===== verification/Runtime.thy ===== *)
theory Runtime
  imports Effects WaitLoop Observers IdSupply
begin

text \<open>
  The effect executor of \<open>src/runtime.rs\<close>: it owns the reactor, the processes and the drain
  states, turns readiness into core events, and carries out the effects the core resolves.
\<close>

section \<open>State\<close>

text \<open>
  \<open>ex_log\<close> is what has been written to the log sink, oldest first: level and message.
\<close>

record executor =
  ex_reactor :: reactor
  ex_fd_map :: "u64 \<rightharpoonup> u64"
  ex_processes :: "process_handle \<rightharpoonup> process"
  ex_drains :: "io_handle \<rightharpoonup> drain_state"
  ex_log :: "(log_level \<times> string) list"
  ex_next_handle :: u64

definition executor_new :: "reactor \<Rightarrow> executor" where
  "executor_new r = \<lparr>ex_reactor = r, ex_fd_map = Map.empty, ex_processes = Map.empty,
     ex_drains = Map.empty, ex_log = [], ex_next_handle = 1\<rparr>"

definition gen_handle :: "executor \<Rightarrow> u64 \<times> executor" where
  "gen_handle E = (ex_next_handle E, E\<lparr>ex_next_handle := ex_next_handle E + 1\<rparr>)"

section \<open>Reactor events\<close>

definition job_event :: "executor \<Rightarrow> reactor_event \<Rightarrow> event option" where
  "job_event E ev =
     map_option (\<lambda>job_id. Ev_JobFdReady job_id (ev_readable ev) (ev_writable ev) (ev_error ev))
       (ex_fd_map E (ev_token ev))"

text \<open>The events left in the caller's buffer, and the core events made of them.\<close>

definition process_reactor_events :: "'w kernel \<Rightarrow> executor \<Rightarrow> i32 \<Rightarrow> 'w \<Rightarrow>
    (sys_error + reactor_event list \<times> event list) \<times> 'w" where
  "process_reactor_events K E timeout_ms w =
     (case reactor_wait K (ex_reactor E) 64 timeout_ms w of
        (Inl e, w) \<Rightarrow> (Inl e, w)
      | (Inr evs, w) \<Rightarrow> (Inr (evs, List.map_filter (job_event E) evs), w))"

section \<open>Effects\<close>

definition log_message :: "log_event \<Rightarrow> string" where
  "log_message ev =
     (case ev of
        Log_Submit i \<Rightarrow> ''Submit id='' @ dec_nat (unat i)
      | Log_Spawn i pid \<Rightarrow> ''Spawn id='' @ dec_nat (unat i) @ '', pid='' @ dec_int pid
      | Log_Cancel i \<Rightarrow> ''Cancel id='' @ dec_nat (unat i)
      | Log_ForceKill i \<Rightarrow> ''ForceKill id='' @ dec_nat (unat i)
      | Log_Exit i status \<Rightarrow>
          ''Exit id='' @ dec_nat (unat i) @ '', status='' @ debug_option_int status
      | Log_Timeout i \<Rightarrow> ''Timeout id='' @ dec_nat (unat i)
      | Log_Error i err \<Rightarrow> ''Error id='' @ dec_nat (unat i) @ '', err='' @ err)"

text \<open>\<open>Display for SysError\<close>.\<close>

definition display_error :: "sys_error \<Rightarrow> string" where
  "display_error e = err_op e @ '' failed (code='' @ dec_int (err_code e) @ '')''"

definition stream_fd :: "drain_state \<Rightarrow> io_stream \<Rightarrow> i32 option" where
  "stream_fd d stream =
     map_option slot_fd
       (case stream of Stdout \<Rightarrow> stdout_slot d | Stderr \<Rightarrow> stderr_slot d | Stdin \<Rightarrow> stdin_slot d)"

definition watched_fd :: "executor \<Rightarrow> io_handle \<Rightarrow> io_stream \<Rightarrow> i32 option" where
  "watched_fd E io stream =
     (case ex_drains E io of None \<Rightarrow> None | Some d \<Rightarrow> stream_fd d stream)"

text \<open>\<open>Token(fd as u64)\<close>.\<close>

definition fd_token :: "i32 \<Rightarrow> u64" where
  "fd_token fd = word_of_int fd"

definition watch_stream :: "'w kernel \<Rightarrow> executor \<Rightarrow> u64 \<Rightarrow> io_handle \<Rightarrow> io_stream \<Rightarrow> 'w \<Rightarrow>
    executor \<times> 'w" where
  "watch_stream K E i io stream w =
     (case watched_fd E io stream of
        None \<Rightarrow> (E, w)
      | Some fd \<Rightarrow>
          (case add_with_token K (ex_reactor E) fd (fd_token fd) True True w of
             (Inr _, w) \<Rightarrow> (E\<lparr>ex_fd_map := (ex_fd_map E)(fd_token fd \<mapsto> i)\<rparr>, w)
           | (Inl _, w) \<Rightarrow> (E, w)))"

definition unwatch_stream :: "'w kernel \<Rightarrow> executor \<Rightarrow> io_handle \<Rightarrow> io_stream \<Rightarrow> 'w \<Rightarrow>
    executor \<times> 'w" where
  "unwatch_stream K E io stream w =
     (case watched_fd E io stream of
        None \<Rightarrow> (E, w)
      | Some fd \<Rightarrow>
          (E\<lparr>ex_fd_map := (ex_fd_map E)(fd_token fd := None)\<rparr>, del_raw K (ex_reactor E) fd w))"

definition sys_cancel :: "cancel_policy \<Rightarrow> sys_cancel_policy" where
  "sys_cancel c = (case c of CancelNone \<Rightarrow> SysCancelNone | CancelGraceful \<Rightarrow> SysCancelGraceful
     | CancelKill \<Rightarrow> SysCancelKill)"

definition spawn_request :: "exec_spec \<Rightarrow> exec_policy \<Rightarrow> spawn_options" where
  "spawn_request exec policy =
     \<lparr>opt_ctx = exec_context_new (spec_argv exec) None None, opt_stdin = spec_stdin exec,
      opt_capture_stdout = spec_capture_stdout exec, opt_capture_stderr = spec_capture_stderr exec,
      opt_wait = False, opt_pgroup = process_group_default, opt_max_output = spec_max_output exec,
      opt_timeout_ms = None, opt_kill_grace_ms = pol_kill_grace_ms policy,
      opt_cancel = sys_cancel (pol_cancel policy), opt_backend = BackendAuto, opt_early_exit = None\<rparr>"

text \<open>Inserting into the drain table drops the state that was there.\<close>

definition insert_drain :: "'w kernel \<Rightarrow> executor \<Rightarrow> io_handle \<Rightarrow> drain_state \<Rightarrow> 'w \<Rightarrow> executor \<times> 'w" where
  "insert_drain K E io d w =
     (E\<lparr>ex_drains := (ex_drains E)(io \<mapsto> d)\<rparr>,
      case ex_drains E io of None \<Rightarrow> w | Some old \<Rightarrow> snd (drain_into_parts K old w))"

definition start_process :: "'w kernel \<Rightarrow> executor \<Rightarrow> u64 \<Rightarrow> exec_spec \<Rightarrow> exec_policy \<Rightarrow> 'w \<Rightarrow>
    (event option \<times> executor \<times> 'w) option" where
  "start_process K E i exec policy w = do {
     (r, w) \<leftarrow> spawn_start K i (spawn_request exec policy) w;
     Some (case r of
         Inr running \<Rightarrow>
           (let (p, E) = gen_handle E; (h, E) = gen_handle E;
                E = E\<lparr>ex_processes := (ex_processes E)(ProcessHandle p \<mapsto> run_process running)\<rparr>;
                (E, w) = insert_drain K E (IoHandle h) (run_drain running) w
            in (Some (Ev_ProcessStarted i (ProcessHandle p) (IoHandle h)), E, w))
       | Inl e \<Rightarrow> (Some (Ev_ProcessSpawnFailed i (''spawn_failed: '' @ display_error e)), E, w))
   }"

definition kill_process :: "'w kernel \<Rightarrow> executor \<Rightarrow> control_signal \<Rightarrow> process_handle \<Rightarrow> bool \<Rightarrow>
    'w \<Rightarrow> 'w" where
  "kill_process K E signal p is_group w =
     (case ex_processes E p of
        None \<Rightarrow> w
      | Some proc \<Rightarrow>
          (let sig = (case signal of GracefulStop \<Rightarrow> SIGTERM | ForceKill \<Rightarrow> SIGKILL)
           in snd (if is_group then kill_pgroup K proc sig w else process_kill K proc sig w)))"

definition poll_process :: "'w kernel \<Rightarrow> executor \<Rightarrow> u64 \<Rightarrow> process_handle \<Rightarrow> 'w \<Rightarrow>
    (event option \<times> executor \<times> 'w) option" where
  "poll_process K E i p w =
     (case ex_processes E p of
        None \<Rightarrow> Some (None, E, w)
      | Some proc \<Rightarrow> do {
          (r, w) \<leftarrow> wait_step K proc w;
          Some (case r of
              Inr (Some status) \<Rightarrow>
                (Some (Ev_ProcessExited i (Some (case status of Exited c \<Rightarrow> c | Signaled sig \<Rightarrow> - sig))), E, w)
            | Inr None \<Rightarrow> (None, E, w)
            | Inl _ \<Rightarrow> (Some (Ev_ProcessExited i None), E, w))
        })"

text \<open>\<open>if slot.is_some() { let _ = ...; }\<close>: the result, a finished slot included, is dropped.\<close>

definition io_step :: "'w kernel \<Rightarrow> bool \<Rightarrow>
    (drain_state \<Rightarrow> 'w \<Rightarrow> ((sys_error + fd_slot option) \<times> drain_state \<times> 'w) option) \<Rightarrow>
    drain_state \<Rightarrow> 'w \<Rightarrow> (drain_state \<times> 'w) option" where
  "io_step K present f d w =
     (if present then map_option (\<lambda>x. snd (discard_slot K x)) (f d w) else Some (d, w))"

definition perform_io :: "'w kernel \<Rightarrow> executor \<Rightarrow> io_handle \<Rightarrow> 'w \<Rightarrow> (executor \<times> 'w) option" where
  "perform_io K E io w =
     (case ex_drains E io of
        None \<Rightarrow> Some (E, w)
      | Some d \<Rightarrow> do {
          (d, w) \<leftarrow> io_step K (stdout_slot d \<noteq> None) (read_fd K True) d w;
          (d, w) \<leftarrow> io_step K (stderr_slot d \<noteq> None) (read_fd K False) d w;
          (d, w) \<leftarrow> io_step K (stdin_slot d \<noteq> None) (write_stdin K) d w;
          Some (E\<lparr>ex_drains := (ex_drains E)(io \<mapsto> d)\<rparr>, w)
        })"

fun apply_effect :: "'w kernel \<Rightarrow> executor \<Rightarrow> effect \<Rightarrow> 'w \<Rightarrow>
    (event option \<times> executor \<times> 'w) option" where
  "apply_effect K E (Eff_Log level ev) w =
     Some (None, E\<lparr>ex_log := ex_log E @ [(level, log_message ev)]\<rparr>, w)"
| "apply_effect K E (Eff_WatchStream i io stream) w = Some (None, watch_stream K E i io stream w)"
| "apply_effect K E (Eff_UnwatchStream i io stream) w = Some (None, unwatch_stream K E io stream w)"
| "apply_effect K E (Eff_StartProcess i exec policy) w = start_process K E i exec policy w"
| "apply_effect K E (Eff_KillProcess i signal p is_group) w =
     Some (None, E, kill_process K E signal p is_group w)"
| "apply_effect K E (Eff_PollProcess i p) w = poll_process K E i p w"
| "apply_effect K E (Eff_PerformIo i io) w = map_option (Pair None) (perform_io K E io w)"

section \<open>Handles\<close>

interpretation handles: id_supply gen_handle "\<lambda>_. True" "\<lambda>E. unat (ex_next_handle E)" "2 ^ 64"
    "of_nat :: nat \<Rightarrow> u64"
proof (unfold_locales, goal_cases)
  case (3 s x s')
  then show ?case using counter64_next [of "ex_next_handle s"] by (auto simp: gen_handle_def)
next
  case (4 s)
  show ?case using unsigned_less [of "ex_next_handle s"] by simp
next
  case 5
  show ?case by (rule counter64_inj)
qed (auto simp: gen_handle_def)

text \<open>
  Handles in use were handed out before: their number is below the counter's. (The counter is 64
  bits wide; it is assumed not to have wrapped wherever freshness matters.)
\<close>

definition handles_below :: "executor \<Rightarrow> bool" where
  [wf_defs]: "handles_below E \<longleftrightarrow>
     (\<forall>h. ProcessHandle h \<in> dom (ex_processes E) \<longrightarrow> unat h < unat (ex_next_handle E)) \<and>
     (\<forall>h. IoHandle h \<in> dom (ex_drains E) \<longrightarrow> unat h < unat (ex_next_handle E))"

definition handles_left :: "nat \<Rightarrow> executor \<Rightarrow> bool" where
  "handles_left n E \<longleftrightarrow> unat (ex_next_handle E) + n < 2 ^ 64"

lemma handles_below_new: "handles_below (executor_new r)"
  by (simp add: handles_below_def executor_new_def)

lemma unat_next:
  assumes "unat n + k < 2 ^ 64"
  shows "unat (n + of_nat k :: u64) = unat n + k"
proof -
  have "unat (of_nat k :: u64) = k mod 2 ^ 64" unfolding unat_of_nat by simp
  then have "unat (n + of_nat k :: u64) = (unat n + k mod 2 ^ 64) mod 2 ^ 64"
    by (simp add: unat_word_ariths)
  with assms show ?thesis by simp
qed

section \<open>What an effect answers\<close>

text \<open>
  The outcomes of \<open>start_process\<close>. After a successful start the process and the drain are
  registered under two new handles; the drain table had no entry to drop.
\<close>

lemma start_process_cases:
  assumes "start_process K E i exec policy w = Some (ev, E', w')"
  obtains (failed) e where "spawn_start K i (spawn_request exec policy) w = Some (Inl e, w')"
      "ev = Some (Ev_ProcessSpawnFailed i (''spawn_failed: '' @ display_error e))" "E' = E"
  | (started) run v where "spawn_start K i (spawn_request exec policy) w = Some (Inr run, v)"
      "ev = Some (Ev_ProcessStarted i (ProcessHandle (ex_next_handle E)) (IoHandle (ex_next_handle E + 1)))"
      "E' = E\<lparr>ex_next_handle := ex_next_handle E + 2,
         ex_processes := (ex_processes E)(ProcessHandle (ex_next_handle E) \<mapsto> run_process run),
         ex_drains := (ex_drains E)(IoHandle (ex_next_handle E + 1) \<mapsto> run_drain run)\<rparr>"
      "w' = (case ex_drains E (IoHandle (ex_next_handle E + 1)) of None \<Rightarrow> v
         | Some old \<Rightarrow> snd (drain_into_parts K old v))"
proof -
  from assms obtain r v where r: "spawn_start K i (spawn_request exec policy) w = Some (r, v)"
    by (auto simp: start_process_def bind_eq_Some_conv)
  show thesis
  proof (cases r)
    case (Inl e)
    with assms r show thesis by (intro failed [of e]) (auto simp: start_process_def)
  next
    case (Inr run)
    from assms r Inr show thesis
      by (intro started [of run v])
        (auto simp: start_process_def gen_handle_def insert_drain_def Let_def add.assoc)
  qed
qed

lemma fresh_handles:
  assumes "handles_below E" and "handles_left 2 E"
  shows "ex_processes E (ProcessHandle (ex_next_handle E)) = None"
    and "ex_drains E (IoHandle (ex_next_handle E + 1)) = None"
    and "unat (ex_next_handle E + 1) = unat (ex_next_handle E) + 1"
    and "unat (ex_next_handle E + 2) = unat (ex_next_handle E) + 2"
proof -
  have le: "unat (ex_next_handle E) + 2 < 2 ^ 64" using assms(2) by (simp add: handles_left_def)
  show one: "unat (ex_next_handle E + 1) = unat (ex_next_handle E) + 1"
    using unat_next [of "ex_next_handle E" 1] le by simp
  show "unat (ex_next_handle E + 2) = unat (ex_next_handle E) + 2"
    using unat_next [of "ex_next_handle E" 2] le by simp
  show "ex_processes E (ProcessHandle (ex_next_handle E)) = None"
    using assms(1) by (fastforce simp: handles_below_def domIff)
  show "ex_drains E (IoHandle (ex_next_handle E + 1)) = None"
    using assms(1) one by (fastforce simp: handles_below_def domIff)
qed

text \<open>
  What the rest of the program can rely on: entries are never removed, an answer names the
  effect's job, and a process reported as started is registered with its drain under handles
  that were not in use.
\<close>

definition answered :: "executor \<Rightarrow> effect \<Rightarrow> event option \<Rightarrow> executor \<Rightarrow> bool" where
  "answered E f ev E' \<longleftrightarrow> dom (ex_processes E) \<subseteq> dom (ex_processes E') \<and> dom (ex_drains E) \<subseteq> dom (ex_drains E')
     \<and> (\<forall>e. ev = Some e \<longrightarrow> effect_job f = Some (event_job e))
     \<and> (\<forall>i p h. ev = Some (Ev_ProcessStarted i p h) \<longrightarrow>
          p \<in> dom (ex_processes E') - dom (ex_processes E) \<and> h \<in> dom (ex_drains E') - dom (ex_drains E))"

lemma watch_stream_frame:
  "fst (watch_stream K E i io stream w) = E \<or>
     (\<exists>fd. fst (watch_stream K E i io stream w) = E\<lparr>ex_fd_map := (ex_fd_map E)(fd_token fd \<mapsto> i)\<rparr>)"
  by (auto simp: watch_stream_def split: option.splits prod.splits sum.splits)

lemma unwatch_stream_frame:
  "fst (unwatch_stream K E io stream w) = E \<or>
     (\<exists>fd. fst (unwatch_stream K E io stream w) = E\<lparr>ex_fd_map := (ex_fd_map E)(fd_token fd := None)\<rparr>)"
  by (auto simp: unwatch_stream_def split: option.splits)

lemma perform_io_frame:
  assumes "perform_io K E io w = Some (E', w')"
  shows "E' = E \<or> (\<exists>d d'. ex_drains E io = Some d \<and> E' = E\<lparr>ex_drains := (ex_drains E)(io \<mapsto> d')\<rparr>)"
  using assms by (auto simp: perform_io_def bind_eq_Some_conv split: option.splits)

lemma poll_process_frame:
  assumes "poll_process K E i p w = Some (ev, E', w')"
  shows "E' = E \<and> (ev = None \<or> (\<exists>status. ev = Some (Ev_ProcessExited i status)))
    \<and> (w' = w \<or> (\<exists>proc r. wait_step K proc w = Some (r, w')))"
proof (cases "ex_processes E p")
  case None
  with assms show ?thesis by (simp add: poll_process_def)
next
  case (Some proc)
  with assms obtain r v where r: "wait_step K proc w = Some (r, v)"
    by (auto simp: poll_process_def bind_eq_Some_conv)
  show ?thesis
  proof (cases r)
    case (Inl e)
    with assms Some r show ?thesis by (auto simp: poll_process_def)
  next
    case (Inr s)
    with assms Some r show ?thesis by (cases s) (auto simp: poll_process_def)
  qed
qed

text \<open>
  The handle tables after an effect: unchanged keys and an unchanged counter, unless a process was
  started.
\<close>

lemma apply_effect_frame:
  assumes "apply_effect K E f w = Some (ev, E', w')"
    and "\<And>i exec policy. f \<noteq> Eff_StartProcess i exec policy"
  shows "ex_next_handle E' = ex_next_handle E \<and> dom (ex_processes E') = dom (ex_processes E)
    \<and> dom (ex_drains E') = dom (ex_drains E)
    \<and> (ev = None \<or> (\<exists>i p status. f = Eff_PollProcess i p \<and> ev = Some (Ev_ProcessExited i status)))"
proof (cases f)
  case (Eff_WatchStream i io stream)
  with assms(1) watch_stream_frame [of K E i io stream w] show ?thesis by auto
next
  case (Eff_UnwatchStream i io stream)
  with assms(1) unwatch_stream_frame [of K E io stream w] show ?thesis by auto
next
  case (Eff_PollProcess i p)
  with assms(1) poll_process_frame [of K E i p w] show ?thesis by auto
next
  case (Eff_PerformIo i io)
  with assms(1) obtain "perform_io K E io w = Some (E', w')" "ev = None" by auto
  from perform_io_frame [OF this(1)] have "ex_next_handle E' = ex_next_handle E
      \<and> ex_processes E' = ex_processes E \<and> dom (ex_drains E') = dom (ex_drains E)"
    using dom_upd_present [of "ex_drains E" io] by fastforce
  with \<open>ev = None\<close> show ?thesis by simp
qed (use assms in auto)

lemma apply_effect_answered:
  assumes "apply_effect K E f w = Some (ev, E', w')" and "handles_below E" and "handles_left 2 E"
  shows "answered E f ev E'" and "handles_below E'"
    and "unat (ex_next_handle E') \<le> unat (ex_next_handle E) + 2"
proof -
  have "answered E f ev E' \<and> handles_below E' \<and> unat (ex_next_handle E') \<le> unat (ex_next_handle E) + 2"
  proof (cases "\<exists>i exec policy. f = Eff_StartProcess i exec policy")
    case True
    then obtain i exec policy where f: "f = Eff_StartProcess i exec policy" by blast
    note fr = fresh_handles [OF assms(2,3)]
    from assms(1) f have "start_process K E i exec policy w = Some (ev, E', w')" by simp
    then show ?thesis
    proof (cases rule: start_process_cases)
      case failed
      with assms(2) show ?thesis by (auto simp: answered_def f)
    next
      case (started run v)
      have "handles_below E'"
        using assms(2) fr by (auto simp: handles_below_def started(3) less_Suc_eq)
      with fr started(2,3) show ?thesis by (auto simp: answered_def f)
    qed
  next
    case False
    then have "f \<noteq> Eff_StartProcess i exec policy" for i exec policy by blast
    from apply_effect_frame [OF assms(1) this] assms(2) show ?thesis
      by (auto simp: answered_def handles_below_def)
  qed
  then show "answered E f ev E'" and "handles_below E'"
    and "unat (ex_next_handle E') \<le> unat (ex_next_handle E) + 2"
    by blast+
qed

section \<open>Descriptors\<close>

text \<open>The descriptors the executor answers for: those in the slots of its drains.\<close>

definition owned :: "executor \<Rightarrow> i32 set" where
  "owned E = (\<Union>d \<in> ran (ex_drains E). slot_fds d)"

definition exec_laws :: "'w kernel \<Rightarrow> ('w \<Rightarrow> i32 set) \<Rightarrow> bool" where
  "exec_laws K opn \<longleftrightarrow> fd_laws K opn \<and> transfers_keep K opn \<and> read_bounded K \<and> write_bounded K
     \<and> (\<forall>w. \<forall>fd \<in> opn w. 0 \<le> fd)
     \<and> (\<forall>ep fd op w. opn (snd (k_epoll_ctl K ep fd op w)) = opn w)
     \<and> (\<forall>pid sig w. opn (snd (k_kill K pid sig w)) = opn w)
     \<and> (\<forall>pid w. opn (snd (k_waitpid K pid w)) = opn w)"

lemma exec_drop_slot:
  assumes "exec_laws K opn"
  shows "opn (drop_slot K s w) = opn w - slot_fd ` set_option s"
proof -
  have c: "opn (k_close K fd w) = opn w - {fd}" for fd w
    using fd_laws_simps(1) assms unfolding exec_laws_def closes_fds_def by blast
  have n: "fd \<notin> opn w" if "fd < 0" for fd
    using assms that unfolding exec_laws_def by fastforce
  show ?thesis
    using n by (cases s) (auto simp: drop_slot_def fd_drop_opt_def fd_drop_def c not_le)
qed

lemma discard_slot_fds:
  assumes "exec_laws K opn"
  shows "fst (snd (discard_slot K (r, d, w))) = d"
    and "opn (snd (snd (discard_slot K (r, d, w)))) = opn w - slot_fd ` finished_slot r"
  by (auto simp: discard_slot_def finished_slot_def exec_drop_slot [OF assms]
      split: sum.splits option.splits)

text \<open>A step on a drain closes exactly the descriptors it takes out of the drain.\<close>

definition gives_up :: "('w \<Rightarrow> i32 set) \<Rightarrow> drain_state \<times> 'w \<Rightarrow> drain_state \<times> 'w \<Rightarrow> bool" where
  "gives_up opn x y \<longleftrightarrow> (\<exists>X. slot_fds (fst x) = slot_fds (fst y) \<union> X \<and> opn (snd y) = opn (snd x) - X
     \<and> (slots_apart (fst x) \<longrightarrow> slots_apart (fst y) \<and> X \<inter> slot_fds (fst y) = {}))"

lemma gives_up_trans: "gives_up opn x y \<Longrightarrow> gives_up opn y z \<Longrightarrow> gives_up opn x z"
  unfolding gives_up_def by (elim exE, rule_tac x = "X \<union> Xa" in exI) auto

lemma io_step_gives_up:
  assumes "exec_laws K opn" and "io_step K present f d w = Some y"
    and "\<And>r d' w'. f d w = Some (r, d', w') \<Longrightarrow> opn w' = opn w \<and> slot_set d' \<union> finished_slot r = slot_set d
      \<and> (slots_apart d \<longrightarrow> slots_apart d' \<and> slot_fd ` finished_slot r \<inter> slot_fds d' = {})"
  shows "gives_up opn (d, w) y"
proof (cases present)
  case True
  with assms(2) obtain r d' w' where f: "f d w = Some (r, d', w')" "y = snd (discard_slot K (r, d', w'))"
    by (auto simp: io_step_def)
  note step = assms(3) [OF f(1)]
  have "slot_fds d = slot_fds d' \<union> slot_fd ` finished_slot r"
    using step by (metis slot_fds_slot_set image_Un)
  then show ?thesis
    unfolding gives_up_def
    using discard_slot_fds [OF assms(1), of r d' w'] step f(2)
    by (intro exI [of _ "slot_fd ` finished_slot r"]) simp
next
  case False
  with assms(2) show ?thesis by (auto simp: io_step_def gives_up_def intro!: exI [of _ "{}"])
qed

lemma perform_io_gives_up:
  assumes K: "exec_laws K opn" and "perform_io K E io w = Some (E', w')"
  shows "(E' = E \<and> w' = w) \<or> (\<exists>d d'. ex_drains E io = Some d \<and>
    E' = E\<lparr>ex_drains := (ex_drains E)(io \<mapsto> d')\<rparr> \<and> gives_up opn (d, w) (d', w'))"
proof (cases "ex_drains E io")
  case None
  with assms(2) show ?thesis by (simp add: perform_io_def)
next
  case (Some d)
  have T: "transfers_keep K opn" "read_bounded K" "write_bounded K" using K by (simp_all add: exec_laws_def)
  note rd = read_fd_step [OF T(1,2)] and wr = write_stdin_step [OF T(1,3)]
  from assms(2) Some obtain d1 w1 d2 w2 d3 w3 where
    s: "io_step K (stdout_slot d \<noteq> None) (read_fd K True) d w = Some (d1, w1)"
       "io_step K (stderr_slot d1 \<noteq> None) (read_fd K False) d1 w1 = Some (d2, w2)"
       "io_step K (stdin_slot d2 \<noteq> None) (write_stdin K) d2 w2 = Some (d3, w3)"
    and E': "E' = E\<lparr>ex_drains := (ex_drains E)(io \<mapsto> d3)\<rparr>" "w' = w3"
    by (auto simp: perform_io_def bind_eq_Some_conv)
  have "gives_up opn (d, w) (d1, w1)" by (rule io_step_gives_up [OF K s(1)])
      (rule conjI, erule rd(1), rule conjI, erule rd(2), rule impI, erule (1) rd(3))
  moreover have "gives_up opn (d1, w1) (d2, w2)" by (rule io_step_gives_up [OF K s(2)])
      (rule conjI, erule rd(1), rule conjI, erule rd(2), rule impI, erule (1) rd(3))
  moreover have "gives_up opn (d2, w2) (d3, w3)" by (rule io_step_gives_up [OF K s(3)])
      (rule conjI, erule wr(1), rule conjI, erule wr(2), rule impI, erule (1) wr(3))
  ultimately have "gives_up opn (d, w) (d3, w3)" by (blast intro: gives_up_trans)
  with Some E' show ?thesis by blast
qed

lemma owned_insert:
  "ex_drains E io = None \<Longrightarrow> ex_drains E' = (ex_drains E)(io \<mapsto> d) \<Longrightarrow> owned E' = owned E \<union> slot_fds d"
  by (auto simp: owned_def)

lemma owned_replace:
  assumes "ex_drains E io = Some d" and "ex_drains E' = (ex_drains E)(io \<mapsto> d')"
    and "slot_fds d = slot_fds d' \<union> X"
  shows "owned E = owned E' \<union> X"
proof -
  have "ran (ex_drains E) = insert d (ran ((ex_drains E)(io := None)))"
    using ran_map_upd [of "(ex_drains E)(io := None)" io d] assms(1) by (simp add: fun_upd_idem)
  moreover have "ran ((ex_drains E)(io \<mapsto> d')) = insert d' (ran ((ex_drains E)(io := None)))"
    using ran_map_upd [of "(ex_drains E)(io := None)" io d'] by simp
  ultimately show ?thesis using assms(2,3) by (auto simp: owned_def)
qed

text \<open>What an effect does to the drain table, and to the descriptor table with it.\<close>

lemma apply_effect_drains:
  assumes K: "exec_laws K opn" and run: "apply_effect K E f w = Some (ev, E', w')"
    and H: "handles_below E" "handles_left 2 E"
  obtains (same) "ex_drains E' = ex_drains E" "opn w' = opn w"
  | (added) io d where "ex_drains E io = None" "ex_drains E' = (ex_drains E)(io \<mapsto> d)" "slots_apart d"
      "opn w' = opn w \<union> slot_fds d" "slot_fds d \<inter> opn w = {}"
  | (stepped) io d d' where "ex_drains E io = Some d" "ex_drains E' = (ex_drains E)(io \<mapsto> d')"
      "gives_up opn (d, w) (d', w')"
proof (cases f)
  case (Eff_WatchStream i io stream)
  moreover have "opn (snd (watch_stream K E i io stream w)) = opn w"
    using K by (auto simp: watch_stream_def add_with_token_def exec_laws_def Let_def split_beta
        split: option.splits sum.splits)
  ultimately show thesis using run watch_stream_frame [of K E i io stream w] same by auto
next
  case (Eff_UnwatchStream i io stream)
  moreover have "opn (snd (unwatch_stream K E io stream w)) = opn w"
    using K by (auto simp: unwatch_stream_def del_raw_def exec_laws_def split: option.splits)
  ultimately show thesis using run unwatch_stream_frame [of K E io stream w] same by auto
next
  case (Eff_StartProcess i exec policy)
  with run have "start_process K E i exec policy w = Some (ev, E', w')" by simp
  then show thesis
  proof (cases rule: start_process_cases)
    case (failed e)
    with K spawn_start_fds [of K opn, OF _ failed(1)] same show thesis by (simp add: exec_laws_def)
  next
    case (started run v)
    note fresh = fresh_handles(2) [OF H]
    have "opn v = opn w \<union> slot_fds (run_drain run)" "slot_fds (run_drain run) \<inter> opn w = {}"
      "slots_apart (run_drain run)"
      using K spawn_start_fds [of K opn, OF _ started(1)] by (simp_all add: exec_laws_def)
    with added [OF fresh, of "run_drain run"] fresh started(3,4) show thesis by simp
  qed
next
  case (Eff_KillProcess i signal p g)
  have "opn (kill_process K E signal p g w) = opn w"
    using K by (auto simp: kill_process_def kill_pgroup_def process_kill_def kill_target_def
        exec_laws_def Let_def split_beta split: option.splits)
  with run Eff_KillProcess same show thesis by auto
next
  case (Eff_PollProcess i p)
  with run have "poll_process K E i p w = Some (ev, E', w')" by simp
  from poll_process_frame [OF this] wait_step_keep [of opn K] K
  have "E' = E" "opn w' = opn w" by (auto simp: exec_laws_def)
  with same show thesis by simp
next
  case (Eff_PerformIo i io)
  with run have "perform_io K E io w = Some (E', w')" by auto
  from perform_io_gives_up [OF K this] show thesis using same stepped by auto
qed (use run same in auto)

lemma apply_effect_fds:
  assumes "exec_laws K opn" and "apply_effect K E f w = Some (ev, E', w')"
    and "handles_below E" and "handles_left 2 E"
  shows "opn w' - owned E' = opn w - owned E"
  using assms
proof (cases rule: apply_effect_drains)
  case same
  then show ?thesis by (simp add: owned_def)
next
  case (added io d)
  with owned_insert [OF added(1,2)] show ?thesis by auto
next
  case (stepped io d d')
  then obtain X where "slot_fds d = slot_fds d' \<union> X" "opn w' = opn w - X" by (auto simp: gives_up_def)
  with owned_replace [OF stepped(1,2)] show ?thesis by auto
qed

text \<open>
  The executor's books: the slots of one drain, and of different drains, hold different
  descriptors, and all of them are open.
\<close>

definition drains_apart :: "executor \<Rightarrow> bool" where
  "drains_apart E \<longleftrightarrow> (\<forall>d \<in> ran (ex_drains E). slots_apart d) \<and>
     (\<forall>io io' d d'. ex_drains E io = Some d \<longrightarrow> ex_drains E io' = Some d' \<longrightarrow> io \<noteq> io' \<longrightarrow>
        slot_fds d \<inter> slot_fds d' = {})"

definition booked :: "('w \<Rightarrow> i32 set) \<Rightarrow> executor \<Rightarrow> 'w \<Rightarrow> bool" where
  "booked opn E w \<longleftrightarrow> drains_apart E \<and> owned E \<subseteq> opn w"

lemma booked_frame: "booked opn E w \<Longrightarrow> ex_drains E' = ex_drains E \<Longrightarrow> opn w' = opn w \<Longrightarrow> booked opn E' w'"
  by (simp add: booked_def drains_apart_def owned_def)

lemma booked_insert:
  assumes "booked opn E w" and "ex_drains E io = None" and "ex_drains E' = (ex_drains E)(io \<mapsto> d)"
    and "slots_apart d" and "opn w' = opn w \<union> slot_fds d" and "slot_fds d \<inter> opn w = {}"
  shows "booked opn E' w'"
proof -
  have sub: "slot_fds d' \<subseteq> opn w" if "ex_drains E k = Some d'" for k d'
    using assms(1) ranI [of "ex_drains E" k d'] that by (auto simp: booked_def owned_def)
  have ran: "ran (ex_drains E') = insert d (ran (ex_drains E))" using assms(2) by (simp add: assms(3))
  have "drains_apart E'"
    unfolding drains_apart_def
  proof (intro conjI allI impI ballI)
    fix x assume "x \<in> ran (ex_drains E')"
    then show "slots_apart x" using assms(1,4) by (auto simp: ran booked_def drains_apart_def)
  next
    fix k l x y assume a: "ex_drains E' k = Some x" "ex_drains E' l = Some y" "k \<noteq> l"
    show "slot_fds x \<inter> slot_fds y = {}"
    proof (cases "k = io \<or> l = io")
      case True
      then show ?thesis
      proof
        assume "k = io"
        with a have "x = d" "ex_drains E l = Some y" by (simp_all add: assms(3))
        with sub [of l y] assms(6) show ?thesis by blast
      next
        assume "l = io"
        with a have "y = d" "ex_drains E k = Some x" by (simp_all add: assms(3))
        with sub [of k x] assms(6) show ?thesis by blast
      qed
    next
      case False
      with a assms(1) show ?thesis unfolding booked_def drains_apart_def by (simp add: assms(3))
    qed
  qed
  moreover have "owned E' \<subseteq> opn w'" using assms(1,5) by (auto simp: owned_def ran booked_def)
  ultimately show ?thesis by (simp add: booked_def)
qed

lemma booked_replace:
  assumes "booked opn E w" and "ex_drains E io = Some d" and "ex_drains E' = (ex_drains E)(io \<mapsto> d')"
    and "gives_up opn (d, w) (d', w')"
  shows "booked opn E' w'"
proof -
  have "slots_apart d" using assms(1,2) ranI [of "ex_drains E" io d] by (auto simp: booked_def drains_apart_def)
  with assms(4) obtain X where X: "slot_fds d = slot_fds d' \<union> X" "opn w' = opn w - X" "slots_apart d'"
    "X \<inter> slot_fds d' = {}" by (auto simp: gives_up_def)
  have other: "slot_fds x \<inter> slot_fds d = {}" if "ex_drains E k = Some x" "k \<noteq> io" for k x
    using assms(1,2) that unfolding booked_def drains_apart_def by blast
  have sub: "slot_fds x \<subseteq> opn w" if "ex_drains E k = Some x" for k x
    using assms(1) ranI [of "ex_drains E" k x] that by (auto simp: booked_def owned_def)
  have new: "slots_apart x \<and> slot_fds x \<subseteq> opn w'" if "ex_drains E' k = Some x" for k x
  proof (cases "k = io")
    case True
    with that have "x = d'" by (simp add: assms(3))
    with X sub [OF assms(2)] show ?thesis by blast
  next
    case False
    with that have k: "ex_drains E k = Some x" by (simp add: assms(3))
    with assms(1) ranI [of "ex_drains E" k x] have "slots_apart x" by (auto simp: booked_def drains_apart_def)
    with sub [OF k] other [OF k False] X show ?thesis by blast
  qed
  have "drains_apart E'"
    unfolding drains_apart_def
  proof (intro conjI allI impI ballI)
    fix x assume "x \<in> ran (ex_drains E')"
    then show "slots_apart x" using new by (auto simp: ran_def)
  next
    fix k l x y assume a: "ex_drains E' k = Some x" "ex_drains E' l = Some y" "k \<noteq> l"
    have old: "\<exists>z. ex_drains E j = Some z \<and> slot_fds v \<subseteq> slot_fds z" if "ex_drains E' j = Some v" for j v
      using that X(1) assms(2) by (cases "j = io") (auto simp: assms(3))
    from old [OF a(1)] old [OF a(2)] obtain x' y' where "ex_drains E k = Some x'" "slot_fds x \<subseteq> slot_fds x'"
      "ex_drains E l = Some y'" "slot_fds y \<subseteq> slot_fds y'" by blast
    moreover from this a(3) assms(1) have "slot_fds x' \<inter> slot_fds y' = {}"
      unfolding booked_def drains_apart_def by blast
    ultimately show "slot_fds x \<inter> slot_fds y = {}" by blast
  qed
  moreover have "owned E' \<subseteq> opn w'" using new by (auto simp: owned_def ran_def)
  ultimately show ?thesis by (simp add: booked_def)
qed

lemma apply_effect_booked:
  assumes "exec_laws K opn" and "apply_effect K E f w = Some (ev, E', w')"
    and "handles_below E" and "handles_left 2 E" and "booked opn E w"
  shows "booked opn E' w'"
  using assms(1-4)
proof (cases rule: apply_effect_drains)
  case same
  then show ?thesis by (rule booked_frame [OF assms(5)])
next
  case (added io d)
  then show ?thesis by (rule booked_insert [OF assms(5)])
next
  case (stepped io d d')
  then show ?thesis by (rule booked_replace [OF assms(5)])
qed

section \<open>Properties\<close>

text \<open>C7: The executor neither leaks nor steals descriptors. Whatever effect it carries out, the
  descriptors that are open but not held by one of its drains are the same before and after:
  starting a process adds only descriptors of the new drain, performing I/O closes only slots
  it takes out of the drain, and watching, signalling, polling and logging touch none. And its
  books stay right: no descriptor is in two slots, and every one in a slot is open.\<close>

theorem effects_account:
  assumes "exec_laws K opn" and "apply_effect K E f w = Some (ev, E', w')"
    and "handles_below E" and "handles_left 2 E"
  shows "opn w' - owned E' = opn w - owned E \<and> (booked opn E w \<longrightarrow> booked opn E' w')"
  using apply_effect_fds [OF assms] apply_effect_booked [OF assms] by blast

text \<open>C28: What the core gets back. Only starting and polling a process answer with an event; it
  names the effect's job; \<open>ProcessStarted\<close> carries two handles that were not in use and under
  which the process and its drain are now registered; and no effect ever removes a process or
  a drain from the tables.\<close>

theorem effects_answer:
  assumes "apply_effect K E f w = Some (ev, E', w')" and "handles_below E" and "handles_left 2 E"
  shows "(\<forall>e. ev = Some e \<longrightarrow> effect_job f = Some (event_job e)
      \<and> ((\<exists>i x p. f = Eff_StartProcess i x p) \<or> (\<exists>i p. f = Eff_PollProcess i p)))
    \<and> (\<forall>i p h. ev = Some (Ev_ProcessStarted i p h) \<longrightarrow> ex_processes E p = None \<and> ex_drains E h = None
         \<and> p \<in> dom (ex_processes E') \<and> h \<in> dom (ex_drains E'))
    \<and> dom (ex_processes E) \<subseteq> dom (ex_processes E') \<and> dom (ex_drains E) \<subseteq> dom (ex_drains E')"
proof -
  have "(\<exists>i x p. f = Eff_StartProcess i x p) \<or> (\<exists>i p. f = Eff_PollProcess i p)" if "ev = Some e" for e
    using apply_effect_frame [OF assms(1)] that by blast
  moreover note apply_effect_answered(1) [OF assms, unfolded answered_def]
  ultimately show ?thesis by blast
qed

section \<open>Closed instances\<close>

definition table_fds :: "i32 set \<Rightarrow> i32 set" where
  "table_fds w = {fd \<in> w. 0 \<le> fd}"

lemma table_exec_laws: "exec_laws table_kernel table_fds"
proof -
  have m: "Max (insert 2 w) + 1 \<notin> w" "Max (insert 2 w) + 2 \<notin> w" "2 \<le> Max (insert 2 w)"
    if "finite w" for w :: "i32 set"
    using that Max_ge [of "insert 2 w"] by fastforce+
  have "fd_laws table_kernel table_fds"
    unfolding fd_laws_def closes_fds_def
    by (auto simp: table_kernel_def quiet_kernel_def table_fds_def split: if_splits dest: m)
  moreover have "transfers_keep table_kernel table_fds" "read_bounded table_kernel" "write_bounded table_kernel"
    by (simp_all add: transfers_keep_def read_bounded_def write_bounded_def table_kernel_def
        quiet_kernel_def)
  ultimately show ?thesis
    unfolding exec_laws_def by (simp add: table_fds_def table_kernel_def quiet_kernel_def)
qed

definition fresh_executor :: executor where
  "fresh_executor = executor_new \<lparr>epfd = 3, next_token = 1, signalfd = None, sigchld_token = None\<rparr>"

lemma fresh_executor_ok: "handles_below fresh_executor" "handles_left 2 fresh_executor"
  by (simp_all add: fresh_executor_def handles_below_new) (simp add: handles_left_def executor_new_def)

lemma fresh_executor_start:
  "\<exists>E' w'. apply_effect table_kernel fresh_executor (Eff_StartProcess 7 demo_spec demo_policy) {0, 1, 2, 3}
     = Some (Some (Ev_ProcessStarted 7 (ProcessHandle 1) (IoHandle 2)), E', w')"
proof -
  have m: "Max (insert 2 {0, 1, 2, 3 :: int}) = 3" by simp
  obtain rp w' where "spawn_start table_kernel 7 (spawn_request demo_spec demo_policy) {0, 1, 2, 3}
      = Some (Inr rp, w')"
    using m by (simp add: spawn_start_def resolve_backend_def force_fork_def spawn_request_def demo_spec_def
        exec_context_new_def process_group_default_def select_backend_def table_kernel_def
        quiet_kernel_def spawn_posix_internal_def pipes_new_def maybe_pipe_def make_pipe_def
        fd_new_def Let_def posix_ret_def stdio_actions_def dup_and_close_def inherited_closes_def
        spawn_attrs_def parent_drain_def drain_new_def claim_slot_def set_nonblock_def
        syscall_ret_def)
  then show ?thesis
    by (simp add: start_process_def fresh_executor_def executor_new_def gen_handle_def insert_drain_def)
qed

lemma effects_account_witness:
  "\<exists>ev E' w'. apply_effect table_kernel fresh_executor (Eff_StartProcess 7 demo_spec demo_policy)
      {0, 1, 2, 3} = Some (ev, E', w') \<and> table_fds w' - owned E' = {0, 1, 2, 3}"
proof -
  obtain E' w' where h: "apply_effect table_kernel fresh_executor
      (Eff_StartProcess 7 demo_spec demo_policy) {0, 1, 2, 3}
      = Some (Some (Ev_ProcessStarted 7 (ProcessHandle 1) (IoHandle 2)), E', w')"
    using fresh_executor_start by blast
  have "owned fresh_executor = {}" by (simp add: owned_def fresh_executor_def executor_new_def)
  with effects_account [OF table_exec_laws h fresh_executor_ok] h show ?thesis
    by (auto simp: table_fds_def)
qed

lemma effects_answer_witness:
  "\<exists>E' w'. apply_effect table_kernel fresh_executor (Eff_StartProcess 7 demo_spec demo_policy) {0, 1, 2, 3}
     = Some (Some (Ev_ProcessStarted 7 (ProcessHandle 1) (IoHandle 2)), E', w')
     \<and> ProcessHandle 1 \<in> dom (ex_processes E') \<and> IoHandle 2 \<in> dom (ex_drains E')"
proof -
  obtain E' w' where h: "apply_effect table_kernel fresh_executor
      (Eff_StartProcess 7 demo_spec demo_policy) {0, 1, 2, 3}
      = Some (Some (Ev_ProcessStarted 7 (ProcessHandle 1) (IoHandle 2)), E', w')"
    using fresh_executor_start by blast
  from effects_answer [OF h fresh_executor_ok] h show ?thesis by auto
qed

end
