(* ===== verification/HighLevel.thy ===== *)
theory HighLevel
  imports CoreTypes
begin

text \<open>
  \<open>src/high_level/\<close>: the capability record and the command schema of \<open>api.rs\<close>, and the two
  command builders of \<open>android.rs\<close> a command is mapped through. Strings are lists of
  characters; a command is the only thing a client can ask to be executed.
\<close>

section \<open>Command builders (android.rs)\<close>

record exec_config =
  cfg_timeout_ms :: "u32 option"
  cfg_kill_grace_ms :: u32
  cfg_cancel :: cancel_policy
  cfg_max_output :: usize

record android_exec_request =
  req_argv :: "string list"
  req_stdin :: "bytes option"
  req_capture_stdout :: bool
  req_capture_stderr :: bool
  req_timeout_ms :: "u32 option"
  req_kill_grace_ms :: u32
  req_cancel :: cancel_policy
  req_max_output :: usize

definition android_cmd :: "string \<Rightarrow> string list \<Rightarrow> exec_config \<Rightarrow> android_exec_request" where
  "android_cmd service args cfg =
     \<lparr>req_argv = [''/system/bin/cmd'', service] @ args, req_stdin = None,
      req_capture_stdout = True, req_capture_stderr = True,
      req_timeout_ms = cfg_timeout_ms cfg, req_kill_grace_ms = cfg_kill_grace_ms cfg,
      req_cancel = cfg_cancel cfg, req_max_output = cfg_max_output cfg\<rparr>"

definition android_dumpsys :: "string \<Rightarrow> string list \<Rightarrow> exec_config \<Rightarrow> android_exec_request" where
  "android_dumpsys service args cfg =
     \<lparr>req_argv = [''/system/bin/dumpsys'', service] @ args, req_stdin = None,
      req_capture_stdout = True, req_capture_stderr = True,
      req_timeout_ms = cfg_timeout_ms cfg, req_kill_grace_ms = cfg_kill_grace_ms cfg,
      req_cancel = cfg_cancel cfg, req_max_output = cfg_max_output cfg\<rparr>"

section \<open>Commands and capabilities (api.rs)\<close>

record capability =
  allow_cmd :: bool
  allow_dumpsys :: bool

definition capability_default :: capability where
  "capability_default = \<lparr>allow_cmd = True, allow_dumpsys = True\<rparr>"

datatype exec_command = Cmd string "string list" | Dumpsys string "string list"

text \<open>The last step of both branches of \<open>map_to_exec\<close>.\<close>

definition split_request :: "android_exec_request \<Rightarrow> exec_spec \<times> exec_policy" where
  "split_request req =
     (\<lparr>spec_argv = req_argv req, spec_stdin = req_stdin req,
       spec_capture_stdout = req_capture_stdout req, spec_capture_stderr = req_capture_stderr req,
       spec_max_output = req_max_output req\<rparr>,
      \<lparr>pol_timeout_ms = req_timeout_ms req, pol_kill_grace_ms = req_kill_grace_ms req,
       pol_cancel = req_cancel req\<rparr>)"

primrec map_to_exec :: "exec_command \<Rightarrow> exec_spec \<times> exec_policy" where
  "map_to_exec (Cmd service args) =
     split_request (android_cmd service args
       \<lparr>cfg_timeout_ms = None, cfg_kill_grace_ms = 1000, cfg_cancel = CancelGraceful,
        cfg_max_output = 1024 * 1024\<rparr>)"
| "map_to_exec (Dumpsys service args) =
     split_request (android_dumpsys service args
       \<lparr>cfg_timeout_ms = None, cfg_kill_grace_ms = 1000, cfg_cancel = CancelGraceful,
        cfg_max_output = 4 * 1024 * 1024\<rparr>)"

section \<open>What a mapped command can be\<close>

text \<open>
  The promise of the command schema: only the two Android front ends are ever executed, with
  the client's words as arguments and nothing on standard input.
\<close>

definition android_tools :: "string set" where
  "android_tools = {''/system/bin/cmd'', ''/system/bin/dumpsys''}"

definition command_words :: "exec_command \<Rightarrow> string list" where
  "command_words c = (case c of Cmd service args \<Rightarrow> service # args
     | Dumpsys service args \<Rightarrow> service # args)"

definition confined :: "exec_spec \<Rightarrow> bool" where
  "confined e \<longleftrightarrow> spec_argv e \<noteq> [] \<and> hd (spec_argv e) \<in> android_tools \<and> spec_stdin e = None
     \<and> spec_capture_stdout e \<and> spec_capture_stderr e \<and> spec_max_output e \<le> 4 * 1024 * 1024"

lemma map_to_exec_confined: "map_to_exec c = (e, p) \<Longrightarrow> confined e"
  by (cases c) (auto simp: split_request_def android_cmd_def android_dumpsys_def confined_def
      android_tools_def)

lemma map_to_exec_words: "map_to_exec c = (e, p) \<Longrightarrow> tl (spec_argv e) = command_words c"
  by (cases c) (auto simp: split_request_def android_cmd_def android_dumpsys_def command_words_def)

lemma map_to_exec_policy:
  "map_to_exec c = (e, p) \<Longrightarrow>
     p = \<lparr>pol_timeout_ms = None, pol_kill_grace_ms = 1000, pol_cancel = CancelGraceful\<rparr>"
  by (cases c) (auto simp: split_request_def android_cmd_def android_dumpsys_def)

end
