(* ===== verification/Router.thy ===== *)
theory Router
  imports HighLevel IdSupply
begin

text \<open>
  \<open>src/mid_level/router.rs\<close>: a request of a peer becomes one action for the core, executions
  behind the capability gate and under a fresh job identifier.
\<close>

datatype request = ExecReq u32 exec_command | GetResult u32 u64 | Cancel u32 u64

record router =
  rt_next_id :: u64

definition router_new :: router where
  "router_new = \<lparr>rt_next_id = 1\<rparr>"

text \<open>\<open>fetch_add(1)\<close> returns the old value and wraps.\<close>

definition router_next_id :: "router \<Rightarrow> u64 \<times> router" where
  "router_next_id r = (rt_next_id r, r\<lparr>rt_next_id := rt_next_id r + 1\<rparr>)"

definition gate :: "capability \<Rightarrow> exec_command \<Rightarrow> bool" where
  "gate cap cmd = (case cmd of Cmd _ _ \<Rightarrow> allow_cmd cap | Dumpsys _ _ \<Rightarrow> allow_dumpsys cap)"

fun router_handle :: "router \<Rightarrow> request \<Rightarrow> action option \<times> router" where
  "router_handle r (ExecReq uid cmd) =
     (if \<not> gate capability_default cmd then (None, r)
      else let (exec, policy) = map_to_exec cmd; (i, r) = router_next_id r
           in (Some (Submit i uid exec policy), r))"
| "router_handle r (GetResult _ i) = (Some (Query i), r)"
| "router_handle r (Cancel _ i) = (Some (Control i GracefulStop), r)"

text \<open>The identifiers the router hands out are supplied by the counter interface.\<close>

interpretation router_ids: id_supply router_next_id "\<lambda>_. True" "\<lambda>r. unat (rt_next_id r)" "2 ^ 64"
    "of_nat :: nat \<Rightarrow> u64"
proof (unfold_locales, goal_cases)
  case (3 s x s')
  then show ?case using counter64_next [of "rt_next_id s"] by (auto simp: router_next_id_def)
next
  case (4 s)
  show ?case using unsigned_less [of "rt_next_id s"] by simp
next
  case 5
  show ?case by (rule counter64_inj)
qed (auto simp: router_next_id_def)

text \<open>A run of requests, and the identifiers of the jobs it submits.\<close>

fun router_run :: "router \<Rightarrow> request list \<Rightarrow> action option list \<times> router" where
  "router_run r [] = ([], r)"
| "router_run r (q # qs) =
     (let (a, r) = router_handle r q; (as, r) = router_run r qs in (a # as, r))"

fun submitted :: "action option list \<Rightarrow> u64 list" where
  "submitted [] = []"
| "submitted (Some (Submit i uid e p) # as) = i # submitted as"
| "submitted (_ # as) = submitted as"

lemma gate_default [simp]: "gate capability_default cmd"
  by (simp add: gate_def capability_default_def split: exec_command.splits)

lemma router_handle_exec:
  "router_handle r (ExecReq uid cmd) =
     (Some (Submit (rt_next_id r) uid (fst (map_to_exec cmd)) (snd (map_to_exec cmd))),
      snd (router_next_id r))"
  by (simp add: router_next_id_def split_beta Let_def)

lemma router_run_draws:
  "router_run r qs = (as, r') \<Longrightarrow>
     \<exists>n \<le> length qs. draws router_next_id n r = (submitted as, r')"
proof (induction qs arbitrary: r as r')
  case (Cons q qs)
  obtain a r1 where a: "router_handle r q = (a, r1)" by fastforce
  obtain bs r2 where bs: "router_run r1 qs = (bs, r2)" by fastforce
  have as: "as = a # bs" and r2: "r2 = r'" using Cons.prems a bs by simp_all
  obtain n where n: "n \<le> length qs" "draws router_next_id n r1 = (submitted bs, r')"
    using Cons.IH [OF bs] r2 by blast
  show ?case
  proof (cases q)
    case (ExecReq uid cmd)
    with a have "r1 = snd (router_next_id r)" "a = Some (Submit (rt_next_id r) uid
        (fst (map_to_exec cmd)) (snd (map_to_exec cmd)))"
      by (auto simp: router_handle_exec simp del: router_handle.simps)
    with n as have "Suc n \<le> length (q # qs)
        \<and> draws router_next_id (Suc n) r = (submitted as, r')"
      by (simp add: router_next_id_def)
    then show ?thesis by blast
  next
    case (GetResult uid i)
    with a n as show ?thesis by (intro exI [of _ n]) auto
  next
    case (Cancel uid i)
    with a n as show ?thesis by (intro exI [of _ n]) auto
  qed
qed (auto intro: exI [of _ 0])

section \<open>Properties\<close>

text \<open>C29: Job identifiers are fresh. However requests of the three kinds are mixed, no two jobs
  the router submits share an identifier within any 2^64 requests, wherever its counter starts;
  after that the counter has wrapped and identifiers repeat.\<close>

theorem router_ids_fresh:
  assumes "router_run r qs = (as, r')" and "length qs \<le> 2 ^ 64"
  shows "distinct (submitted as)"
proof -
  obtain n where "n \<le> length qs" "draws router_next_id n r = (submitted as, r')"
    using router_run_draws [OF assms(1)] by blast
  with assms(2) show ?thesis using router_ids.draws_distinct by simp
qed

lemma router_ids_fresh_witness:
  "\<exists>as r'. router_run router_new [ExecReq 0 (Cmd ''activity'' []), Cancel 0 7,
      ExecReq 5 (Dumpsys ''power'' [])] = (as, r') \<and> submitted as = [1, 2] \<and> distinct (submitted as)"
proof -
  let ?qs = "[ExecReq 0 (Cmd ''activity'' []), Cancel 0 7, ExecReq 5 (Dumpsys ''power'' [])]"
  obtain as r' where h: "router_run router_new ?qs = (as, r')" by fastforce
  have "submitted as = [1, 2]"
    using h by (auto simp: router_new_def router_next_id_def split_beta Let_def)
  with h router_ids_fresh [OF h] show ?thesis by auto
qed

text \<open>C30: The command schema confines what a client can run. Every request is answered by exactly
  one action; an execution becomes a submission under the peer's user id whose program is one of
  the two Android front ends, with the client's words, in order, as its arguments, nothing on
  standard input, both streams captured up to at most 4 MiB, and no timeout; a query or a
  cancellation names the requested job, whoever asks for it.\<close>

theorem requests_confined:
  shows "case q of
      ExecReq uid cmd \<Rightarrow> (\<exists>e p. router_handle r q = (Some (Submit (rt_next_id r) uid e p),
          snd (router_next_id r)) \<and> confined e \<and> tl (spec_argv e) = command_words cmd
          \<and> pol_timeout_ms p = None \<and> pol_cancel p = CancelGraceful)
    | GetResult uid i \<Rightarrow> router_handle r q = (Some (Query i), r)
    | Cancel uid i \<Rightarrow> router_handle r q = (Some (Control i GracefulStop), r)"
proof (cases q)
  case (ExecReq uid cmd)
  obtain e p where m: "map_to_exec cmd = (e, p)" by fastforce
  show ?thesis
    unfolding ExecReq request.case router_handle_exec m
    using map_to_exec_confined [OF m] map_to_exec_words [OF m] map_to_exec_policy [OF m] by simp
qed simp_all

end
