(* ===== verification/Wire.thy ===== *)
theory Wire
  imports Router Buffer Writer
begin

text \<open>
  The wire format of \<open>src/mid_level/ipc.rs\<close>: a message is a little-endian 32-bit length and a
  payload whose first byte is its type. \<open>decode_request\<close> reads one request from a client's
  socket, \<open>encode_response\<close> writes one response. JSON is \<open>serde_json\<close>'s, a third-party
  package: the record \<open>serde\<close> holds its two entry points as parameters.
\<close>

section \<open>Little-endian integers\<close>

primrec le_bytes :: "nat \<Rightarrow> nat \<Rightarrow> bytes" where
  "le_bytes 0 x = []"
| "le_bytes (Suc n) x = of_nat (x mod 256) # le_bytes n (x div 256)"

primrec from_le :: "bytes \<Rightarrow> nat" where
  "from_le [] = 0"
| "from_le (b # bs) = unat b + 256 * from_le bs"

lemma length_le_bytes [simp]: "length (le_bytes n x) = n"
  by (induction n arbitrary: x) simp_all

lemma le_bytes_numeral:
  "le_bytes (numeral k) x = of_nat (x mod 256) # le_bytes (pred_numeral k) (x div 256)"
  by (simp only: numeral_eq_Suc [of k] le_bytes.simps)

lemma unat_byte: "unat (of_nat (x mod 256) :: u8) = x mod 256"
  unfolding unat_of_nat by simp

lemma from_le_le_bytes: "x < 256 ^ n \<Longrightarrow> from_le (le_bytes n x) = x"
proof (induction n arbitrary: x)
  case (Suc n)
  then have "x div 256 < 256 ^ n" by (simp add: less_mult_imp_div_less mult.commute)
  with Suc.IH show ?case by (simp add: unat_byte del: of_nat_mod)
qed simp

lemma from_le_less: "from_le bs < 256 ^ length bs"
proof (induction bs)
  case (Cons b bs)
  have "unat b < 256" using unsigned_less [of b] by simp
  with Cons show ?case by simp
qed simp

lemma le_bytes_from_le: "le_bytes (length bs) (from_le bs) = bs"
proof (induction bs)
  case (Cons b bs)
  have "unat b < 256" using unsigned_less [of b] by simp
  then have "(unat b + 256 * from_le bs) mod 256 = unat b"
    "(unat b + 256 * from_le bs) div 256 = from_le bs"
    by simp_all
  with Cons show ?case by simp
qed simp

definition u64_to_le_bytes :: "u64 \<Rightarrow> bytes" where
  "u64_to_le_bytes x = le_bytes 8 (unat x)"

definition u64_from_le_bytes :: "bytes \<Rightarrow> u64" where
  "u64_from_le_bytes bs = of_nat (from_le bs)"

lemma u64_le_roundtrip [simp]: "u64_from_le_bytes (u64_to_le_bytes x) = x"
proof -
  have "unat x < 256 ^ 8" using unsigned_less [of x] by simp
  then show ?thesis
    by (simp add: u64_from_le_bytes_def u64_to_le_bytes_def from_le_le_bytes del: le_bytes.simps)
qed

lemma u64_le_bytes_of_payload:
  assumes "length bs = 8"
  shows "u64_to_le_bytes (u64_from_le_bytes bs) = bs"
proof -
  have "from_le bs < 2 ^ 64" using from_le_less [of bs] assms by simp
  then have "unat (of_nat (from_le bs) :: u64) = from_le bs"
    unfolding unat_of_nat by simp
  then show ?thesis
    using le_bytes_from_le [of bs] assms by (simp add: u64_from_le_bytes_def u64_to_le_bytes_def)
qed

lemma length_u64_to_le_bytes [simp]: "length (u64_to_le_bytes x) = 8"
  by (simp add: u64_to_le_bytes_def)

section \<open>Requests\<close>

record serde =
  json_command :: "bytes \<Rightarrow> exec_command option"
  json_outcome :: "exec_outcome option \<Rightarrow> bytes option"

text \<open>A JSON library that understands nothing, for closed instances.\<close>

definition no_json :: serde where
  "no_json = \<lparr>json_command = (\<lambda>_. None), json_outcome = (\<lambda>_. None)\<rparr>"

definition MAX_REQUEST :: nat where
  "MAX_REQUEST = 10 * 1024 * 1024"

text \<open>The match on the payload's first byte.\<close>

fun decode_payload :: "serde \<Rightarrow> u32 \<Rightarrow> bytes \<Rightarrow> request option" where
  "decode_payload S uid [] = None"
| "decode_payload S uid (t # body) =
     (if t = 1 then map_option (ExecReq uid) (json_command S body)
      else if t = 2 then
        (if length (t # body) = 9 then Some (GetResult uid (u64_from_le_bytes body)) else None)
      else if t = 3 then
        (if length (t # body) = 9 then Some (Cancel uid (u64_from_le_bytes body)) else None)
      else None)"

text \<open>The loop that fills the payload; its variable is the part read so far.\<close>

definition payload_body :: "'w kernel \<Rightarrow> i32 \<Rightarrow> nat \<Rightarrow> bytes \<times> 'w \<Rightarrow>
    (((sys_error + bytes option) \<times> 'w) + bytes \<times> 'w) option" where
  "payload_body K fd len = (\<lambda>(got, w).
     if \<not> length got < len then Some (Inl (Inr (Some got), w))
     else do {
       (r, w) \<leftarrow> fd_read K fd (len - length got) w;
       Some (case r of
           Inl e \<Rightarrow> Inl (Inl e, w)
         | Inr bs \<Rightarrow> if bs = [] then Inl (Inr None, w) else Inr (got @ bs, w))
     })"

definition decode_request :: "'w kernel \<Rightarrow> serde \<Rightarrow> i32 \<Rightarrow> u32 \<Rightarrow> 'w \<Rightarrow>
    ((sys_error + request option) \<times> 'w) option" where
  "decode_request K S fd uid w = do {
     (r, w) \<leftarrow> fd_read K fd 4 w;
     (case r of
        Inl e \<Rightarrow> Some (Inl e, w)
      | Inr hdr \<Rightarrow>
          if length hdr \<noteq> 4 then Some (Inr None, w)
          else let len = from_le hdr in
            if len > MAX_REQUEST then Some (Inr None, w)
            else do {
              (p, w) \<leftarrow> run_loop (payload_body K fd len) ([], w);
              Some (case p of
                  Inl e \<Rightarrow> (Inl e, w)
                | Inr None \<Rightarrow> (Inr None, w)
                | Inr (Some payload) \<Rightarrow> (Inr (decode_payload S uid payload), w))
            })
   }"

section \<open>Responses\<close>

datatype wire_response =
  RespExec u64 | RespResult "exec_outcome option" | RespCancelOk | RespError

definition response_payload :: "serde \<Rightarrow> wire_response \<Rightarrow> bytes" where
  "response_payload S resp =
     (case resp of
        RespExec i \<Rightarrow> 1 # u64_to_le_bytes i
      | RespResult res \<Rightarrow> 2 # (case json_outcome S res of None \<Rightarrow> [] | Some json \<Rightarrow> json)
      | RespCancelOk \<Rightarrow> [3]
      | RespError \<Rightarrow> [4])"

text \<open>\<open>(payload.len() as u32).to_le_bytes()\<close>.\<close>

definition length_header :: "bytes \<Rightarrow> bytes" where
  "length_header payload = le_bytes 4 (length payload mod 2 ^ 32)"

definition response_body :: "'w kernel \<Rightarrow> i32 \<Rightarrow> bytes \<Rightarrow> nat \<times> 'w \<Rightarrow>
    (((sys_error + unit) \<times> 'w) + nat \<times> 'w) option" where
  "response_body K fd payload = (\<lambda>(written, w).
     if \<not> written < length payload then Some (Inl (Inr (), w))
     else do {
       (r, w) \<leftarrow> fd_write K fd (drop written payload) w;
       Some (case r of
           Inl e \<Rightarrow> Inl (Inl e, w)
         | Inr n \<Rightarrow> if n = 0 then Inl (Inr (), w) else Inr (written + n, w))
     })"

definition encode_response :: "'w kernel \<Rightarrow> serde \<Rightarrow> i32 \<Rightarrow> wire_response \<Rightarrow> 'w \<Rightarrow>
    ((sys_error + unit) \<times> 'w) option" where
  "encode_response K S fd resp w =
     (let payload = response_payload S resp in do {
        (r, w) \<leftarrow> fd_write K fd (length_header payload) w;
        (case r of
           Inl e \<Rightarrow> Some (Inl e, w)
         | Inr _ \<Rightarrow> run_loop (response_body K fd payload) (0, w))
      })"

section \<open>What a payload means\<close>

text \<open>The payload grammar, read in both directions.\<close>

lemma decode_payload_iff:
  "decode_payload S uid p = Some (GetResult u i) \<longleftrightarrow> u = uid \<and> p = 2 # u64_to_le_bytes i"
  "decode_payload S uid p = Some (Cancel u i) \<longleftrightarrow> u = uid \<and> p = 3 # u64_to_le_bytes i"
  "decode_payload S uid p = Some (ExecReq u cmd) \<longleftrightarrow>
     u = uid \<and> (\<exists>json. p = 1 # json \<and> json_command S json = Some cmd)"
  by (cases p; auto simp: u64_le_bytes_of_payload)+

text \<open>A message on the wire, and the fact that messages delimit themselves.\<close>

definition frame :: "bytes \<Rightarrow> bytes" where
  "frame payload = length_header payload @ payload"

lemma length_header_length [simp]: "length (length_header p) = 4"
  by (simp add: length_header_def)

lemma from_le_header: "length p < 2 ^ 32 \<Longrightarrow> from_le (length_header p) = length p"
  by (simp add: length_header_def from_le_le_bytes del: le_bytes.simps)

lemma header_of_length: "length hdr = 4 \<Longrightarrow> from_le hdr = length p \<Longrightarrow> hdr = length_header p"
  using le_bytes_from_le [of hdr] from_le_less [of hdr] by (simp add: length_header_def)

lemma frame_delimits:
  assumes "length p < 2 ^ 32" and "length q < 2 ^ 32" and "frame p @ xs = frame q @ ys"
  shows "p = q \<and> xs = ys"
proof -
  have "length_header p = length_header q \<and> p @ xs = q @ ys"
    using assms(3) by (simp add: frame_def)
  moreover from this assms(1,2) have "length p = length q" by (metis from_le_header)
  ultimately show ?thesis by simp
qed

text \<open>A client: it reads a little-endian length, then so many bytes, and keeps what follows.\<close>

definition client_read :: "bytes \<Rightarrow> (bytes \<times> bytes) option" where
  "client_read bs =
     (case bs of
        a # b # c # d # r \<Rightarrow>
          (let n = unat a + 256 * unat b + 65536 * unat c + 16777216 * unat d
           in if n \<le> length r then Some (take n r, drop n r) else None)
      | _ \<Rightarrow> None)"

lemma client_read_frame:
  assumes "length p < 2 ^ 32"
  shows "client_read (length_header p @ p @ rest) = Some (p, rest)"
proof -
  have "\<exists>a b c d. length_header p = [a, b, c, d]" by (simp add: length_header_def le_bytes_numeral)
  then obtain a b c d where h: "length_header p = [a, b, c, d]" by blast
  with from_le_header [OF assms] have
    "unat a + 256 * unat b + 65536 * unat c + 16777216 * unat d = length p" by simp
  with h show ?thesis by (simp add: client_read_def)
qed

lemma from_le_sum: "(\<Sum>k < length bs. unat (bs ! k) * 256 ^ k) = from_le bs"
proof (induction bs)
  case (Cons b bs)
  have "(\<Sum>k < length (b # bs). unat ((b # bs) ! k) * 256 ^ k) =
      unat b + (\<Sum>k < length bs. unat (bs ! k) * 256 ^ Suc k)"
    by (simp add: sum.lessThan_Suc_shift del: sum.lessThan_Suc)
  also have "(\<Sum>k < length bs. unat (bs ! k) * 256 ^ Suc k) = 256 * from_le bs"
    by (simp only: Cons [symmetric] sum_distrib_left) (simp add: mult.left_commute)
  finally show ?case by simp
qed simp

lemma le_bytes_sum: "x < 256 ^ n \<Longrightarrow> (\<Sum>k < n. unat (le_bytes n x ! k) * 256 ^ k) = x"
  using from_le_sum [of "le_bytes n x"] by (simp add: from_le_le_bytes)

lemma u64_bytes_sum: "(\<Sum>k < 8. unat (u64_to_le_bytes i ! k) * 256 ^ k) = unat i"
  unfolding u64_to_le_bytes_def by (rule le_bytes_sum) (use unsigned_less [of i] in simp)

section \<open>Reading a request\<close>

text \<open>
  What the payload loop returns: either a complete payload, made of what the socket delivered,
  or nothing after fewer bytes than announced.
\<close>

definition payload_read :: "'w kernel \<Rightarrow> i32 \<Rightarrow> nat \<Rightarrow> bytes \<times> 'w \<Rightarrow>
    (sys_error + bytes option) \<times> 'w \<Rightarrow> bool" where
  "payload_read K fd len st x \<longleftrightarrow> length (fst st) \<le> len \<longrightarrow>
     (\<exists>bs. delivers K fd (snd st) bs (snd x) \<and>
       (case fst x of
          Inr (Some p) \<Rightarrow> p = fst st @ bs \<and> length p = len
        | _ \<Rightarrow> length (fst st) + length bs < len))"

lemma payload_body_cases:
  assumes "payload_body K fd len (got, w) = Some x"
  obtains (full) "len \<le> length got" "x = Inl (Inr (Some got), w)"
  | (more) bs w1 where "length got < len" "fd_read K fd (len - length got) w = Some (Inr bs, w1)"
      "bs \<noteq> []" "x = Inr (got @ bs, w1)"
  | (stop) r w1 where "length got < len" "fd_read K fd (len - length got) w = Some (r, w1)"
      "r = Inr [] \<or> (\<exists>e. r = Inl e)" "x = Inl (map_sum id (\<lambda>_. None) r, w1)"
proof (cases "length got < len")
  case True
  with assms obtain r w1 where r: "fd_read K fd (len - length got) w = Some (r, w1)"
    by (auto simp: payload_body_def bind_eq_Some_conv)
  show thesis
  proof (cases "\<exists>bs. r = Inr bs \<and> bs \<noteq> []")
    case More: True
    with True r assms show thesis by (auto simp: payload_body_def intro: more)
  next
    case False
    with True r assms show thesis
      by (cases r; intro stop [OF True r]) (auto simp: payload_body_def split: if_splits)
  qed
next
  case False
  with assms show thesis by (auto simp: payload_body_def intro: full)
qed

lemma payload_loop_read:
  assumes "read_bounded K" and "run_loop (payload_body K fd len) st = Some x"
  shows "payload_read K fd len st x"
  using assms(2)
proof (induction rule: run_loop_induct)
  case (leave st x)
  obtain got w where st: "st = (got, w)" by fastforce
  from leave [unfolded st] show ?case
  proof (cases rule: payload_body_cases)
    case full
    then show ?thesis using delivers.nothing by (fastforce simp: payload_read_def st)
  next
    case (stop r w1)
    then have "delivers K fd w [] w1" using fd_read_delivers [OF stop(2)] by auto
    with stop show ?thesis
      by (auto simp: payload_read_def st intro!: exI [of _ "[]"])
  qed simp
next
  case (again st st' x)
  obtain got w where st: "st = (got, w)" by fastforce
  from again(1) [unfolded st] show ?case
  proof (cases rule: payload_body_cases)
    case (more bs w1)
    have len: "length bs \<le> len - length got" using fd_read_bounded [OF assms(1) more(2)] .
    have d: "delivers K fd w bs w1" using fd_read_delivers [OF more(2)] by simp
    have st': "st' = (got @ bs, w1)" using more(4) by simp
    show ?thesis
      unfolding payload_read_def
    proof
      assume "length (fst st) \<le> len"
      have "length (got @ bs) \<le> len" using len more(1) by simp
      with again(2) obtain cs where cs: "delivers K fd w1 cs (snd x)"
        "case fst x of Inr (Some p) \<Rightarrow> p = (got @ bs) @ cs \<and> length p = len
           | _ \<Rightarrow> length (got @ bs) + length cs < len"
        unfolding payload_read_def st' fst_conv snd_conv by blast
      from delivers_trans [OF d cs(1)] cs(2)
      show "\<exists>bs. delivers K fd (snd st) bs (snd x) \<and>
          (case fst x of Inr (Some p) \<Rightarrow> p = fst st @ bs \<and> length p = len
           | _ \<Rightarrow> length (fst st) + length bs < len)"
        by (intro exI [of _ "bs @ cs"]) (auto simp: st split: sum.splits option.splits)
    qed
  qed simp_all
qed

text \<open>The loop returns as soon as single reads do: every round that goes on has got a byte.\<close>

definition reads_return :: "'w kernel \<Rightarrow> i32 \<Rightarrow> bool" where
  "reads_return K fd \<longleftrightarrow> (\<forall>n. wfP (\<lambda>w' w. interrupted K (k_read K fd n) w w'))"

lemma fd_read_once: "reads_return K fd \<Longrightarrow> \<exists>r w'. fd_read K fd n w = Some (r, w')"
  using retry_returns [of K "k_read K fd n" w] by (auto simp: reads_return_def fd_read_def)

lemma payload_loop_returns:
  assumes "reads_return K fd"
  shows "\<exists>x. run_loop (payload_body K fd len) st = Some x"
proof (rule run_loop_measure [where I = "\<lambda>_. True" and m = "\<lambda>st. len - length (fst st)"])
  fix st st' :: "bytes \<times> 'a"
  obtain got w where st: "st = (got, w)" by fastforce
  assume "payload_body K fd len st = Some (Inr st')"
  from this [unfolded st] show "True \<and> len - length (fst st') < len - length (fst st)"
    by (cases rule: payload_body_cases) (auto simp: st diff_less_mono2)
next
  fix st :: "bytes \<times> 'a"
  obtain got w where "st = (got, w)" by fastforce
  then show "payload_body K fd len st \<noteq> None"
    using fd_read_once [OF assms, of "len - length got" w] by (auto simp: payload_body_def)
qed simp_all

lemma decode_request_returns:
  assumes "reads_return K fd"
  shows "\<exists>r w'. decode_request K S fd uid w = Some (r, w')"
proof -
  obtain r w1 where r: "fd_read K fd 4 w = Some (r, w1)" using fd_read_once [OF assms] by blast
  show ?thesis
  proof (cases r)
    case (Inr hdr)
    obtain p w2 where "run_loop (payload_body K fd (from_le hdr)) ([], w1) = Some (p, w2)"
      using payload_loop_returns [OF assms] by fastforce
    with r Inr show ?thesis
      by (simp add: decode_request_def Let_def split: sum.splits option.splits)
  qed (simp add: decode_request_def r)
qed

lemma decode_request_cases:
  assumes "decode_request K S fd uid w = Some (Inr (Some req), w')"
  obtains hdr w1 payload where "fd_read K fd 4 w = Some (Inr hdr, w1)" "length hdr = 4"
    "from_le hdr \<le> MAX_REQUEST"
    "run_loop (payload_body K fd (from_le hdr)) ([], w1) = Some (Inr (Some payload), w')"
    "decode_payload S uid payload = Some req"
proof -
  from assms obtain r w1 where r: "fd_read K fd 4 w = Some (r, w1)"
    by (auto simp: decode_request_def bind_eq_Some_conv)
  with assms obtain hdr where hdr: "r = Inr hdr" "length hdr = 4" "from_le hdr \<le> MAX_REQUEST"
    by (cases r) (auto simp: decode_request_def Let_def split: if_splits)
  with assms r obtain p w2 where
    p: "run_loop (payload_body K fd (from_le hdr)) ([], w1) = Some (p, w2)"
    by (auto simp: decode_request_def bind_eq_Some_conv)
  with assms r hdr have "p = Inr (Some (the (projr p))) \<and> w2 = w'
      \<and> decode_payload S uid (the (projr p)) = Some req"
    by (cases p) (auto simp: decode_request_def split: option.splits)
  with that r hdr p show thesis by metis
qed

section \<open>Writing a response\<close>

lemma response_body_cases:
  assumes "response_body K fd p (n, w) = Some x"
  obtains (full) "length p \<le> n" "x = Inl (Inr (), w)"
  | (more) m w1 where "n < length p" "fd_write K fd (drop n p) w = Some (Inr m, w1)" "m > 0"
      "x = Inr (n + m, w1)"
  | (stop) r w1 where "n < length p" "fd_write K fd (drop n p) w = Some (r, w1)"
      "r = Inr 0 \<or> (\<exists>e. r = Inl e)" "x = Inl (map_sum id (\<lambda>_. ()) r, w1)"
proof (cases "n < length p")
  case True
  with assms obtain r w1 where r: "fd_write K fd (drop n p) w = Some (r, w1)"
    by (auto simp: response_body_def bind_eq_Some_conv)
  show thesis
  proof (cases "\<exists>m. r = Inr m \<and> m > 0")
    case More: True
    with True r assms show thesis by (auto simp: response_body_def intro: more)
  next
    case False
    with True r assms show thesis
      by (cases r; intro stop [OF True r]) (auto simp: response_body_def split: if_splits)
  qed
next
  case False
  with assms show thesis by (auto simp: response_body_def intro: full)
qed

text \<open>
  A write of \<open>bs\<close> that ends the loop: the socket takes nothing, which is reported as success, or
  the call fails, which is reported as its error.
\<close>

definition refused :: "'w kernel \<Rightarrow> i32 \<Rightarrow> bytes \<Rightarrow> 'w \<Rightarrow> sys_error + unit \<Rightarrow> 'w \<Rightarrow> bool" where
  "refused K fd bs v r w' \<longleftrightarrow>
     k_write K fd bs v = (Some 0, w') \<and> r = Inr () \<or>
     k_write K fd bs v = (None, w') \<and> k_errno K w' \<noteq> EINTR \<and> r = Inl (Syscall (k_errno K w') ''write'')"

text \<open>All of \<open>bs\<close> is taken, or a write of exactly what is left of it is refused.\<close>

definition handed_over :: "'w kernel \<Rightarrow> i32 \<Rightarrow> bytes \<Rightarrow> 'w \<Rightarrow> sys_error + unit \<Rightarrow> 'w \<Rightarrow> bool" where
  "handed_over K fd bs w r w' \<longleftrightarrow>
     accepts K fd w bs w' \<and> r = Inr () \<or>
     (\<exists>n < length bs. \<exists>v. accepts K fd w (take n bs) v \<and> refused K fd (drop n bs) v r w')"

text \<open>
  A header written with one call, then a payload: if the call fails, nothing more is sent; if it
  takes \<open>h\<close> bytes, however few, the payload is handed over next.
\<close>

definition transmitted ::
    "'w kernel \<Rightarrow> i32 \<Rightarrow> bytes \<Rightarrow> bytes \<Rightarrow> 'w \<Rightarrow> sys_error + unit \<Rightarrow> 'w \<Rightarrow> bool" where
  "transmitted K fd hdr p w r w' \<longleftrightarrow> (\<exists>v h w1. accepts K fd w [] v \<and> k_write K fd hdr v = (h, w1) \<and>
     (case h of
        None \<Rightarrow> w' = w1 \<and> k_errno K w1 \<noteq> EINTR \<and> r = Inl (Syscall (k_errno K w1) ''write'')
      | Some h \<Rightarrow> h \<le> length hdr \<and> handed_over K fd p w1 r w'))"

lemma refused_accepts: "refused K fd bs v r w' \<Longrightarrow> accepts K fd v [] w'"
  using accepts.took [of K fd bs v 0 w' "[]" w'] accepts.failed [of K fd bs v w' "[]" w']
  by (auto simp: refused_def intro: accepts.nothing)

lemma handed_over_accepts:
  assumes "handed_over K fd bs w r w'"
  shows "\<exists>cs. accepts K fd w cs w'"
  using assms unfolding handed_over_def
proof (elim disjE exE conjE)
  fix n v
  assume "accepts K fd w (take n bs) v" and "refused K fd (drop n bs) v r w'"
  from accepts_trans [OF this(1) refused_accepts [OF this(2)]] show ?thesis by blast
qed blast

lemma transmitted_accepts:
  assumes "transmitted K fd hdr p w r w'"
  shows "\<exists>bs. accepts K fd w bs w'"
proof -
  from assms obtain v h w1 where v: "accepts K fd w [] v" and h: "k_write K fd hdr v = (h, w1)"
    and k: "case h of None \<Rightarrow> w' = w1 | Some h \<Rightarrow> handed_over K fd p w1 r w'"
    unfolding transmitted_def by (metis (no_types, lifting) option.case_eq_if)
  show ?thesis
  proof (cases h)
    case None
    with h k show ?thesis using accepts_trans [OF v accepts.failed [OF _ accepts.nothing]] by auto
  next
    case (Some n)
    with k obtain cs where "accepts K fd w1 cs w'" using handed_over_accepts [of K fd p w1 r w'] by auto
    with h Some show ?thesis using accepts_trans [OF v accepts.took] by blast
  qed
qed

lemma handed_over_later:
  assumes "accepts K fd w (take m bs) w1" and "m \<le> length bs" and "handed_over K fd (drop m bs) w1 r w'"
  shows "handed_over K fd bs w r w'"
  using assms(3) unfolding handed_over_def
proof (elim disjE exE conjE)
  assume "accepts K fd w1 (drop m bs) w'" "r = Inr ()"
  with accepts_trans [OF assms(1)] show "accepts K fd w bs w' \<and> r = Inr () \<or>
      (\<exists>n < length bs. \<exists>v. accepts K fd w (take n bs) v \<and> refused K fd (drop n bs) v r w')"
    by fastforce
next
  fix n v
  assume n: "n < length (drop m bs)" "accepts K fd w1 (take n (drop m bs)) v"
    "refused K fd (drop n (drop m bs)) v r w'"
  have "accepts K fd w (take (m + n) bs) v"
    using accepts_trans [OF assms(1) n(2)] by (simp add: take_add)
  moreover have "refused K fd (drop (m + n) bs) v r w'" using n(3) by (simp add: add.commute)
  moreover have "m + n < length bs" using n(1) by simp
  ultimately show "accepts K fd w bs w' \<and> r = Inr () \<or>
      (\<exists>n < length bs. \<exists>v. accepts K fd w (take n bs) v \<and> refused K fd (drop n bs) v r w')"
    by blast
qed

lemma fd_write_refused:
  assumes "fd_write K fd bs w = Some (r, w')" and "r = Inr 0 \<or> (\<exists>e. r = Inl e)"
  shows "\<exists>v. accepts K fd w [] v \<and> refused K fd bs v (map_sum id (\<lambda>_. ()) r) w'"
  using assms(2)
proof (elim disjE exE)
  assume r: "r = Inr 0"
  with assms(1) obtain v where v: "(interrupted K (k_write K fd bs))\<^sup>*\<^sup>* w v" "k_write K fd bs v = (Some 0, w')"
    by (auto elim: fd_write_Inr)
  with interrupted_accepts [OF v(1)] show ?thesis by (auto simp: refused_def r)
next
  fix e
  assume r: "r = Inl e"
  with assms(1) obtain c where "retry K (k_write K fd bs) w = Some (Inl c, w')" "e = Syscall c ''write''"
    by (auto simp: fd_write_def)
  with interrupted_accepts show ?thesis by (fastforce simp: refused_def r elim: retry_Inl)
qed

lemma response_loop_hands_over:
  assumes "write_bounded K" and "run_loop (response_body K fd p) st = Some x"
  shows "handed_over K fd (drop (fst st) p) (snd st) (fst x) (snd x)"
  using assms(2)
proof (induction rule: run_loop_induct)
  case (leave st x)
  obtain n w where st: "st = (n, w)" by fastforce
  from leave [unfolded st] show ?case
  proof (cases rule: response_body_cases)
    case full
    then show ?thesis by (simp add: st handed_over_def accepts.nothing)
  next
    case (stop r w1)
    from fd_write_refused [OF stop(2,3)] obtain v where
      v: "accepts K fd w [] v" "refused K fd (drop n p) v (map_sum id (\<lambda>_. ()) r) w1" by blast
    have "\<exists>k < length (drop n p). \<exists>v. accepts K fd w (take k (drop n p)) v
        \<and> refused K fd (drop k (drop n p)) v (map_sum id (\<lambda>_. ()) r) w1"
      by (rule exI [of _ 0]) (use v stop(1) in auto)
    with stop(4) show ?thesis by (simp add: st handed_over_def)
  qed simp
next
  case (again st st' x)
  obtain n w where st: "st = (n, w)" by fastforce
  from again(1) [unfolded st] show ?case
  proof (cases rule: response_body_cases)
    case (more m w1)
    have m: "m \<le> length (drop n p)" using fd_write_bounded [OF assms(1) more(2)] .
    have a: "accepts K fd w (take m (drop n p)) w1" using fd_write_accepts [OF more(2)] by simp
    from again(2) more(4) have "handed_over K fd (drop m (drop n p)) w1 (fst x) (snd x)"
      by (simp add: add.commute)
    from handed_over_later [OF a m this] show ?thesis by (simp add: st)
  qed simp_all
qed

lemma response_loop_returns:
  assumes "writes_return K fd"
  shows "\<exists>x. run_loop (response_body K fd p) st = Some x"
proof (rule run_loop_measure [where I = "\<lambda>_. True" and m = "\<lambda>st. length p - fst st"])
  fix st st' :: "nat \<times> 'a"
  obtain n w where st: "st = (n, w)" by fastforce
  assume "response_body K fd p st = Some (Inr st')"
  from this [unfolded st] show "True \<and> length p - fst st' < length p - fst st"
    by (cases rule: response_body_cases) (auto simp: st)
next
  fix st :: "nat \<times> 'a"
  obtain n w where "st = (n, w)" by fastforce
  then show "response_body K fd p st \<noteq> None"
    using fd_write_returns [OF assms, of "drop n p" w] by (auto simp: response_body_def)
qed simp_all

lemma encode_response_returns:
  assumes "writes_return K fd"
  shows "\<exists>r w'. encode_response K S fd resp w = Some (r, w')"
proof -
  obtain r w1 where r: "fd_write K fd (length_header (response_payload S resp)) w = Some (r, w1)"
    using fd_write_returns [OF assms] by blast
  show ?thesis
  proof (cases r)
    case (Inr n)
    obtain x w2 where "run_loop (response_body K fd (response_payload S resp)) (0, w1) = Some (x, w2)"
      using response_loop_returns [OF assms] by fastforce
    with r Inr show ?thesis by (simp add: encode_response_def Let_def)
  qed (simp add: encode_response_def r)
qed

lemma encode_response_transmits:
  assumes "write_bounded K" and "encode_response K S fd resp w = Some (r, w')"
  shows "transmitted K fd (length_header (response_payload S resp)) (response_payload S resp) w r w'"
proof -
  let ?p = "response_payload S resp"
  from assms(2) obtain x w1 where x: "fd_write K fd (length_header ?p) w = Some (x, w1)"
    by (auto simp: encode_response_def Let_def bind_eq_Some_conv)
  show ?thesis
  proof (cases x)
    case (Inl e)
    with assms(2) x have r: "r = Inl e" "w' = w1" by (simp_all add: encode_response_def)
    from x Inl obtain c v where "(interrupted K (k_write K fd (length_header ?p)))\<^sup>*\<^sup>* w v"
      "k_write K fd (length_header ?p) v = (None, w1)" "c = k_errno K w1" "c \<noteq> EINTR"
      "e = Syscall c ''write''" by (auto simp: fd_write_def elim: retry_Inl)
    then show ?thesis
      unfolding transmitted_def
      by (intro exI [of _ v] exI [of _ None] exI [of _ w1]) (simp add: r interrupted_accepts)
  next
    case (Inr h)
    with x obtain v where v: "(interrupted K (k_write K fd (length_header ?p)))\<^sup>*\<^sup>* w v"
      "k_write K fd (length_header ?p) v = (Some h, w1)" by (auto elim: fd_write_Inr)
    from Inr assms(2) x have "run_loop (response_body K fd ?p) (0, w1) = Some (r, w')"
      by (simp add: encode_response_def)
    from response_loop_hands_over [OF assms(1) this] have "handed_over K fd ?p w1 r w'" by simp
    with v fd_write_bounded [OF assms(1) x [unfolded Inr]] show ?thesis
      unfolding transmitted_def
      by (intro exI [of _ v] exI [of _ "Some h"] exI [of _ w1]) (simp add: interrupted_accepts)
  qed
qed

lemma response_payload_ne [simp]: "response_payload S resp \<noteq> []"
  by (simp add: response_payload_def split: wire_response.splits)

section \<open>A stream socket\<close>

text \<open>
  \<open>rem w\<close> is what the peer sends from now on: what waits in the socket and what is still to come.
  A read delivers an initial part of it, of any size up to the one asked for, or fails and leaves
  it; on a non-blocking socket it fails, with \<open>EAGAIN\<close>, whenever nothing has arrived.
\<close>

definition byte_stream :: "'w kernel \<Rightarrow> i32 \<Rightarrow> ('w \<Rightarrow> bytes) \<Rightarrow> bool" where
  "byte_stream K fd rem \<longleftrightarrow> (\<forall>n w x w'. k_read K fd n w = (x, w') \<longrightarrow>
     (case x of None \<Rightarrow> rem w' = rem w | Some cs \<Rightarrow> length cs \<le> n \<and> rem w = cs @ rem w'))"

text \<open>A read of \<open>n\<close> bytes that ends the decoding: it fails, or delivers nothing.\<close>

definition read_ends :: "'w kernel \<Rightarrow> i32 \<Rightarrow> nat \<Rightarrow> 'w \<Rightarrow> sys_error + 'x option \<Rightarrow> 'w \<Rightarrow> bool" where
  "read_ends K fd n v r w' \<longleftrightarrow>
     k_read K fd n v = (None, w') \<and> k_errno K w' \<noteq> EINTR \<and> r = Inl (Syscall (k_errno K w') ''read'') \<or>
     k_read K fd n v = (Some [], w') \<and> r = Inr None"

lemma byte_stream_interrupted:
  assumes "byte_stream K fd rem" and "(interrupted K (k_read K fd n))\<^sup>*\<^sup>* w v"
  shows "rem v = rem w"
  using assms(2)
proof (induction rule: rtranclp_induct)
  case (step y z)
  then have "k_read K fd n y = (None, z)" by (simp add: interrupted_def)
  with assms(1) have "rem z = rem y" unfolding byte_stream_def by fastforce
  with step.IH show ?case by simp
qed simp

lemma byte_stream_delivers:
  assumes "byte_stream K fd rem" and "delivers K fd w bs v"
  shows "rem w = bs @ rem v"
  using assms(2)
proof (induction rule: delivers.induct)
  case (got n w bs w1 cs w2)
  from got(1) assms(1) have "rem w = bs @ rem w1" unfolding byte_stream_def by fastforce
  with got(3) show ?case by simp
next
  case (failed n w w1 cs w2)
  from failed(1) assms(1) have "rem w1 = rem w" unfolding byte_stream_def by fastforce
  with failed(3) show ?case by simp
qed simp

lemma byte_stream_read:
  assumes "byte_stream K fd rem" and "reads_return K fd"
  obtains (some) bs v w1 where "fd_read K fd n w = Some (Inr bs, w1)" "k_read K fd n v = (Some bs, w1)"
      "delivers K fd w [] v" "length bs \<le> n" "rem w = bs @ rem w1"
  | (fails) e v w1 where "fd_read K fd n w = Some (Inl e, w1)" "delivers K fd w [] v"
      "k_read K fd n v = (None, w1)" "k_errno K w1 \<noteq> EINTR" "e = Syscall (k_errno K w1) ''read''"
      "rem w1 = rem w"
proof -
  obtain r w1 where r: "fd_read K fd n w = Some (r, w1)" using fd_read_once [OF assms(2)] by blast
  show thesis
  proof (cases r)
    case (Inr bs)
    with r obtain v where v: "(interrupted K (k_read K fd n))\<^sup>*\<^sup>* w v" "k_read K fd n v = (Some bs, w1)"
      by (auto elim: fd_read_Inr)
    from assms(1) v(2) have "length bs \<le> n \<and> rem v = bs @ rem w1" unfolding byte_stream_def by fastforce
    with some [OF r [unfolded Inr] v(2) interrupted_delivers [OF v(1)]]
      byte_stream_interrupted [OF assms(1) v(1)] show thesis by simp
  next
    case (Inl e)
    with r obtain c where c: "retry K (k_read K fd n) w = Some (Inl c, w1)" "e = Syscall c ''read''"
      by (auto simp: fd_read_def)
    from c(1) obtain v where v: "(interrupted K (k_read K fd n))\<^sup>*\<^sup>* w v"
      "k_read K fd n v = (None, w1)" "c = k_errno K w1" "c \<noteq> EINTR" by (auto elim: retry_Inl)
    from assms(1) v(2) have "rem w1 = rem v" unfolding byte_stream_def by fastforce
    with fails [OF r [unfolded Inl] interrupted_delivers [OF v(1)] v(2)] v(3,4) c(2)
      byte_stream_interrupted [OF assms(1) v(1)] show thesis by simp
  qed
qed

text \<open>The payload loop with \<open>p\<close> outstanding: it gets all of it, or a read of the rest ends it.\<close>

definition gets :: "'w kernel \<Rightarrow> i32 \<Rightarrow> ('w \<Rightarrow> bytes) \<Rightarrow> bytes \<Rightarrow> bytes \<Rightarrow> 'w \<Rightarrow>
    (sys_error + bytes option) \<Rightarrow> 'w \<Rightarrow> bytes \<Rightarrow> bool" where
  "gets K fd rem got p w x w' rest \<longleftrightarrow>
     x = Inr (Some (got @ p)) \<and> rem w' = rest \<or>
     (\<exists>k < length p. \<exists>v. delivers K fd w (take k p) v \<and> read_ends K fd (length p - k) v x w'
        \<and> rem w' = drop k (p @ rest))"

lemma gets_later:
  assumes "delivers K fd w bs w1" and "take (length bs) p = bs" and "length bs \<le> length p"
    and "gets K fd rem (got @ bs) (drop (length bs) p) w1 x w' rest"
  shows "gets K fd rem got p w x w' rest"
  using assms(4) unfolding gets_def
proof (elim disjE exE conjE)
  assume "x = Inr (Some ((got @ bs) @ drop (length bs) p))" "rem w' = rest"
  moreover have "bs @ drop (length bs) p = p" using assms(2) by (metis append_take_drop_id)
  ultimately show "x = Inr (Some (got @ p)) \<and> rem w' = rest \<or> (\<exists>k < length p. \<exists>v.
      delivers K fd w (take k p) v \<and> read_ends K fd (length p - k) v x w' \<and> rem w' = drop k (p @ rest))"
    by simp
next
  fix k v
  assume k: "k < length (drop (length bs) p)" "delivers K fd w1 (take k (drop (length bs) p)) v"
    "read_ends K fd (length (drop (length bs) p) - k) v x w'" "rem w' = drop k (drop (length bs) p @ rest)"
  have "delivers K fd w (take (length bs + k) p) v"
    using delivers_trans [OF assms(1) k(2)] by (simp add: take_add assms(2))
  moreover have "read_ends K fd (length p - (length bs + k)) v x w'" using k(3) by simp
  moreover have "rem w' = drop (length bs + k) (p @ rest)"
    using k(1,4) assms(3) by (simp add: add.commute)
  moreover have "length bs + k < length p" using k(1) by simp
  ultimately show "x = Inr (Some (got @ p)) \<and> rem w' = rest \<or> (\<exists>k < length p. \<exists>v.
      delivers K fd w (take k p) v \<and> read_ends K fd (length p - k) v x w' \<and> rem w' = drop k (p @ rest))"
    by blast
qed

lemma payload_loop_gets:
  assumes "byte_stream K fd rem" and "reads_return K fd"
  shows "rem w = p @ rest \<Longrightarrow> length got + length p = len \<Longrightarrow>
    \<exists>x w'. run_loop (payload_body K fd len) (got, w) = Some (x, w') \<and> gets K fd rem got p w x w' rest"
proof (induction "length p" arbitrary: p got w rule: less_induct)
  case less
  show ?case
  proof (cases "p = []")
    case True
    with less.prems show ?thesis
      by (intro exI [of _ "Inr (Some got)"] exI [of _ w]) (simp add: run_loop_eval payload_body_def gets_def)
  next
    case False
    with less.prems(2) have room: "length got < len" and n: "len - length got = length p"
      by (cases p; simp)+
    have pos: "0 < length p" using False by simp
    from assms show ?thesis
    proof (cases rule: byte_stream_read [where n = "len - length got" and w = w])
      case (some bs v w1)
      show ?thesis
      proof (cases "bs = []")
        case True
        with some room have "run_loop (payload_body K fd len) (got, w) = Some (Inr None, w1)"
          by (simp add: run_loop_eval payload_body_def)
        moreover have "gets K fd rem got p w (Inr None) w1 rest"
          unfolding gets_def using some True less.prems(1) pos
          by (intro disjI2 exI [of _ 0] conjI exI [of _ v]) (simp_all add: read_ends_def n)
        ultimately show ?thesis by blast
      next
        case ne: False
        have le: "length bs \<le> length p" using some(4) n by simp
        have e: "p @ rest = bs @ rem w1" using some(5) less.prems(1) by simp
        then have "take (length bs) (p @ rest) = bs" "drop (length bs) (p @ rest) = rem w1" by simp_all
        with le have t: "take (length bs) p = bs" "rem w1 = drop (length bs) p @ rest" by simp_all
        then have split: "p = bs @ drop (length bs) p" by (metis append_take_drop_id)
        have "payload_body K fd len (got, w) = Some (Inr (got @ bs, w1))"
          using some(1) ne room by (simp add: payload_body_def)
        moreover obtain x w' where x: "run_loop (payload_body K fd len) (got @ bs, w1) = Some (x, w')"
          "gets K fd rem (got @ bs) (drop (length bs) p) w1 x w' rest"
          using less.hyps [of "drop (length bs) p" w1 "got @ bs"] t(2) ne le less.prems(2) False by auto
        moreover have "delivers K fd w bs w1" using fd_read_delivers [OF some(1)] by simp
        then have "gets K fd rem got p w x w' rest"
          by (rule gets_later [OF _ t(1) le x(2)])
        ultimately show ?thesis by (auto simp: run_loop_again)
      qed
    next
      case (fails e v w1)
      with room have "run_loop (payload_body K fd len) (got, w) = Some (Inl e, w1)"
        by (simp add: run_loop_eval payload_body_def)
      moreover have "gets K fd rem got p w (Inl e) w1 rest"
        unfolding gets_def using fails less.prems(1) pos
        by (intro disjI2 exI [of _ 0] conjI exI [of _ v]) (simp_all add: read_ends_def n)
      ultimately show ?thesis by blast
    qed
  qed
qed

text \<open>What decoding does once the header has come in one read.\<close>

lemma decode_after_header:
  assumes K: "byte_stream K fd rem" "reads_return K fd" and "rem w = frame p @ rest"
    and "length p \<le> 10 * 1024 * 1024" and "fd_read K fd 4 w = Some (Inr hdr, w1)" and "length hdr = 4"
    and "rem w = hdr @ rem w1"
  obtains x w' where "delivers K fd w (length_header p) w1" "rem w1 = p @ rest"
    "gets K fd rem [] p w1 x w' rest"
    "decode_request K S fd uid w = Some (case x of
        Inr (Some q) \<Rightarrow> Inr (decode_payload S uid q) | Inr None \<Rightarrow> Inr None | Inl e \<Rightarrow> Inl e, w')"
proof -
  from assms(3,6,7) have hdr: "hdr = length_header p" "rem w1 = p @ rest"
    by (auto simp: frame_def append_eq_append_conv)
  have len: "from_le hdr = length p" using assms(4) hdr(1) by (simp add: from_le_header)
  obtain x w' where x: "run_loop (payload_body K fd (length p)) ([], w1) = Some (x, w')"
    "gets K fd rem [] p w1 x w' rest"
    using payload_loop_gets [OF K hdr(2), of "[]" "length p"] by auto
  have d: "delivers K fd w (length_header p) w1" using fd_read_delivers [OF assms(5)] hdr(1) by simp
  have "decode_request K S fd uid w = Some (case x of
      Inr (Some q) \<Rightarrow> Inr (decode_payload S uid q) | Inr None \<Rightarrow> Inr None | Inl e \<Rightarrow> Inl e, w')"
    using assms(4-6) x(1) len by (auto simp: decode_request_def MAX_REQUEST_def split: sum.split option.split)
  from that [OF d hdr(2) x(2) this] show thesis .
qed

text \<open>The payload loop's ending, told of the whole frame.\<close>

lemma gets_frame:
  assumes "gets K fd rem [] p w1 x w' rest" and "delivers K fd w (length_header p) w1"
    and "r = (case x of Inr (Some q) \<Rightarrow> Inr (decode_payload S uid q) | Inr None \<Rightarrow> Inr None | Inl e \<Rightarrow> Inl e)"
  shows "r = Inr (decode_payload S uid p) \<and> rem w' = rest
    \<or> (\<exists>k < length (frame p). \<exists>v. (k = 0 \<or> 4 \<le> k) \<and> delivers K fd w (take k (frame p)) v
        \<and> read_ends K fd (if k = 0 then 4 else length (frame p) - k) v r w'
        \<and> rem w' = drop k (frame p @ rest))"
  using assms(1) unfolding gets_def
proof (elim disjE exE conjE)
  fix k v
  assume k: "k < length p" "delivers K fd w1 (take k p) v" "read_ends K fd (length p - k) v x w'"
    "rem w' = drop k (p @ rest)"
  have "delivers K fd w (take (4 + k) (frame p)) v"
    using delivers_trans [OF assms(2) k(2)] by (simp add: frame_def)
  moreover have "read_ends K fd (length (frame p) - (4 + k)) v r w'"
    using k(3) by (auto simp: read_ends_def assms(3) frame_def)
  moreover have "rem w' = drop (4 + k) (frame p @ rest)" using k(4) by (simp add: frame_def)
  moreover have "4 + k < length (frame p)" using k(1) by (simp add: frame_def)
  ultimately show ?thesis by (intro disjI2 exI [of _ "4 + k"] conjI exI [of _ v]) simp_all
qed (simp add: assms(3))

section \<open>Properties\<close>

text \<open>C12: A request is accepted only from exactly one well-formed frame. If decoding yields a
  request, then what was read from the socket is the frame of a non-empty payload of at most
  10 MiB, the payload means that request under the grammar of the three request types, and the
  request carries the verified user id; not one byte beyond the frame is consumed.\<close>

theorem decode_exact:
  assumes "read_bounded K" and "decode_request K S fd uid w = Some (Inr (Some req), w')"
  shows "\<exists>p. delivers K fd w (frame p) w' \<and> p \<noteq> [] \<and> length p \<le> 10 * 1024 * 1024
    \<and> (case req of
        GetResult u i \<Rightarrow> u = uid \<and> p = 2 # u64_to_le_bytes i
      | Cancel u i \<Rightarrow> u = uid \<and> p = 3 # u64_to_le_bytes i
      | ExecReq u cmd \<Rightarrow> u = uid \<and> (\<exists>json. p = 1 # json \<and> json_command S json = Some cmd))"
proof -
  from assms(2) show ?thesis
  proof (cases rule: decode_request_cases)
    case (1 hdr w1 p)
    from payload_loop_read [OF assms(1) 1(4)] have p: "delivers K fd w1 p w'" "length p = from_le hdr"
      by (auto simp: payload_read_def)
    have "hdr = length_header p" using 1(2) p(2) by (simp add: header_of_length)
    with fd_read_delivers [OF 1(1)] have "delivers K fd w (frame p) w'"
      using delivers_trans [OF _ p(1)] by (simp add: frame_def)
    moreover have "p \<noteq> []" using 1(5) by auto
    moreover have "length p \<le> 10 * 1024 * 1024" using 1(3) p(2) by (simp add: MAX_REQUEST_def)
    ultimately show ?thesis using 1(5) by (cases req) (auto simp: decode_payload_iff)
  qed
qed

lemma decode_exact_witness:
  "\<exists>w' p. decode_request script_kernel \<lparr>json_command = (\<lambda>_. None), json_outcome = (\<lambda>_. None)\<rparr> 7 1000
       ([Inr [9, 0, 0, 0], Inr [2, 5, 0, 0], Inl 4, Inr [0, 0, 0, 0, 0]], 0) =
     Some (Inr (Some (GetResult 1000 5)), w') \<and> p = 2 # u64_to_le_bytes 5 \<and> length p = 9"
proof -
  let ?S = "\<lparr>json_command = (\<lambda>_. None), json_outcome = (\<lambda>_. None)\<rparr>"
  let ?w = "([Inr [9, 0, 0, 0], Inr [2, 5, 0, 0], Inl 4, Inr [0, 0, 0, 0, 0]], 0) :: script"
  obtain w' where h: "decode_request script_kernel ?S 7 1000 ?w = Some (Inr (Some (GetResult 1000 5)), w')"
    by (simp add: decode_request_def run_loop_eval payload_body_def fd_read_def retry_def
        retry_body_def tag_error_def MAX_REQUEST_def EINTR_def u64_from_le_bytes_def)
  from decode_exact [OF _ h] h show ?thesis by auto
qed

text \<open>C11: Reading a request from a stream. The client's socket has the frame of a payload of at most
  10 MiB in front; reads deliver the bytes in pieces of any size, and may fail, as on a
  non-blocking socket with nothing to read, or find the stream at its end. Unless interrupted
  for ever, decoding returns, in one of three ways. It returns exactly what the payload means
  and leaves exactly the bytes after the frame. Or the first read delivers fewer than four
  bytes, and the request is given up although the rest may follow. Or a later read of exactly
  what is missing (or the first one) fails or delivers nothing: the error or nothing is
  returned, and what has been read is lost. So if the header comes in one read and no read
  fails or comes back empty while bytes are outstanding, the sizes of the reads do not matter.\<close>

theorem decode_reassembles:
  assumes "byte_stream K fd rem" and "reads_return K fd" and "rem w = frame p @ rest"
    and "length p \<le> 10 * 1024 * 1024"
  shows "(\<exists>r w'. decode_request K S fd uid w = Some (r, w') \<and>
      (r = Inr (decode_payload S uid p) \<and> rem w' = rest
       \<or> (\<exists>v hdr. delivers K fd w [] v \<and> k_read K fd 4 v = (Some hdr, w') \<and> length hdr < 4
            \<and> r = Inr None \<and> rem w' = drop (length hdr) (frame p @ rest))
       \<or> (\<exists>k < length (frame p). \<exists>v. (k = 0 \<or> 4 \<le> k) \<and> delivers K fd w (take k (frame p)) v
            \<and> read_ends K fd (if k = 0 then 4 else length (frame p) - k) v r w'
            \<and> rem w' = drop k (frame p @ rest))))
    \<and> ((\<exists>hdr w1. k_read K fd 4 w = (Some hdr, w1) \<and> length hdr = 4) \<and>
        (\<forall>v n. 0 < n \<and> rem v \<noteq> [] \<longrightarrow> (\<exists>c cs v'. k_read K fd n v = (Some (c # cs), v'))) \<longrightarrow>
      (\<exists>w'. decode_request K S fd uid w = Some (Inr (decode_payload S uid p), w') \<and> rem w' = rest))"
proof (intro conjI impI)
  from assms(1,2) show "\<exists>r w'. decode_request K S fd uid w = Some (r, w') \<and>
      (r = Inr (decode_payload S uid p) \<and> rem w' = rest
       \<or> (\<exists>v hdr. delivers K fd w [] v \<and> k_read K fd 4 v = (Some hdr, w') \<and> length hdr < 4
            \<and> r = Inr None \<and> rem w' = drop (length hdr) (frame p @ rest))
       \<or> (\<exists>k < length (frame p). \<exists>v. (k = 0 \<or> 4 \<le> k) \<and> delivers K fd w (take k (frame p)) v
            \<and> read_ends K fd (if k = 0 then 4 else length (frame p) - k) v r w'
            \<and> rem w' = drop k (frame p @ rest)))"
  proof (cases rule: byte_stream_read [where n = 4 and w = w])
    case (some hdr v w1)
    show ?thesis
    proof (cases "length hdr = 4")
      case True
      from decode_after_header [OF assms some(1) True some(5), of S uid] obtain x w' where
        "delivers K fd w (length_header p) w1" "gets K fd rem [] p w1 x w' rest"
        "decode_request K S fd uid w = Some (case x of Inr (Some q) \<Rightarrow> Inr (decode_payload S uid q)
            | Inr None \<Rightarrow> Inr None | Inl e \<Rightarrow> Inl e, w')" by blast
      with gets_frame [OF this(2,1) refl, of S uid] show ?thesis by blast
    next
      case False
      with some have "decode_request K S fd uid w = Some (Inr None, w1)" by (simp add: decode_request_def)
      moreover have "rem w1 = drop (length hdr) (frame p @ rest)" "length hdr < 4"
        using some(4,5) assms(3) False by simp_all
      ultimately show ?thesis using some(2,3) by blast
    qed
  next
    case (fails e v w1)
    then have "decode_request K S fd uid w = Some (Inl e, w1)" by (simp add: decode_request_def)
    moreover have "\<exists>k < length (frame p). \<exists>v. (k = 0 \<or> 4 \<le> k) \<and> delivers K fd w (take k (frame p)) v
            \<and> read_ends K fd (if k = 0 then 4 else length (frame p) - k) v (Inl e :: sys_error + request option) w1
            \<and> rem w1 = drop k (frame p @ rest)"
      using fails assms(3)
      by (intro exI [of _ 0] conjI exI [of _ v]) (simp_all add: read_ends_def frame_def)
    ultimately show ?thesis by blast
  qed
next
  assume h: "(\<exists>hdr w1. k_read K fd 4 w = (Some hdr, w1) \<and> length hdr = 4) \<and>
        (\<forall>v n. 0 < n \<and> rem v \<noteq> [] \<longrightarrow> (\<exists>c cs v'. k_read K fd n v = (Some (c # cs), v')))"
  then obtain hdr w1 where hdr: "k_read K fd 4 w = (Some hdr, w1)" "length hdr = 4" by blast
  then have rd: "fd_read K fd 4 w = Some (Inr hdr, w1)" by (simp add: fd_read_def retry_simps(1) tag_error_def)
  have "rem w = hdr @ rem w1" using assms(1) hdr(1) unfolding byte_stream_def by fastforce
  from decode_after_header [OF assms rd hdr(2) this, of S uid] obtain x w' where
    x: "rem w1 = p @ rest" "gets K fd rem [] p w1 x w' rest"
      "decode_request K S fd uid w = Some (case x of Inr (Some q) \<Rightarrow> Inr (decode_payload S uid q)
            | Inr None \<Rightarrow> Inr None | Inl e \<Rightarrow> Inl e, w')" by blast
  have "\<not> (k < length p \<and> delivers K fd w1 (take k p) v \<and> read_ends K fd (length p - k) v x w')" for k v
  proof
    assume k: "k < length p \<and> delivers K fd w1 (take k p) v \<and> read_ends K fd (length p - k) v x w'"
    with byte_stream_delivers [OF assms(1), of w1 "take k p" v] x(1)
    have "take k p @ drop k p @ rest = take k p @ rem v" by (simp flip: append_assoc)
    then have "rem v = drop k p @ rest" by simp
    with k have "rem v \<noteq> []" by auto
    with h k obtain c cs v' where "k_read K fd (length p - k) v = (Some (c # cs), v')"
      by (metis zero_less_diff)
    with k show False by (simp add: read_ends_def)
  qed
  with x(2) have "x = Inr (Some p)" "rem w' = rest" unfolding gets_def by auto
  with x(3) show "\<exists>w'. decode_request K S fd uid w = Some (Inr (decode_payload S uid p), w') \<and> rem w' = rest"
    by simp
qed

text \<open>A socket that delivers at most four bytes at a time.\<close>

definition trickle_kernel :: "bytes kernel" where
  "trickle_kernel = (quiet_kernel (\<lambda>_. 0))\<lparr>k_read := \<lambda>fd n w. (Some (take (min n 4) w), drop (min n 4) w)\<rparr>"

lemma trickle_stream: "byte_stream trickle_kernel fd (\<lambda>w. w)" "reads_return trickle_kernel fd"
  by (auto simp: byte_stream_def reads_return_def interrupted_def trickle_kernel_def wfp_on_def)

lemma decode_reassembles_witness:
  "\<exists>w'. decode_request trickle_kernel no_json 7 1000 (frame (3 # u64_to_le_bytes 77) @ [1, 2]) =
     Some (Inr (Some (Cancel 1000 77)), w') \<and> w' = [1, 2]"
proof -
  let ?p = "3 # u64_to_le_bytes 77" and ?w = "frame (3 # u64_to_le_bytes 77) @ [1, 2]"
  have "k_read trickle_kernel 7 4 ?w = (Some (take 4 ?w), drop 4 ?w)"
    by (simp add: trickle_kernel_def)
  moreover have "length (take 4 ?w) = 4" by (simp add: frame_def)
  moreover have "\<exists>c cs v'. k_read trickle_kernel 7 n v = (Some (c # cs), v')" if "0 < n \<and> v \<noteq> []" for v n
    using that by (cases v; cases n) (simp_all add: trickle_kernel_def min_def)
  ultimately have "\<exists>w'. decode_request trickle_kernel no_json 7 1000 ?w =
      Some (Inr (decode_payload no_json 1000 ?p), w') \<and> w' = [1, 2]"
    by (intro decode_reassembles [OF trickle_stream refl, THEN conjunct2, THEN mp]) (simp, blast)
  then show ?thesis by simp
qed

text \<open>C13: Responses are framed. Whatever the socket does (unless it is interrupted for ever or
  takes more than it is given), \<open>encode_response\<close> returns, and this is what it sends: a header of four bytes with the length of
  the payload, least significant byte first, and the payload: its type (1, 2, 3, 4) and, for a
  started job, the eight bytes of its id in the same order, for a result, its JSON text. The
  header is written with one call, of which only a failure is noticed; then the payload is handed
  over until all of it is taken or a write of the rest fails or takes nothing. A client that
  reads a length and then so many bytes gets the payload back and is left with what follows (for
  payloads below 4 GiB).\<close>

theorem response_framed:
  assumes "writes_return K fd" and "write_bounded K"
  shows "\<exists>r w' hdr p. encode_response K S fd resp w = Some (r, w') \<and> transmitted K fd hdr p w r w'
    \<and> length hdr = 4 \<and> (\<Sum>k < 4. unat (hdr ! k) * 256 ^ k) = length p mod 2 ^ 32
    \<and> (case resp of
        RespExec i \<Rightarrow> \<exists>ib. p = 1 # ib \<and> length ib = 8 \<and> (\<Sum>k < 8. unat (ib ! k) * 256 ^ k) = unat i
      | RespResult res \<Rightarrow> p = 2 # (case json_outcome S res of None \<Rightarrow> [] | Some json \<Rightarrow> json)
      | RespCancelOk \<Rightarrow> p = [3]
      | RespError \<Rightarrow> p = [4])
    \<and> (length p < 2 ^ 32 \<longrightarrow> (\<forall>rest. client_read (hdr @ p @ rest) = Some (p, rest)))"
proof -
  let ?p = "response_payload S resp" and ?h = "length_header (response_payload S resp)"
  obtain r w' where r: "encode_response K S fd resp w = Some (r, w')"
    using encode_response_returns [OF assms(1)] by blast
  note t = encode_response_transmits [OF assms(2) r]
  have h: "length ?h = 4" "(\<Sum>k < 4. unat (?h ! k) * 256 ^ k) = length ?p mod 2 ^ 32"
    using le_bytes_sum [of "length ?p mod 2 ^ 32" 4] by (simp_all add: length_header_def)
  have p: "case resp of
        RespExec i \<Rightarrow> \<exists>ib. ?p = 1 # ib \<and> length ib = 8 \<and> (\<Sum>k < 8. unat (ib ! k) * 256 ^ k) = unat i
      | RespResult res \<Rightarrow> ?p = 2 # (case json_outcome S res of None \<Rightarrow> [] | Some json \<Rightarrow> json)
      | RespCancelOk \<Rightarrow> ?p = [3]
      | RespError \<Rightarrow> ?p = [4]"
    using u64_bytes_sum by (cases resp) (auto simp: response_payload_def)
  have c: "length ?p < 2 ^ 32 \<longrightarrow> (\<forall>rest. client_read (?h @ ?p @ rest) = Some (?p, rest))"
    by (intro impI allI) (rule client_read_frame)
  show ?thesis
    by (intro exI [of _ r] exI [of _ w'] exI [of _ ?h] exI [of _ ?p] conjI) (rule r t h p c)+
qed

definition sink_kernel :: "bytes kernel" where
  "sink_kernel = (quiet_kernel (\<lambda>_. 0))\<lparr>k_write := \<lambda>fd bs w. (Some (length bs), w @ bs)\<rparr>"

lemma sink_kernel_laws: "writes_return sink_kernel fd" "write_bounded sink_kernel"
  by (simp_all add: writes_return_def write_bounded_def interrupted_def sink_kernel_def wfp_on_def)

lemma response_framed_witness:
  "(\<exists>r w'. encode_response sink_kernel no_json 7 RespCancelOk [] = Some (r, w'))
     \<and> frame [3] = [1, 0, 0, 0, 3] \<and> client_read [1, 0, 0, 0, 3, 9] = Some ([3], [9])"
proof (intro conjI)
  show "\<exists>r w'. encode_response sink_kernel no_json 7 RespCancelOk [] = Some (r, w')"
    using response_framed [OF sink_kernel_laws, of no_json 7 RespCancelOk "[]"] by blast
  show "frame [3] = [1, 0, 0, 0, 3]" by (simp add: frame_def length_header_def le_bytes_numeral)
  show "client_read [1, 0, 0, 0, 3, 9] = Some ([3], [9])" by (simp add: client_read_def)
qed

text \<open>The result of writing the header is not looked at: when the socket takes only part of
  the four header bytes, the payload follows immediately, \<open>encode_response\<close> reports success, and
  the client holds fewer bytes than the frame has.\<close>

theorem short_header_ignored:
  assumes "fd_write K fd (length_header (response_payload S resp)) w = Some (Inr h, w1)" and "h < 4"
    and "fd_write K fd (response_payload S resp) w1 = Some (Inr (length (response_payload S resp)), w2)"
  shows "encode_response K S fd resp w = Some (Inr (), w2)
    \<and> accepts K fd w (take h (length_header (response_payload S resp)) @ response_payload S resp) w2
    \<and> length (take h (length_header (response_payload S resp)) @ response_payload S resp)
        < length (frame (response_payload S resp))"
proof (intro conjI)
  let ?p = "response_payload S resp"
  have "response_body K fd ?p (0, w1) = Some (Inr (length ?p, w2))"
    using assms(3) by (simp add: response_body_def)
  moreover have "response_body K fd ?p (length ?p, w2) = Some (Inl (Inr (), w2))"
    by (simp add: response_body_def)
  ultimately show "encode_response K S fd resp w = Some (Inr (), w2)"
    using assms(1) by (simp add: encode_response_def run_loop_again run_loop_stop)
  show "accepts K fd w (take h (length_header ?p) @ ?p) w2"
    using accepts_trans [OF fd_write_accepts [OF assms(1)] fd_write_accepts [OF assms(3)]] by simp
qed (use assms(2) in \<open>simp add: frame_def\<close>)

lemma short_header_ignored_witness:
  "encode_response script_kernel no_json 7 RespError ([Inr [0, 0], Inr [0]], 0) = Some (Inr (), ([], 0))"
proof -
  have "response_payload no_json RespError = [4]" by (simp add: response_payload_def)
  then have "fd_write script_kernel 7 (length_header (response_payload no_json RespError))
      ([Inr [0, 0], Inr [0]], 0) = Some (Inr 2, ([Inr [0]], 0))"
    and "fd_write script_kernel 7 (response_payload no_json RespError) ([Inr [0]], 0) =
      Some (Inr (length (response_payload no_json RespError)), ([], 0))"
    by (simp_all add: fd_write_def retry_def run_loop_eval retry_body_def tag_error_def)
  from short_header_ignored [OF this(1) _ this(2)] show ?thesis by simp
qed

end
