(* ===== verification/Ipc.thy ===== *)
theory Ipc
  imports Wire Observers Reactor
begin

text \<open>
  The IPC server of \<open>src/mid_level/ipc.rs\<close>: accepting clients, verifying their credentials,
  turning their requests into actions, and answering the client of a job when one of the core's
  actions is a reply.
\<close>

section \<open>State\<close>

record ipc_module =
  ipc_fd :: i32
  ipc_server_token :: "u64 option"
  ipc_router :: router
  ipc_clients :: "u32 \<rightharpoonup> i32"
  ipc_job_client :: "u64 \<rightharpoonup> u32"
  ipc_next_client :: u32

definition ipc_new :: "i32 \<Rightarrow> router \<Rightarrow> u64 \<Rightarrow> ipc_module" where
  "ipc_new fd router token =
     \<lparr>ipc_fd = fd, ipc_server_token = Some token, ipc_router = router, ipc_clients = Map.empty,
      ipc_job_client = Map.empty, ipc_next_client = 1\<rparr>"

text \<open>The client counter: the id handed out and the counter afterwards, which skips 0.\<close>

definition take_client_id :: "u32 \<Rightarrow> u32 \<times> u32" where
  "take_client_id n = (n, if n + 1 = 0 then 1 else n + 1)"

section \<open>Accepting clients\<close>

definition verify_peer_credentials :: "'w kernel \<Rightarrow> i32 \<Rightarrow> 'w \<Rightarrow> (sys_error + u32) \<times> 'w" where
  "verify_peer_credentials K peer_fd w =
     (let (ret, uid, w) = k_peercred K peer_fd w in
      if ret \<noteq> 0 then (Inl (Syscall (k_errno K w) ''getsockopt(SO_PEERCRED)''), w)
      else (Inr uid, w))"

text \<open>The job the reply to a request will be found under.\<close>

definition remember_job :: "action \<Rightarrow> u32 \<Rightarrow> ipc_module \<Rightarrow> ipc_module" where
  "remember_job a cid m =
     (case a of
        Submit i _ _ _ \<Rightarrow> m\<lparr>ipc_job_client := (ipc_job_client m)(i \<mapsto> cid)\<rparr>
      | Query i \<Rightarrow> m\<lparr>ipc_job_client := (ipc_job_client m)(i \<mapsto> cid)\<rparr>
      | Control i _ \<Rightarrow> m\<lparr>ipc_job_client := (ipc_job_client m)(i \<mapsto> cid)\<rparr>
      | _ \<Rightarrow> m)"

text \<open>
  A decoded request: whether the client is kept, the actions so far, and the new state.
\<close>

definition serve_request :: "'w kernel \<Rightarrow> serde \<Rightarrow> i32 \<Rightarrow> request \<Rightarrow>
    action list \<times> ipc_module \<times> 'w \<Rightarrow> (bool \<times> action list \<times> ipc_module \<times> 'w) option" where
  "serve_request K S fd req = (\<lambda>(acts, m, w).
     let (cid, next) = take_client_id (ipc_next_client m);
         m = m\<lparr>ipc_next_client := next, ipc_clients := (ipc_clients m)(cid \<mapsto> fd)\<rparr>;
         (a, rt) = router_handle (ipc_router m) req;
         m = m\<lparr>ipc_router := rt\<rparr>
     in case a of
          Some act \<Rightarrow> Some (True, acts @ [act], remember_job act cid m, w)
        | None \<Rightarrow> do {
            (_, w) \<leftarrow> encode_response K S fd RespError w;
            Some (False, acts, m\<lparr>ipc_clients := (ipc_clients m)(cid := None)\<rparr>, w)
          })"

text \<open>What happens with an accepted connection, until its descriptor is kept or dropped.\<close>

definition serve_connection :: "'w kernel \<Rightarrow> serde \<Rightarrow> i32 \<Rightarrow> action list \<times> ipc_module \<times> 'w \<Rightarrow>
    (action list \<times> ipc_module \<times> 'w) option" where
  "serve_connection K S fd = (\<lambda>(acts, m, w).
     case verify_peer_credentials K fd w of
       (Inl _, w) \<Rightarrow> Some (acts, m, fd_drop K fd w)
     | (Inr uid, w) \<Rightarrow> do {
         (r, w) \<leftarrow> decode_request K S fd uid w;
         case r of
           Inr (Some req) \<Rightarrow> do {
             (valid, acts, m, w) \<leftarrow> serve_request K S fd req (acts, m, w);
             Some (acts, m, if valid then w else fd_drop K fd w)
           }
         | _ \<Rightarrow> Some (acts, m, fd_drop K fd w)
       })"

definition ready_body :: "'w kernel \<Rightarrow> serde \<Rightarrow> action list \<times> ipc_module \<times> 'w \<Rightarrow>
    ((action list \<times> ipc_module \<times> 'w) + (action list \<times> ipc_module \<times> 'w)) option" where
  "ready_body K S = (\<lambda>(acts, m, w).
     let (client_fd, w) = k_accept4 K (ipc_fd m) w in
     if client_fd < 0 then Some (Inl (acts, m, w))
     else (case fd_new K client_fd ''accept4'' w of
         Inl _ \<Rightarrow> Some (Inr (acts, m, w))
       | Inr fd \<Rightarrow> map_option Inr (serve_connection K S fd (acts, m, w))))"

definition handle_ready :: "'w kernel \<Rightarrow> serde \<Rightarrow> ipc_module \<Rightarrow> 'w \<Rightarrow>
    (action list \<times> ipc_module \<times> 'w) option" where
  "handle_ready K S m w = run_loop (ready_body K S) ([], m, w)"

definition ipc_handle_event :: "'w kernel \<Rightarrow> serde \<Rightarrow> ipc_module \<Rightarrow> reactor_event \<Rightarrow> 'w \<Rightarrow>
    (action list \<times> ipc_module \<times> 'w) option" where
  "ipc_handle_event K S m ev w =
     (if Some (ev_token ev) = ipc_server_token m \<and> ev_readable ev then handle_ready K S m w
      else Some ([], m, w))"

section \<open>Answering clients\<close>

text \<open>The actions that are replies: the job and the response.\<close>

definition reply_of :: "action \<Rightarrow> (u64 \<times> wire_response) option" where
  "reply_of a =
     (case a of
        Started i \<Rightarrow> Some (i, RespExec i)
      | Controlled i \<Rightarrow> Some (i, RespCancelOk)
      | QueryResult i result \<Rightarrow> Some (i, RespResult result)
      | Rejected i \<Rightarrow> Some (i, RespError)
      | Finished i result \<Rightarrow> Some (i, RespResult (Some \<lparr>out_id = i, out_result = result\<rparr>))
      | _ \<Rightarrow> None)"

definition intercept_action :: "'w kernel \<Rightarrow> serde \<Rightarrow> action \<Rightarrow> ipc_module \<Rightarrow> 'w \<Rightarrow>
    (ipc_module \<times> 'w) option" where
  "intercept_action K S a m w =
     (case reply_of a of
        None \<Rightarrow> Some (m, w)
      | Some (i, resp) \<Rightarrow>
          (case ipc_job_client m i of
             None \<Rightarrow> Some (m, w)
           | Some cid \<Rightarrow>
               (let m = m\<lparr>ipc_job_client := (ipc_job_client m)(i := None)\<rparr> in
                case ipc_clients m cid of
                  None \<Rightarrow> Some (m, w)
                | Some raw \<Rightarrow>
                    (let m = m\<lparr>ipc_clients := (ipc_clients m)(cid := None)\<rparr> in
                     case fd_new K raw ''respond'' w of
                       Inl _ \<Rightarrow> Some (m, w)
                     | Inr fd \<Rightarrow> do {
                         (_, w) \<leftarrow> encode_response K S fd resp w;
                         Some (m, fd_drop K fd w)
                       }))))"

fun intercept_all :: "'w kernel \<Rightarrow> serde \<Rightarrow> action list \<Rightarrow> ipc_module \<Rightarrow> 'w \<Rightarrow>
    (ipc_module \<times> 'w) option" where
  "intercept_all K S [] m w = Some (m, w)"
| "intercept_all K S (a # as) m w = do {
     (m, w) \<leftarrow> intercept_action K S a m w;
     intercept_all K S as m w
   }"

section \<open>Client identifiers\<close>

lemma u32_less: "unat (n :: u32) < 2 ^ 32"
proof -
  have "unat n < 2 ^ LENGTH(32)" by (rule unsigned_less)
  then show ?thesis by simp
qed

lemma counter32_next: "unat (n + 1 :: u32) = Suc (unat n) mod 2 ^ 32"
  by (simp add: unat_word_ariths)

lemma unat_succ32:
  assumes "n + 1 \<noteq> (0 :: u32)"
  shows "unat (n + 1) = Suc (unat n)" and "Suc (unat n) < 2 ^ 32"
proof -
  have le: "Suc (unat n) \<le> 2 ^ 32" using u32_less [of n] by simp
  have "unat (n + 1) \<noteq> 0" using assms by (simp add: unat_eq_0)
  then have "Suc (unat n) \<noteq> 2 ^ 32" using counter32_next [of n] by auto
  with le show "Suc (unat n) < 2 ^ 32" by simp
  then show "unat (n + 1) = Suc (unat n)" using counter32_next [of n] by simp
qed

lemma unat_last32:
  assumes "n + 1 = (0 :: u32)"
  shows "Suc (unat n) = 2 ^ 32"
proof (rule ccontr)
  assume "Suc (unat n) \<noteq> 2 ^ 32"
  then have "Suc (unat n) < 2 ^ 32" using u32_less [of n] by simp
  then show False using counter32_next [of n] assms by simp
qed

interpretation client_ids: id_supply take_client_id "\<lambda>n. n \<noteq> 0" "\<lambda>n. unat n - 1" "2 ^ 32 - 1"
    "\<lambda>k. of_nat (Suc k) :: u32"
proof (unfold_locales, goal_cases)
  case (1 s x s')
  then show ?case by (auto simp: take_client_id_def split: if_splits)
next
  case (2 s x s')
  then have "0 < unat s" by (simp add: unat_gt_0)
  with 2 show ?case by (simp add: take_client_id_def)
next
  case (3 s x s')
  then have s: "0 < unat s" by (simp add: unat_gt_0)
  show ?case
  proof (cases "s + 1 = 0")
    case True
    with 3 unat_last32 [OF True] show ?thesis by (auto simp: take_client_id_def)
  next
    case False
    with 3 unat_succ32 [OF False] s show ?thesis by (auto simp: take_client_id_def)
  qed
next
  case (4 s)
  then have "0 < unat s" by (simp add: unat_gt_0)
  then show ?case using u32_less [of s] by simp
next
  case 5
  show ?case
  proof (rule inj_onI)
    fix a b :: nat
    assume ab: "a \<in> {..<2 ^ 32 - 1}" "b \<in> {..<2 ^ 32 - 1}" "(of_nat (Suc a) :: u32) = of_nat (Suc b)"
    then have "unat (of_nat (Suc a) :: u32) = unat (of_nat (Suc b) :: u32)"
      by (rule_tac arg_cong [where f = unat])
    then have "Suc a mod 2 ^ 32 = Suc b mod 2 ^ 32" unfolding unat_of_nat by simp
    with ab(1,2) show "a = b" by simp
  qed
qed

section \<open>What reading and writing a socket leaves alone\<close>

lemma payload_loop_keep:
  assumes "transfers_keep K f" and "run_loop (payload_body K fd len) st = Some x"
  shows "f (snd x) = f (snd st)"
  using assms(2)
proof (induction rule: run_loop_induct)
  case (leave st x)
  obtain got w where st: "st = (got, w)" by fastforce
  from leave [unfolded st] show ?case
    by (cases rule: payload_body_cases) (auto simp: st fd_read_keep [OF assms(1)])
next
  case (again st st' x)
  obtain got w where st: "st = (got, w)" by fastforce
  from again(1) [unfolded st] show ?case
    by (cases rule: payload_body_cases) (use again(2) in \<open>auto simp: st fd_read_keep [OF assms(1)]\<close>)
qed

lemma decode_request_keep:
  assumes "transfers_keep K f" and "decode_request K S fd uid w = Some (r, w')"
  shows "f w' = f w"
proof -
  from assms(2) obtain x w1 where x: "fd_read K fd 4 w = Some (x, w1)"
    by (auto simp: decode_request_def bind_eq_Some_conv)
  note k1 = fd_read_keep [OF assms(1) x]
  show ?thesis
  proof (cases "\<exists>hdr. x = Inr hdr \<and> length hdr = 4 \<and> from_le hdr \<le> MAX_REQUEST")
    case True
    then obtain hdr where hdr: "x = Inr hdr" "length hdr = 4" "from_le hdr \<le> MAX_REQUEST" by blast
    with assms(2) x obtain p w2 where
      p: "run_loop (payload_body K fd (from_le hdr)) ([], w1) = Some (p, w2)"
      by (auto simp: decode_request_def bind_eq_Some_conv)
    with assms(2) x hdr have "w2 = w'"
      by (cases p) (auto simp: decode_request_def split: option.splits)
    with payload_loop_keep [OF assms(1) p] k1 show ?thesis by simp
  next
    case False
    with assms(2) x have "w' = w1"
      by (cases x) (auto simp: decode_request_def Let_def not_le split: if_splits)
    with k1 show ?thesis by simp
  qed
qed

lemma response_loop_keep:
  assumes "transfers_keep K f" and "run_loop (response_body K fd p) st = Some x"
  shows "f (snd x) = f (snd st)"
  using assms(2)
proof (induction rule: run_loop_induct)
  case (leave st x)
  obtain n w where st: "st = (n, w)" by fastforce
  from leave [unfolded st] show ?case
    by (cases rule: response_body_cases) (auto simp: st fd_write_keep [OF assms(1)])
next
  case (again st st' x)
  obtain n w where st: "st = (n, w)" by fastforce
  from again(1) [unfolded st] show ?case
    by (cases rule: response_body_cases) (use again(2) in \<open>auto simp: st fd_write_keep [OF assms(1)]\<close>)
qed

lemma encode_response_keep:
  assumes "transfers_keep K f" and "encode_response K S fd resp w = Some (r, w')"
  shows "f w' = f w"
proof -
  let ?p = "response_payload S resp"
  from assms(2) obtain x w1 where x: "fd_write K fd (length_header ?p) w = Some (x, w1)"
    by (auto simp: encode_response_def Let_def bind_eq_Some_conv)
  note k1 = fd_write_keep [OF assms(1) x]
  show ?thesis
  proof (cases x)
    case (Inl e)
    with assms(2) x k1 show ?thesis by (simp add: encode_response_def)
  next
    case (Inr n)
    with assms(2) x have "run_loop (response_body K fd ?p) (0, w1) = Some (r, w')"
      by (simp add: encode_response_def)
    from response_loop_keep [OF assms(1) this] k1 show ?thesis by simp
  qed
qed

text \<open>Asking for a peer's credentials leaves the same things alone.\<close>

definition socket_keep :: "'w kernel \<Rightarrow> ('w \<Rightarrow> 'x) \<Rightarrow> bool" where
  "socket_keep K f \<longleftrightarrow> transfers_keep K f \<and> (\<forall>fd w. f (snd (snd (k_peercred K fd w))) = f w)"

lemma peercred_keep:
  assumes "socket_keep K f"
  shows "k_peercred K fd w = (c, u, w') \<Longrightarrow> f w' = f w"
  using assms unfolding socket_keep_def by (metis snd_conv)

section \<open>One connection\<close>

definition held :: "ipc_module \<Rightarrow> i32 set" where
  "held m = ran (ipc_clients m)"

text \<open>
  Jobs and clients match: a waiting job has a client that is connected, no two jobs wait for the
  same client, no two clients share a descriptor.
\<close>

definition wf_ipc :: "ipc_module \<Rightarrow> bool" where
  [wf_defs]: "wf_ipc m \<longleftrightarrow> ipc_next_client m \<noteq> 0 \<and> inj_on (ipc_job_client m) (dom (ipc_job_client m))
     \<and> ran (ipc_job_client m) \<subseteq> dom (ipc_clients m)
     \<and> inj_on (ipc_clients m) (dom (ipc_clients m)) \<and> (\<forall>fd \<in> held m. 0 \<le> fd)
     \<and> finite (dom (ipc_clients m))"

lemma wf_ipc_new: "wf_ipc (ipc_new fd rt token)"
  by (simp add: wf_ipc_def ipc_new_def held_def)

lemma take_client_id_simps [simp]:
  "fst (take_client_id n) = n" "snd (take_client_id n) \<noteq> 0"
  by (simp_all add: take_client_id_def)

definition with_client :: "i32 \<Rightarrow> ipc_module \<Rightarrow> ipc_module" where
  "with_client fd m = m\<lparr>ipc_next_client := snd (take_client_id (ipc_next_client m)),
     ipc_clients := (ipc_clients m)(ipc_next_client m \<mapsto> fd)\<rparr>"

lemma remember_job_frame [simp]:
  "ipc_clients (remember_job a cid m) = ipc_clients m"
  "ipc_next_client (remember_job a cid m) = ipc_next_client m"
  "ipc_fd (remember_job a cid m) = ipc_fd m"
  by (simp_all add: remember_job_def split: action.splits)

lemma remember_job_map:
  "ipc_job_client (remember_job a cid m) = ipc_job_client m \<or>
     (\<exists>i. ipc_job_client (remember_job a cid m) = (ipc_job_client m)(i \<mapsto> cid))"
  by (auto simp: remember_job_def split: action.splits)

text \<open>
  A request of the three kinds always becomes an action, so its client is kept.
\<close>

lemma router_handle_Some: "\<exists>act rt. router_handle r req = (Some act, rt)"
  by (cases req) (simp_all add: split_beta Let_def)

lemma serve_request_kept:
  "\<exists>act rt. router_handle (ipc_router m) req = (Some act, rt) \<and>
     serve_request K S fd req (acts, m, w) =
       Some (True, acts @ [act], remember_job act (ipc_next_client m)
         ((with_client fd m)\<lparr>ipc_router := rt\<rparr>), w)"
proof -
  obtain act rt where "router_handle (ipc_router m) req = (Some act, rt)"
    using router_handle_Some by blast
  then show ?thesis
    by (simp add: serve_request_def with_client_def take_client_id_def split_beta Let_def)
qed

lemma serve_connection_cases:
  assumes "socket_keep K f" and "serve_connection K S fd (acts, m, w) = Some x"
  obtains (dropped) w1 where "x = (acts, m, fd_drop K fd w1)" "f w1 = f w"
  | (kept) act rt w1 req where
      "x = (acts @ [act], remember_job act (ipc_next_client m) ((with_client fd m)\<lparr>ipc_router := rt\<rparr>), w1)"
      "f w1 = f w" "router_handle (ipc_router m) req = (Some act, rt)"
proof -
  obtain u w1 where u: "verify_peer_credentials K fd w = (u, w1)" by fastforce
  then have f1: "f w1 = f w"
    by (auto simp: verify_peer_credentials_def Let_def split: prod.splits if_splits
        dest: peercred_keep [OF assms(1)])
  show thesis
  proof (cases u)
    case (Inl e)
    with assms(2) u f1 show thesis by (auto simp: serve_connection_def intro: dropped)
  next
    case (Inr uid)
    with assms(2) u obtain r w2 where r: "decode_request K S fd uid w1 = Some (r, w2)"
      by (auto simp: serve_connection_def bind_eq_Some_conv)
    have f2: "f w2 = f w" using decode_request_keep [OF conjunct1 [OF assms(1) [unfolded socket_keep_def]] r] f1 by simp
    show thesis
    proof (cases "\<exists>req. r = Inr (Some req)")
      case True
      then obtain req where req: "r = Inr (Some req)" by blast
      obtain act rt where act: "router_handle (ipc_router m) req = (Some act, rt)"
        "serve_request K S fd req (acts, m, w2) = Some (True, acts @ [act],
          remember_job act (ipc_next_client m) ((with_client fd m)\<lparr>ipc_router := rt\<rparr>), w2)"
        using serve_request_kept [of m req K S fd acts w2] by blast
      with assms(2) u Inr r req have "x = (acts @ [act],
          remember_job act (ipc_next_client m) ((with_client fd m)\<lparr>ipc_router := rt\<rparr>), w2)"
        by (simp add: serve_connection_def)
      from kept [OF this f2 act(1)] show thesis .
    next
      case False
      with assms(2) u Inr r have "x = (acts, m, fd_drop K fd w2)"
        by (auto simp: serve_connection_def split: sum.splits option.splits)
      from dropped [OF this f2] show thesis .
    qed
  qed
qed

lemma wf_ipc_with_client:
  assumes "wf_ipc m" and "ipc_next_client m \<notin> dom (ipc_clients m)" and "fd \<notin> held m" and "0 \<le> fd"
  shows "wf_ipc (remember_job act (ipc_next_client m) ((with_client fd m)\<lparr>ipc_router := rt\<rparr>))"
proof -
  let ?n = "ipc_next_client m" and ?J = "ipc_job_client m" and ?C = "ipc_clients m"
  let ?m = "remember_job act ?n ((with_client fd m)\<lparr>ipc_router := rt\<rparr>)"
  have fresh: "?n \<notin> ran ?J" using assms(1,2) by (auto simp: wf_ipc_def)
  have inj: "inj_on ?J (dom ?J)" and sub: "ran ?J \<subseteq> dom ?C" using assms(1) by (auto simp: wf_ipc_def)
  have put: "inj_on (?J(i \<mapsto> ?n)) (dom (?J(i \<mapsto> ?n))) \<and> ran (?J(i \<mapsto> ?n)) \<subseteq> insert ?n (dom ?C)" for i
  proof
    show "inj_on (?J(i \<mapsto> ?n)) (dom (?J(i \<mapsto> ?n)))"
      using inj fresh by (auto simp: inj_on_def ran_def dom_def)
    show "ran (?J(i \<mapsto> ?n)) \<subseteq> insert ?n (dom ?C)"
      using sub by (auto simp: ran_def split: if_splits)
  qed
  have "ipc_job_client ((with_client fd m)\<lparr>ipc_router := rt\<rparr>) = ?J" by (simp add: with_client_def)
  with remember_job_map [of act ?n "(with_client fd m)\<lparr>ipc_router := rt\<rparr>"]
  consider "ipc_job_client ?m = ?J" | i where "ipc_job_client ?m = ?J(i \<mapsto> ?n)" by metis
  then have J: "inj_on (ipc_job_client ?m) (dom (ipc_job_client ?m))
      \<and> ran (ipc_job_client ?m) \<subseteq> insert ?n (dom ?C)"
  proof cases
    case 1
    then show ?thesis using inj sub by auto
  next
    case (2 i)
    then show ?thesis using put [of i] by simp
  qed
  have "inj_on (?C(?n \<mapsto> fd)) (dom (?C(?n \<mapsto> fd)))"
    using assms(1,3) by (auto simp: wf_ipc_def held_def inj_on_def ran_def dom_def)
  moreover have "\<forall>x \<in> ran (?C(?n \<mapsto> fd)). 0 \<le> x"
    using assms(1,4) by (auto simp: wf_ipc_def held_def ran_def split: if_splits)
  ultimately show ?thesis using J assms(1) by (simp add: wf_ipc_def held_def with_client_def)
qed

section \<open>The accept loop\<close>

text \<open>
  The documented effect of the socket calls: \<open>accept4\<close> returns a descriptor that was not open
  and takes a connection off the queue, whose length is \<open>bl\<close>; nothing else here changes either.
\<close>

definition accept_laws :: "'w kernel \<Rightarrow> ('w \<Rightarrow> i32 set) \<Rightarrow> ('w \<Rightarrow> nat) \<Rightarrow> bool" where
  "accept_laws K opn bl \<longleftrightarrow> closes_fds K opn \<and> socket_keep K (\<lambda>w. (opn w, bl w))
     \<and> (\<forall>fd w. bl (k_close K fd w) = bl w)
     \<and> (\<forall>l w fd w'. k_accept4 K l w = (fd, w') \<longrightarrow>
          (if fd < 0 then opn w' = opn w \<and> bl w' \<le> bl w
           else fd \<notin> opn w \<and> opn w' = insert fd (opn w) \<and> bl w' < bl w))"

text \<open>The next \<open>k\<close> client ids are not in use.\<close>

definition free_ids :: "nat \<Rightarrow> ipc_module \<Rightarrow> bool" where
  "free_ids k m \<longleftrightarrow> k \<le> 2 ^ 32 - 1 \<and>
     set (fst (draws take_client_id k (ipc_next_client m))) \<inter> dom (ipc_clients m) = {}"

lemma free_ids_mono: "free_ids k m \<Longrightarrow> j \<le> k \<Longrightarrow> free_ids j m"
  using draws_prefix [of j k take_client_id "ipc_next_client m"] set_take_subset
  by (fastforce simp: free_ids_def)

lemma free_ids_next: "free_ids k m \<Longrightarrow> 0 < k \<Longrightarrow> ipc_next_client m \<notin> dom (ipc_clients m)"
  by (cases k) (auto simp: free_ids_def split_beta Let_def)

lemma free_ids_with_client:
  assumes "free_ids (Suc k) m" and "wf_ipc m"
    and "ipc_next_client m' = snd (take_client_id (ipc_next_client m))"
    and "ipc_clients m' = (ipc_clients m)(ipc_next_client m \<mapsto> fd)"
  shows "free_ids k m'"
proof -
  obtain ids n where ids: "draws take_client_id (Suc k) (ipc_next_client m) = (ids, n)" by fastforce
  then have eq: "ids = ipc_next_client m # fst (draws take_client_id k (ipc_next_client m'))"
    using assms(3) by (auto simp: split_beta Let_def)
  have "distinct ids"
    using client_ids.draws_distinct [OF _ ids] assms(1,2) by (simp add: wf_ipc_def free_ids_def)
  then show ?thesis
    using assms(1,4) ids eq by (auto simp: free_ids_def simp del: draws.simps)
qed

text \<open>
  What the loop keeps: every descriptor accepted so far is closed again or held for a client, and
  the actions so far are one per new client; \<open>k\<close> ids are kept for later connections.
\<close>

definition accepting :: "('w \<Rightarrow> i32 set) \<Rightarrow> ('w \<Rightarrow> nat) \<Rightarrow> nat \<Rightarrow> ipc_module \<times> 'w \<Rightarrow>
    action list \<times> ipc_module \<times> 'w \<Rightarrow> bool" where
  "accepting opn bl k start st \<longleftrightarrow> (case (start, st) of ((m0, w0), (acts, m, w)) \<Rightarrow>
     wf_ipc m \<and> held m \<subseteq> opn w \<and> free_ids (k + bl w) m \<and> opn w - held m = opn w0 - held m0
     \<and> length acts + bl w \<le> bl w0 \<and> ipc_clients m0 \<subseteq>\<^sub>m ipc_clients m
     \<and> card (dom (ipc_clients m)) = card (dom (ipc_clients m0)) + length acts)"

lemma fd_drop_laws:
  assumes "accept_laws K opn bl" and "0 \<le> fd"
  shows "opn (fd_drop K fd w) = opn w - {fd}" and "bl (fd_drop K fd w) = bl w"
  using assms by (auto simp: accept_laws_def closes_fds_def fd_drop_def)

lemma accepting_step:
  assumes "accept_laws K opn bl" and "accepting opn bl k start st" and "ready_body K S st = Some (Inr st')"
  shows "accepting opn bl k start st' \<and> bl (snd (snd st')) < bl (snd (snd st))"
proof -
  obtain m0 w0 where start: "start = (m0, w0)" by fastforce
  obtain acts m w where st: "st = (acts, m, w)" by (cases st)
  obtain fd w1 where acc: "k_accept4 K (ipc_fd m) w = (fd, w1)" by fastforce
  from assms(3) acc st have fd: "0 \<le> fd" and con: "serve_connection K S fd (acts, m, w1) = Some st'"
    by (auto simp: ready_body_def fd_new_def split: if_splits)
  have a: "fd \<notin> opn w" "opn w1 = insert fd (opn w)" "bl w1 < bl w"
    using assms(1) acc fd unfolding accept_laws_def by (metis not_le)+
  note I = assms(2) [unfolded accepting_def start st, simplified]
  have new: "fd \<notin> held m" using I a(1) by blast
  have keep: "socket_keep K (\<lambda>w. (opn w, bl w))" using assms(1) by (simp add: accept_laws_def)
  have fr: "free_ids (Suc (k + bl w1)) m" using free_ids_mono [of "k + bl w" m "Suc (k + bl w1)"] a(3) I by simp
  from keep con show ?thesis
  proof (cases rule: serve_connection_cases)
    case (dropped w2)
    moreover have "free_ids (k + bl w1) m" using free_ids_mono [OF fr] by simp
    ultimately show ?thesis
      using I a new fd_drop_laws [OF assms(1) fd, of w2]
      by (auto simp: accepting_def start st)
  next
    case (kept act rt w2 req)
    let ?m = "remember_job act (ipc_next_client m) ((with_client fd m)\<lparr>ipc_router := rt\<rparr>)"
    have nf: "ipc_next_client m \<notin> dom (ipc_clients m)" using free_ids_next [OF fr] by simp
    have cl: "ipc_clients ?m = (ipc_clients m)(ipc_next_client m \<mapsto> fd)"
      "ipc_next_client ?m = snd (take_client_id (ipc_next_client m))"
      by (simp_all add: with_client_def)
    have "held ?m = insert fd (held m)" unfolding held_def cl(1) using nf by (simp add: domIff)
    moreover have "free_ids (k + bl w1) ?m" using free_ids_with_client [OF fr _ cl(2,1)] I by simp
    moreover have "wf_ipc ?m" using wf_ipc_with_client [OF _ nf new fd] I by simp
    moreover have "ipc_clients m0 \<subseteq>\<^sub>m ipc_clients ?m"
      unfolding cl(1) using map_le_upd_fresh [OF _ nf] I by blast
    moreover have "card (dom (ipc_clients ?m)) = Suc (card (dom (ipc_clients m)))"
      unfolding cl(1) using nf I by (simp add: wf_ipc_def)
    ultimately show ?thesis using I a new kept by (auto simp: accepting_def start st)
  qed
qed

lemma accepting_stop:
  assumes "accept_laws K opn bl" and "accepting opn bl k (m0, w0) (acts, m, w)"
    and "ready_body K S (acts, m, w) = Some (Inl x)"
  shows "\<exists>w'. x = (acts, m, w') \<and> opn w' = opn w \<and> bl w' \<le> bl w"
proof -
  obtain fd w' where acc: "k_accept4 K (ipc_fd m) w = (fd, w')" by fastforce
  with assms(3) have "fd < 0" "x = (acts, m, w')"
    by (auto simp: ready_body_def fd_new_def split: if_splits)
  moreover from this(1) acc assms(1) have "opn w' = opn w \<and> bl w' \<le> bl w"
    unfolding accept_laws_def by metis
  ultimately show ?thesis by blast
qed

lemma serve_connection_returns:
  assumes "\<And>fd. reads_return K fd"
  shows "\<exists>x. serve_connection K S fd st = Some x"
proof -
  obtain acts m w where st: "st = (acts, m, w)" by (cases st)
  obtain u w1 where u: "verify_peer_credentials K fd w = (u, w1)" by fastforce
  show ?thesis
  proof (cases u)
    case (Inr uid)
    obtain r w2 where r: "decode_request K S fd uid w1 = Some (r, w2)"
      using decode_request_returns [OF assms] by blast
    show ?thesis
    proof (cases "\<exists>req. r = Inr (Some req)")
      case True
      then obtain req where "r = Inr (Some req)" by blast
      with st u Inr r serve_request_kept [of m req K S fd acts w2]
      show ?thesis by (auto simp: serve_connection_def)
    next
      case False
      with st u Inr r show ?thesis
        by (auto simp: serve_connection_def split: sum.splits option.splits)
    qed
  qed (simp add: serve_connection_def st u)
qed

lemma ready_body_total: "(\<And>fd. reads_return K fd) \<Longrightarrow> ready_body K S st \<noteq> None"
  using serve_connection_returns [of K S]
  by (auto simp: ready_body_def fd_new_def split_beta Let_def split: prod.splits)

lemma handle_ready_accounts:
  assumes "accept_laws K opn bl" and "\<forall>fd. reads_return K fd" and "wf_ipc m"
    and "held m \<subseteq> opn w" and "free_ids (k + bl w) m"
  shows "\<exists>acts m' w'. handle_ready K S m w = Some (acts, m', w') \<and> wf_ipc m'
    \<and> opn w' - held m' = opn w - held m \<and> held m' \<subseteq> opn w'
    \<and> ipc_clients m \<subseteq>\<^sub>m ipc_clients m'
    \<and> card (dom (ipc_clients m')) = card (dom (ipc_clients m)) + length acts
    \<and> length acts + bl w' \<le> bl w \<and> free_ids (k + bl w') m'"
proof -
  let ?I = "accepting opn bl k (m, w)"
  have start: "?I ([], m, w)" using assms(3-5) by (simp add: accepting_def)
  have "\<exists>r. run_loop (ready_body K S) ([], m, w) = Some r"
  proof (rule run_loop_measure [where I = ?I and m = "\<lambda>st. bl (snd (snd st))"])
    show "ready_body K S st \<noteq> None" for st using ready_body_total assms(2) by blast
  qed (use accepting_step [OF assms(1)] start in blast)+
  then obtain r where r: "run_loop (ready_body K S) ([], m, w) = Some r" by blast
  let ?Q = "\<lambda>x. \<exists>acts m' v. ?I (acts, m', v) \<and> (\<exists>w'. x = (acts, m', w') \<and> opn w' = opn v \<and> bl w' \<le> bl v)"
  have "?Q r"
    using r start
  proof (rule run_loop_rule [where I = ?I])
    show "?Q x" if "?I st" and "ready_body K S st = Some (Inl x)" for st x
      using accepting_stop [OF assms(1)] that by (cases st) blast
  qed (use accepting_step [OF assms(1)] in blast)
  then obtain acts m' v w' where I: "?I (acts, m', v)"
    and x: "r = (acts, m', w')" "opn w' = opn v" "bl w' \<le> bl v" by blast
  have "free_ids (k + bl w') m'" using I x(3) free_ids_mono by (auto simp: accepting_def)
  with I x r show ?thesis by (auto simp: accepting_def handle_ready_def)
qed

section \<open>Replies\<close>

lemma intercept_silent:
  "reply_of a = None \<Longrightarrow> intercept_action K S a m w = Some (m, w)"
  "reply_of a = Some (i, resp) \<Longrightarrow> ipc_job_client m i = None \<Longrightarrow>
     intercept_action K S a m w = Some (m, w)"
  by (simp_all add: intercept_action_def)

lemma intercept_reply:
  assumes "reply_of a = Some (i, resp)" and "ipc_job_client m i = Some cid"
    and "ipc_clients m cid = Some fd" and "0 \<le> fd" and "encode_response K S fd resp w = Some (r, w1)"
  shows "intercept_action K S a m w = Some (m\<lparr>ipc_job_client := (ipc_job_client m)(i := None),
    ipc_clients := (ipc_clients m)(cid := None)\<rparr>, k_close K fd w1)"
  using assms by (simp add: intercept_action_def fd_new_def fd_drop_def Let_def)

text \<open>The module after the client \<open>cid\<close> of job \<open>i\<close> has been answered.\<close>

abbreviation forget_client :: "u64 \<Rightarrow> u32 \<Rightarrow> ipc_module \<Rightarrow> ipc_module" where
  "forget_client i cid m \<equiv> m\<lparr>ipc_job_client := (ipc_job_client m)(i := None),
     ipc_clients := (ipc_clients m)(cid := None)\<rparr>"

lemma reply_sent:
  assumes "wf_ipc m" and "reply_of a = Some (i, resp)" and "ipc_job_client m i = Some cid"
    and "\<forall>fd. writes_return K fd" and "write_bounded K"
  obtains fd r w1 where "ipc_clients m cid = Some fd"
    "transmitted K fd (length_header (response_payload S resp)) (response_payload S resp) w r w1"
    "intercept_action K S a m w = Some (forget_client i cid m, k_close K fd w1)"
proof -
  have wf: "ran (ipc_job_client m) \<subseteq> dom (ipc_clients m)" "\<forall>fd \<in> held m. 0 \<le> fd"
    using assms(1) by (simp_all add: wf_ipc_def)
  with ranI [of "ipc_job_client m" i cid, OF assms(3)] obtain fd where "ipc_clients m cid = Some fd" by auto
  moreover from this have "0 \<le> fd" using wf(2) unfolding held_def by (blast intro: ranI)
  ultimately have fd: "ipc_clients m cid = Some fd" "0 \<le> fd" .
  obtain r w1 where r: "encode_response K S fd resp w = Some (r, w1)"
    using encode_response_returns [OF assms(4) [rule_format]] by blast
  from that [OF fd(1) encode_response_transmits [OF assms(5) r] intercept_reply [OF assms(2,3) fd r]]
  show thesis .
qed

lemma wf_ipc_forget:
  assumes "wf_ipc m" and "ipc_job_client m i = Some cid" and "ipc_clients m cid = Some fd"
    and "m' = m\<lparr>ipc_job_client := (ipc_job_client m)(i := None), ipc_clients := (ipc_clients m)(cid := None)\<rparr>"
  shows "wf_ipc m'" and "held m' = held m - {fd}"
proof -
  let ?J = "ipc_job_client m" and ?C = "ipc_clients m"
  have inj: "inj_on ?J (dom ?J)" "inj_on ?C (dom ?C)" and sub: "ran ?J \<subseteq> dom ?C"
    using assms(1) by (auto simp: wf_ipc_def)
  show h: "held m' = held m - {fd}"
    using ran_remove [OF inj(2) assms(3)] assms(4) by (simp add: held_def)
  have "ran (?J(i := None)) \<subseteq> dom (?C(cid := None))"
    using ran_remove [OF inj(1) assms(2)] sub by auto
  then show "wf_ipc m'"
    using inj_map_remove [OF inj(1)] inj_map_remove [OF inj(2)] assms(1,4) h
    by (simp add: wf_ipc_def)
qed

lemma free_ids_forget:
  assumes "free_ids k m" and "m' = m\<lparr>ipc_job_client := J, ipc_clients := (ipc_clients m)(cid := None)\<rparr>"
  shows "free_ids k m'"
  using assms by (auto simp: free_ids_def)

text \<open>Replies to other jobs leave a waiting client alone.\<close>

lemma intercept_other:
  assumes "wf_ipc m" and "ipc_job_client m i = Some cid" and "\<forall>resp. reply_of a \<noteq> Some (i, resp)"
    and "intercept_action K S a m w = Some (m', w')"
  shows "wf_ipc m' \<and> ipc_job_client m' i = Some cid \<and> ipc_clients m' cid = ipc_clients m cid"
proof (cases "reply_of a")
  case None
  with assms show ?thesis by (simp add: intercept_silent)
next
  case (Some jr)
  obtain j resp where jr: "jr = (j, resp)" by fastforce
  with Some assms(3) have ne: "j \<noteq> i" by blast
  show ?thesis
  proof (cases "ipc_job_client m j")
    case None
    with Some jr assms show ?thesis by (simp add: intercept_silent)
  next
    case c: (Some c)
    have wf: "inj_on (ipc_job_client m) (dom (ipc_job_client m))" "ran (ipc_job_client m) \<subseteq> dom (ipc_clients m)"
      "\<forall>fd \<in> held m. 0 \<le> fd" using assms(1) by (simp_all add: wf_ipc_def)
    have "c \<noteq> cid" using inj_map_same [OF wf(1) c, of i] assms(2) ne by auto
    moreover from ranI [of "ipc_job_client m" j c, OF c] wf(2) obtain fd where fd: "ipc_clients m c = Some fd" by auto
    moreover have "0 \<le> fd" using wf(3) fd unfolding held_def by (blast intro: ranI)
    ultimately have m': "m' = forget_client j c m"
      using assms(4) Some jr c
      by (auto simp: intercept_action_def Let_def bind_eq_Some_conv fd_new_def split: prod.splits)
    from wf_ipc_forget(1) [OF assms(1) c fd m'] m' ne \<open>c \<noteq> cid\<close> assms(2) show ?thesis by simp
  qed
qed

lemma intercept_all_other:
  "intercept_all K S as m w = Some (m', w') \<Longrightarrow> wf_ipc m \<Longrightarrow> ipc_job_client m i = Some cid \<Longrightarrow>
     \<forall>a \<in> set as. \<forall>resp. reply_of a \<noteq> Some (i, resp) \<Longrightarrow>
     ipc_job_client m' i = Some cid \<and> ipc_clients m' cid = ipc_clients m cid"
proof (induction as arbitrary: m w)
  case (Cons a as)
  then obtain m1 w1 where a: "intercept_action K S a m w = Some (m1, w1)"
    "intercept_all K S as m1 w1 = Some (m', w')"
    by (auto simp: bind_eq_Some_conv)
  from Cons.prems(4) have "\<forall>resp. reply_of a \<noteq> Some (i, resp)" by simp
  from intercept_other [OF Cons.prems(2,3) this a(1)] Cons.IH [OF a(2)] Cons.prems(4) show ?case by simp
qed simp

text \<open>A client no job waits for: no action whatever answers it.\<close>

definition forgotten :: "u32 \<Rightarrow> ipc_module \<Rightarrow> bool" where
  "forgotten cid m \<longleftrightarrow> cid \<notin> ran (ipc_job_client m)"

lemma intercept_forgotten:
  assumes "forgotten cid m" and "intercept_action K S a m w = Some (m', w')"
  shows "forgotten cid m' \<and> ipc_clients m' cid = ipc_clients m cid"
proof (cases "reply_of a")
  case None
  with assms show ?thesis by (simp add: intercept_silent)
next
  case (Some ir)
  obtain i resp where ir: "ir = (i, resp)" by fastforce
  show ?thesis
  proof (cases "ipc_job_client m i")
    case None
    with Some ir assms show ?thesis by (simp add: intercept_silent)
  next
    case (Some c)
    with assms(1) have "c \<noteq> cid" by (auto simp: forgotten_def ran_def)
    moreover have "cid \<notin> ran ((ipc_job_client m)(i := None))"
      using assms(1) by (auto simp: forgotten_def ran_def)
    ultimately show ?thesis
      using assms(2) \<open>reply_of a = Some ir\<close> ir Some
      by (auto simp: intercept_action_def forgotten_def Let_def bind_eq_Some_conv
          split: option.splits sum.splits prod.splits)
  qed
qed

lemma intercept_all_forgotten:
  "intercept_all K S as m w = Some (m', w') \<Longrightarrow> forgotten cid m \<Longrightarrow>
     forgotten cid m' \<and> ipc_clients m' cid = ipc_clients m cid"
proof (induction as arbitrary: m w)
  case (Cons a as)
  then obtain m1 w1 where a: "intercept_action K S a m w = Some (m1, w1)"
    "intercept_all K S as m1 w1 = Some (m', w')"
    by (auto simp: bind_eq_Some_conv)
  from intercept_forgotten [OF Cons.prems(2) a(1)] Cons.IH [OF a(2)] show ?case by simp
qed simp

section \<open>Properties\<close>

text \<open>C6: The accept loop neither blocks for ever nor leaks. With a finite accept queue it returns;
  every descriptor it accepted is afterwards either closed or held for a client, nothing else
  was opened or closed, existing clients keep their entries, there is exactly one action per
  new client, and jobs, clients and descriptors still match one to one. (The ids of the next
  clients must not be in use, which the counter guarantees until it has wrapped.)\<close>

theorem accept_loop_accounts:
  assumes "accept_laws K opn bl" and "\<forall>fd. reads_return K fd" and "wf_ipc m"
    and "held m \<subseteq> opn w" and "free_ids (bl w) m"
  shows "\<exists>acts m' w'. handle_ready K S m w = Some (acts, m', w') \<and> wf_ipc m'
    \<and> opn w' - held m' = opn w - held m \<and> held m' \<subseteq> opn w'
    \<and> ipc_clients m \<subseteq>\<^sub>m ipc_clients m'
    \<and> card (dom (ipc_clients m')) = card (dom (ipc_clients m)) + length acts \<and> length acts \<le> bl w"
  using handle_ready_accounts [OF assms(1-4), of 0 S] assms(5) by simp (meson add_leD1)

text \<open>C14: A job is answered once. When the client of a job is connected, an action that is a reply
  for the job transmits that client (and nobody else) the header and the payload of the response,
  all of it unless the socket refuses a write, closes its descriptor and forgets client and job;
  any later reply for the same job, of whatever kind, does nothing at all.\<close>

theorem reply_once:
  assumes "wf_ipc m" and "reply_of a = Some (i, resp)" and "ipc_job_client m i = Some cid"
    and "\<forall>fd. writes_return K fd" and "write_bounded K"
  shows "\<exists>fd m' r w1. ipc_clients m cid = Some fd
    \<and> intercept_action K S a m w = Some (m', k_close K fd w1)
    \<and> transmitted K fd (length_header (response_payload S resp)) (response_payload S resp) w r w1
    \<and> wf_ipc m' \<and> held m' = held m - {fd} \<and> ipc_job_client m' = (ipc_job_client m)(i := None)
    \<and> ipc_clients m' = (ipc_clients m)(cid := None)
    \<and> (\<forall>b resp' v. reply_of b = Some (i, resp') \<longrightarrow> intercept_action K S b m' v = Some (m', v))"
proof -
  from reply_sent [OF assms, where S = S and w = w] obtain fd r w1 where
    sent: "ipc_clients m cid = Some fd"
      "transmitted K fd (length_header (response_payload S resp)) (response_payload S resp) w r w1"
      "intercept_action K S a m w = Some (forget_client i cid m, k_close K fd w1)" by blast
  have later: "\<forall>b resp' v. reply_of b = Some (i, resp') \<longrightarrow>
      intercept_action K S b (forget_client i cid m) v = Some (forget_client i cid m, v)"
    by (intro allI impI) (rule intercept_silent(2), assumption, simp)
  note forget = wf_ipc_forget [OF assms(1,3) sent(1) refl]
  show ?thesis
    by (intro exI [of _ fd] exI [of _ "forget_client i cid m"] exI [of _ r] exI [of _ w1] conjI)
      (use sent forget later in simp_all)
qed

text \<open>C37: A later question steals the reply. If a client waits for a job and another connection
  asks for the result of that job or cancels it, the waiting client is forgotten: whatever
  actions the core produces afterwards, it is neither answered nor closed, and its descriptor
  stays in the client table.\<close>

theorem query_steals_reply:
  assumes "wf_ipc m" and "ipc_job_client m i = Some cid" and "ipc_next_client m \<notin> dom (ipc_clients m)"
    and "req = GetResult u i \<or> req = Cancel u i"
    and "serve_request K S fd req (acts, m, w) = Some (valid, acts', m', w')"
  shows "valid \<and> ipc_job_client m' i = Some (ipc_next_client m) \<and> cid \<noteq> ipc_next_client m
    \<and> (\<forall>later v m'' v'. intercept_all K S later m' v = Some (m'', v') \<longrightarrow>
         ipc_clients m'' cid = ipc_clients m cid \<and> ipc_clients m cid \<noteq> None)"
proof -
  have dom: "cid \<in> dom (ipc_clients m)" using assms(1,2) by (auto simp: wf_ipc_def ran_def)
  with assms(3) have ne: "cid \<noteq> ipc_next_client m" by blast
  let ?n = "ipc_next_client m"
  from assms(4,5) have eq: "valid" "ipc_job_client m' = (ipc_job_client m)(i \<mapsto> ?n)"
    "ipc_clients m' = (ipc_clients m)(?n \<mapsto> fd)"
    by (auto simp: serve_request_def take_client_id_def remember_job_def)
  have "forgotten cid m'"
  proof -
    have "j = i" if "ipc_job_client m j = Some cid" for j
      using inj_map_same [of "ipc_job_client m" j cid i] that assms(1,2) by (simp add: wf_ipc_def)
    with ne show ?thesis by (auto simp: forgotten_def eq(2) ran_def split: if_splits)
  qed
  then have "ipc_clients m'' cid = ipc_clients m cid"
    if "intercept_all K S later m' v = Some (m'', v')" for later v m'' v'
    using intercept_all_forgotten [OF that] eq(3) ne by simp
  with eq ne dom show ?thesis by auto
qed

section \<open>A listening socket, for closed instances\<close>

text \<open>
  The world: the connections waiting (user id and what the client has sent), the open
  descriptors, the unread bytes per descriptor, and the bytes written to each.
\<close>

record net =
  net_queue :: "(u32 \<times> bytes) list"
  net_open :: "i32 set"
  net_uid :: "i32 \<Rightarrow> u32"
  net_in :: "i32 \<Rightarrow> bytes"
  net_out :: "i32 \<Rightarrow> bytes"

fun net_accept :: "net \<Rightarrow> i32 \<times> net" where
  "net_accept w =
     (case net_queue w of
        [] \<Rightarrow> (-1, w)
      | (uid, bs) # q \<Rightarrow>
          if finite (net_open w) then
            let fd = Max (insert 2 (net_open w)) + 1
            in (fd, w\<lparr>net_queue := q, net_open := insert fd (net_open w),
                 net_uid := (net_uid w)(fd := uid), net_in := (net_in w)(fd := bs)\<rparr>)
          else (-1, w))"

definition net_kernel :: "net kernel" where
  "net_kernel = (quiet_kernel (\<lambda>_. EAGAIN))\<lparr>
     k_accept4 := \<lambda>_. net_accept, k_peercred := \<lambda>fd w. (0, net_uid w fd, w),
     k_read := \<lambda>fd n w. (Some (take n (net_in w fd)),
       w\<lparr>net_in := (net_in w)(fd := drop n (net_in w fd))\<rparr>),
     k_write := \<lambda>fd bs w. (Some (length bs), w\<lparr>net_out := (net_out w)(fd := net_out w fd @ bs)\<rparr>),
     k_close := \<lambda>fd w. w\<lparr>net_open := net_open w - {fd}\<rparr>, k_fcntl := \<lambda>fd c w. (0, w)\<rparr>"

lemma net_kernel_sel [simp]:
  "k_accept4 net_kernel l = net_accept" "k_peercred net_kernel fd w = (0, net_uid w fd, w)"
  "k_read net_kernel fd n w = (Some (take n (net_in w fd)),
     w\<lparr>net_in := (net_in w)(fd := drop n (net_in w fd))\<rparr>)"
  "k_write net_kernel fd bs w = (Some (length bs),
     w\<lparr>net_out := (net_out w)(fd := net_out w fd @ bs)\<rparr>)"
  "k_close net_kernel fd w = w\<lparr>net_open := net_open w - {fd}\<rparr>"
  "k_fcntl net_kernel fd c w = (0, w)"
  by (simp_all add: net_kernel_def)

lemma net_accept_laws: "accept_laws net_kernel net_open (\<lambda>w. length (net_queue w))"
proof -
  have fresh: "Max (insert 2 A) + 1 \<notin> A" "\<not> Max (insert 2 A) + 1 < 0" if "finite A" for A :: "i32 set"
    using that Max_ge [of "insert 2 A"] by fastforce+
  have "if fd < 0 then net_open w' = net_open w \<and> length (net_queue w') \<le> length (net_queue w)
      else fd \<notin> net_open w \<and> net_open w' = insert fd (net_open w)
        \<and> length (net_queue w') < length (net_queue w)"
    if "net_accept w = (fd, w')" for w fd w'
    using that fresh [of "net_open w"] by (auto simp: Let_def split: list.splits if_splits)
  then show ?thesis
    unfolding accept_laws_def closes_fds_def socket_keep_def transfers_keep_def net_kernel_sel
    by (intro conjI allI impI) (simp_all del: net_accept.simps)
qed

lemma net_never_interrupted: "reads_return net_kernel fd" "writes_return net_kernel fd"
  unfolding reads_return_def writes_return_def
  by (intro allI wfp_if_convertible_to_nat [where f = "\<lambda>_. 0"], simp add: interrupted_def)+

lemma net_bounded: "read_bounded net_kernel" "write_bounded net_kernel"
  by (auto simp: read_bounded_def write_bounded_def)

definition net_start :: net where
  "net_start = \<lparr>net_queue = [(1000, frame (2 # u64_to_le_bytes 5)), (0, [7])], net_open = {0, 1, 2},
     net_uid = (\<lambda>_. 0), net_in = (\<lambda>_. []), net_out = (\<lambda>_. [])\<rparr>"

lemma accept_loop_accounts_witness:
  "\<exists>acts m' w'. handle_ready net_kernel no_json (ipc_new 3 router_new 1) net_start = Some (acts, m', w')
     \<and> wf_ipc m' \<and> net_open w' - held m' = {0, 1, 2} \<and> length acts \<le> 2"
proof -
  let ?m = "ipc_new 3 router_new 1"
  have m: "free_ids (length (net_queue net_start)) ?m" "held ?m = {}" "held ?m \<subseteq> net_open net_start"
    by (simp_all add: free_ids_def ipc_new_def held_def net_start_def)
  from accept_loop_accounts [OF net_accept_laws _ wf_ipc_new m(3,1), of no_json] net_never_interrupted
  obtain acts m' w' where "handle_ready net_kernel no_json ?m net_start = Some (acts, m', w')"
    "wf_ipc m'" "net_open w' - held m' = net_open net_start - held ?m"
    "length acts \<le> length (net_queue net_start)"
    by blast
  then show ?thesis by (simp add: m(2) net_start_def)
qed

text \<open>A server with one client, whose request for job 5 is waiting on descriptor 9.\<close>

definition one_waiting :: ipc_module where
  "one_waiting = (ipc_new 3 router_new 1)\<lparr>ipc_next_client := 2, ipc_clients := [1 \<mapsto> 9],
     ipc_job_client := [5 \<mapsto> 1]\<rparr>"

lemma one_waiting_wf: "wf_ipc one_waiting"
  by (simp add: one_waiting_def wf_ipc_def ipc_new_def held_def)

lemma reply_once_witness:
  "\<exists>m' w1. intercept_action net_kernel no_json (Started 5) one_waiting net_start
     = Some (m', k_close net_kernel 9 w1) \<and> held m' = {}"
proof -
  have m: "ipc_job_client one_waiting 5 = Some 1" "ipc_clients one_waiting 1 = Some 9"
    "held one_waiting = {9}" "reply_of (Started 5) = Some (5, RespExec 5)"
    by (simp_all add: one_waiting_def held_def reply_of_def)
  from reply_once [OF one_waiting_wf m(4,1) _ net_bounded(2), of no_json net_start] net_never_interrupted
  obtain fd m' w1 where "ipc_clients one_waiting 1 = Some fd"
    "intercept_action net_kernel no_json (Started 5) one_waiting net_start = Some (m', k_close net_kernel fd w1)"
    "held m' = held one_waiting - {fd}"
    by blast
  with m show ?thesis by (intro exI [of _ m'] exI [of _ w1]) simp
qed

lemma query_steals_reply_witness:
  "\<exists>acts' m' w'. serve_request net_kernel no_json 10 (GetResult 1000 5) ([], one_waiting, net_start)
     = Some (True, acts', m', w') \<and> ipc_job_client m' 5 = Some 2 \<and> ipc_clients one_waiting 1 \<noteq> None"
proof -
  obtain acts' m' w' where h: "serve_request net_kernel no_json 10 (GetResult 1000 5)
      ([], one_waiting, net_start) = Some (True, acts', m', w')"
    using serve_request_kept [of one_waiting "GetResult 1000 5" net_kernel no_json 10 "[]" net_start] by blast
  have m: "ipc_job_client one_waiting 5 = Some 1" "ipc_next_client one_waiting \<notin> dom (ipc_clients one_waiting)"
    "ipc_next_client one_waiting = 2" "ipc_clients one_waiting 1 \<noteq> None"
    by (simp_all add: one_waiting_def)
  from query_steals_reply [OF one_waiting_wf m(1,2) _ h] h m(3,4) show ?thesis by auto
qed

end
