(* ===== verification/Daemon.thy ===== *)
theory Daemon
  imports Runtime Ipc
begin

text \<open>
  \<open>run_daemon\<close> of \<open>src/lib.rs\<close>: the program put together. One iteration waits for the reactor,
  lets the IPC server and the core turn events into actions, and works the queue of actions
  off; each action is dispatched, its replies are sent and its effects are carried out.
\<close>

section \<open>State\<close>

record daemon =
  dm_core :: dispatcher
  dm_state :: execution_state
  dm_exec :: executor
  dm_ipc :: ipc_module

definition ipc_token :: u64 where "ipc_token = 1"

text \<open>Everything before the loop; on an error the descriptors opened so far are closed.\<close>

definition daemon_start :: "'w kernel \<Rightarrow> 'w \<Rightarrow> (sys_error + daemon) \<times> 'w" where
  "daemon_start K w =
     (case reactor_new K w of
        (Inl e, w) \<Rightarrow> (Inl e, w)
      | (Inr r, w) \<Rightarrow>
          (let (sock, w) = k_socket K w in
           case fd_new K sock ''ipc'' w of
             Inl e \<Rightarrow> (Inl e, reactor_drop K r w)
           | Inr fd \<Rightarrow>
               (case add_with_token K r fd ipc_token True False w of
                  (Inl e, w) \<Rightarrow> (Inl e, reactor_drop K r (fd_drop K fd w))
                | (Inr _, w) \<Rightarrow>
                    (Inr \<lparr>dm_core = dispatcher_new, dm_state = execution_state_new,
                       dm_exec = executor_new r, dm_ipc = ipc_new fd router_new ipc_token\<rparr>, w))))"

section \<open>Dispatching\<close>

text \<open>One call of the dispatcher, with what the standard library supplies to it.\<close>

definition core_act :: "'w kernel \<Rightarrow> action \<Rightarrow> daemon \<Rightarrow> 'w \<Rightarrow> action list \<times> daemon \<times> 'w" where
  "core_act K a D w =
     (let (e, w) = k_std K w; (as, d, s) = dispatch e (dm_core D) (dm_state D) a
      in (as, D\<lparr>dm_core := d, dm_state := s\<rparr>, w))"

definition core_react :: "'w kernel \<Rightarrow> event \<Rightarrow> daemon \<Rightarrow> 'w \<Rightarrow> action list \<times> daemon \<times> 'w" where
  "core_react K ev D w =
     (let (e, w) = k_std K w; (as, d, s) = dispatch_event e (dm_core D) (dm_state D) ev
      in (as, D\<lparr>dm_core := d, dm_state := s\<rparr>, w))"

text \<open>The effects of an action, in order; what the core answers to their events is queued.\<close>

fun apply_effects :: "'w kernel \<Rightarrow> effect list \<Rightarrow> action list \<Rightarrow> daemon \<Rightarrow> 'w \<Rightarrow>
    (action list \<times> daemon \<times> 'w) option" where
  "apply_effects K [] q D w = Some (q, D, w)"
| "apply_effects K (f # fs) q D w = do {
     (ev, E, w) \<leftarrow> apply_effect K (dm_exec D) f w;
     let D = D\<lparr>dm_exec := E\<rparr>;
     case ev of
       None \<Rightarrow> apply_effects K fs q D w
     | Some event \<Rightarrow>
         (let (as, D, w) = core_react K event D w in apply_effects K fs (q @ as) D w)
   }"

text \<open>One round of the queue.\<close>

definition queue_body :: "'w kernel \<Rightarrow> serde \<Rightarrow> action list \<times> daemon \<times> 'w \<Rightarrow>
    ((daemon \<times> 'w) + action list \<times> daemon \<times> 'w) option" where
  "queue_body K S = (\<lambda>(q, D, w).
     case q of
       [] \<Rightarrow> Some (Inl (D, w))
     | a # q \<Rightarrow>
         (let (new, D, w) = core_act K a D w;
              (ipc_acts, effects) = resolve_effects (dm_state D) [a]
          in do {
            (m, w) \<leftarrow> intercept_all K S ipc_acts (dm_ipc D) w;
            (q, D, w) \<leftarrow> apply_effects K effects q (D\<lparr>dm_ipc := m\<rparr>) w;
            Some (Inr (q @ new, D, w))
          }))"

definition work_queue :: "'w kernel \<Rightarrow> serde \<Rightarrow> action list \<Rightarrow> daemon \<Rightarrow> 'w \<Rightarrow> (daemon \<times> 'w) option" where
  "work_queue K S q D w = run_loop (queue_body K S) (q, D, w)"

section \<open>The iteration\<close>

fun ipc_events :: "'w kernel \<Rightarrow> serde \<Rightarrow> reactor_event list \<Rightarrow> ipc_module \<Rightarrow> 'w \<Rightarrow>
    (action list \<times> ipc_module \<times> 'w) option" where
  "ipc_events K S [] m w = Some ([], m, w)"
| "ipc_events K S (ev # evs) m w = do {
     (as, m, w) \<leftarrow> ipc_handle_event K S m ev w;
     (bs, m, w) \<leftarrow> ipc_events K S evs m w;
     Some (as @ bs, m, w)
   }"

fun core_events :: "'w kernel \<Rightarrow> event list \<Rightarrow> daemon \<Rightarrow> 'w \<Rightarrow> action list \<times> daemon \<times> 'w" where
  "core_events K [] D w = ([], D, w)"
| "core_events K (ev # evs) D w =
     (let (as, D, w) = core_react K ev D w; (bs, D, w) = core_events K evs D w
      in (as @ bs, D, w))"

definition daemon_iteration :: "'w kernel \<Rightarrow> serde \<Rightarrow> daemon \<Rightarrow> 'w \<Rightarrow> (daemon \<times> 'w) option" where
  "daemon_iteration K S D w =
     (let (e, w) = k_std K w; timeout = dispatcher_timeout_ms e (dm_core D) in
      case process_reactor_events K (dm_exec D) timeout w of
        (Inl _, w) \<Rightarrow> Some (D, w)
      | (Inr (reactor_events, sys_events), w) \<Rightarrow> do {
          (as, m, w) \<leftarrow> ipc_events K S reactor_events (dm_ipc D) w;
          let (bs, D, w) = core_events K sys_events (D\<lparr>dm_ipc := m\<rparr>) w;
          work_queue K S (as @ bs) D w
        })"

definition daemon_body :: "'w kernel \<Rightarrow> serde \<Rightarrow> daemon \<times> 'w \<Rightarrow>
    (((sys_error + unit) \<times> 'w) + daemon \<times> 'w) option" where
  "daemon_body K S = (\<lambda>(D, w). map_option Inr (daemon_iteration K S D w))"

definition run_daemon :: "'w kernel \<Rightarrow> serde \<Rightarrow> 'w \<Rightarrow> ((sys_error + unit) \<times> 'w) option" where
  "run_daemon K S w =
     (case daemon_start K w of
        (Inl e, w) \<Rightarrow> Some (Inl e, w)
      | (Inr D, w) \<Rightarrow> run_loop (daemon_body K S) (D, w))"

text \<open>The states after a number of iterations.\<close>

fun iterations :: "'w kernel \<Rightarrow> serde \<Rightarrow> nat \<Rightarrow> daemon \<Rightarrow> 'w \<Rightarrow> (daemon \<times> 'w) option" where
  "iterations K S 0 D w = Some (D, w)"
| "iterations K S (Suc n) D w = do {
     (D, w) \<leftarrow> daemon_iteration K S D w;
     iterations K S n D w
   }"

section \<open>Laws\<close>

text \<open>
  What is assumed of the standard library and the kernel: hash maps iterate over their keys and
  the clock does not run backwards; no call is interrupted for ever, no descriptor is readable
  for ever, a write is not longer than asked for, and \<open>fork\<close> returns in the parent.
\<close>

definition std_laws :: "'w kernel \<Rightarrow> bool" where
  "std_laws K \<longleftrightarrow> (\<forall>w. env_ok (fst (k_std K w)))"

definition calls_return :: "'w kernel \<Rightarrow> bool" where
  "calls_return K \<longleftrightarrow> (\<forall>fd. reads_end K fd) \<and> (\<forall>fd. writes_return K fd) \<and> write_bounded K
     \<and> (\<forall>pid. waits_end K pid) \<and> (\<forall>w. fst (k_fork K w) \<noteq> 0)"

lemma io_step_returns: "f d w \<noteq> None \<Longrightarrow> \<exists>d' w'. io_step K present f d w = Some (d', w')"
  by (auto simp: io_step_def)

lemma read_fd_returns:
  assumes "calls_return K"
  shows "read_fd K out d w \<noteq> None"
proof -
  have "read_from_fd K fd out early b w \<noteq> None" for fd early b
    using read_loop_returns [of K fd "buf_limit b" "if out then early else None"
        "if out then buf_stdout b else buf_stderr b" w] assms
    by (auto simp: read_from_fd_def calls_return_def)
  then show ?thesis
    by (cases out) (simp_all add: read_fd_def Let_def split_beta bind_eq_None_conv del: not_None_eq split: option.splits)
qed

lemma write_stdin_returns:
  assumes "calls_return K"
  shows "write_stdin K d w \<noteq> None"
proof -
  have "write_to_fd K fd s w \<noteq> None" for fd s
    using write_loop_returns [of K fd "the (wr_buf s)" "wr_off s" w] assms
    by (cases "wr_buf s") (auto simp: write_to_fd_def calls_return_def)
  then show ?thesis
    by (simp add: write_stdin_def Let_def split_beta bind_eq_None_conv del: not_None_eq split: option.splits)
qed

lemma perform_io_returns:
  assumes "calls_return K"
  shows "\<exists>E' w'. perform_io K E io w = Some (E', w')"
proof (cases "ex_drains E io")
  case (Some d)
  note rd = io_step_returns [where f = "read_fd K out" for out, OF read_fd_returns [OF assms]]
  note wr = io_step_returns [where f = "write_stdin K", OF write_stdin_returns [OF assms]]
  obtain d1 w1 where 1: "io_step K (stdout_slot d \<noteq> None) (read_fd K True) d w = Some (d1, w1)"
    using rd by blast
  obtain d2 w2 where 2: "io_step K (stderr_slot d1 \<noteq> None) (read_fd K False) d1 w1 = Some (d2, w2)"
    using rd by blast
  obtain d3 w3 where "io_step K (stdin_slot d2 \<noteq> None) (write_stdin K) d2 w2 = Some (d3, w3)"
    using wr by blast
  with Some 1 2 show ?thesis by (simp add: perform_io_def)
qed (simp add: perform_io_def)

lemma apply_effect_returns:
  assumes "calls_return K"
  shows "\<exists>x. apply_effect K E f w = Some x"
proof (cases f)
  case (Eff_StartProcess i exec policy)
  have "start_process K E i exec policy w \<noteq> None"
    using spawn_start_returns [of K i "spawn_request exec policy" w] assms
    by (simp add: calls_return_def start_process_def split_beta bind_eq_None_conv del: not_None_eq)
  with Eff_StartProcess show ?thesis by auto
next
  case (Eff_PollProcess i p)
  have "waits_end K pid" for pid using assms by (simp add: calls_return_def)
  with wait_step_returns [of K _ w] have "wait_step K proc w \<noteq> None" for proc by blast
  then have "poll_process K E i p w \<noteq> None"
    by (simp add: poll_process_def split_beta bind_eq_None_conv del: not_None_eq split: option.splits)
  with Eff_PollProcess show ?thesis by auto
next
  case (Eff_PerformIo i io)
  with perform_io_returns [OF assms, of E io w] show ?thesis by auto
qed auto

section \<open>Rounds of the queue\<close>

lemma core_act_eq:
  "core_act K a D w = (new, D', w') \<longleftrightarrow> (\<exists>e d s. k_std K w = (e, w') \<and>
     dispatch e (dm_core D) (dm_state D) a = (new, d, s) \<and> D' = D\<lparr>dm_core := d, dm_state := s\<rparr>)"
  by (auto simp: core_act_def split: prod.splits)

lemma core_react_eq:
  "core_react K ev D w = (new, D', w') \<longleftrightarrow> (\<exists>e d s. k_std K w = (e, w') \<and>
     dispatch_event e (dm_core D) (dm_state D) ev = (new, d, s) \<and> D' = D\<lparr>dm_core := d, dm_state := s\<rparr>)"
  by (auto simp: core_react_def split: prod.splits)

text \<open>
  What one round does with an action: the core answers it with \<open>new\<close>; the IPC layer sees it, or
  it has no effect, or its one effect is carried out and may make the core answer an event.
\<close>

lemma queue_body_cases:
  assumes "queue_body K S (q, D, w) = Some x"
  obtains (finished) "q = []" "x = Inl (D, w)"
  | (handled) a q0 e d s new m w1 w2 where "q = a # q0" "k_std K w = (e, w1)"
      "dispatch e (dm_core D) (dm_state D) a = (new, d, s)" "snd (resolve_action s a) = []"
      "intercept_all K S (fst (resolve_action s a)) (dm_ipc D) w1 = Some (m, w2)"
      "x = Inr (q0 @ new, D\<lparr>dm_core := d, dm_state := s, dm_ipc := m\<rparr>, w2)"
  | (quiet) a q0 e d s new f E w1 w2 where "q = a # q0" "k_std K w = (e, w1)"
      "dispatch e (dm_core D) (dm_state D) a = (new, d, s)" "resolve_action s a = ([], [f])"
      "apply_effect K (dm_exec D) f w1 = Some (None, E, w2)"
      "x = Inr (q0 @ new, D\<lparr>dm_core := d, dm_state := s, dm_exec := E\<rparr>, w2)"
  | (answered) a q0 e d s new f E w1 w2 w3 ev e' d' s' as where "q = a # q0" "k_std K w = (e, w1)"
      "dispatch e (dm_core D) (dm_state D) a = (new, d, s)" "resolve_action s a = ([], [f])"
      "apply_effect K (dm_exec D) f w1 = Some (Some ev, E, w2)" "k_std K w2 = (e', w3)"
      "dispatch_event e' d s ev = (as, d', s')"
      "x = Inr (q0 @ as @ new, D\<lparr>dm_core := d', dm_state := s', dm_exec := E\<rparr>, w3)"
proof (cases q)
  case Nil
  with assms finished show thesis by (simp add: queue_body_def)
next
  case (Cons a q0)
  obtain e w1 where e: "k_std K w = (e, w1)" by fastforce
  obtain new d s where d: "dispatch e (dm_core D) (dm_state D) a = (new, d, s)" by (rule prod_cases3)
  let ?D = "D\<lparr>dm_core := d, dm_state := s\<rparr>"
  have act: "core_act K a D w = (new, ?D, w1)" using e d by (simp add: core_act_def)
  consider "snd (resolve_action s a) = []"
    | f where "resolve_action s a = ([], [f])"
    using resolve_action_ipc [of s a] resolve_action_eff_length [of s a]
    by (cases "resolve_action s a"; cases "snd (resolve_action s a)") (auto split: if_splits)
  then show thesis
  proof cases
    case 1
    with assms Cons act handled [OF Cons e d 1] show thesis
      by (auto simp: queue_body_def resolve_effects_single bind_eq_Some_conv split_beta)
  next
    case (2 f)
    with assms Cons act obtain ev E w2 where f: "apply_effect K (dm_exec D) f w1 = Some (ev, E, w2)"
      by (auto simp: queue_body_def resolve_effects_single bind_eq_Some_conv)
    show thesis
    proof (cases ev)
      case None
      with assms Cons act 2 f quiet [OF Cons e d 2] show thesis
        by (simp add: queue_body_def resolve_effects_single)
    next
      case (Some event)
      obtain e' w3 where e': "k_std K w2 = (e', w3)" by fastforce
      obtain as d' s' where r: "dispatch_event e' d s event = (as, d', s')" by (rule prod_cases3)
      with assms Cons act 2 f Some e' have
        "x = Inr (q0 @ as @ new, D\<lparr>dm_core := d', dm_state := s', dm_exec := E\<rparr>, w3)"
        by (cases D) (auto simp: queue_body_def resolve_effects_single core_react_def)
      with answered [OF Cons e d 2 _ e' r] f Some show thesis by simp
    qed
  qed
qed

section \<open>What the core does to handles and work\<close>

text \<open>A job's handles after a step of the core: none, or the ones it had.\<close>

definition handles_from :: "execution_state \<Rightarrow> execution_state \<Rightarrow> bool" where
  "handles_from s s' \<longleftrightarrow> (\<forall>i j'. jobs s' i = Some j' \<longrightarrow>
     (job_process j' = None \<and> job_io j' = None) \<or>
     (\<exists>j. jobs s i = Some j \<and> job_process j' = job_process j \<and> job_io j' = job_io j))"

lemma dispatch_handles: "dispatch e d s a = (as, d', s') \<Longrightarrow> handles_from s s'"
  by (cases a) (auto simp: handles_from_def handler_defs io_handle_action_def new_job_def
      evict_results_def split: option.splits if_splits)

lemma dispatch_event_handles:
  assumes "dispatch_event e d s ev = (as, d', s')"
  shows "handles_from s s' \<or> (\<exists>i p h j. ev = Ev_ProcessStarted i p h \<and> jobs s i = Some j
    \<and> jobs s' = (jobs s)(i \<mapsto> j\<lparr>job_process := Some p, job_io := Some h\<rparr>))"
  using assms by (cases ev) (auto simp: handles_from_def handler_defs split: option.splits if_splits)

text \<open>The core answers with nothing to an action whose effect may give rise to an event.\<close>

lemma answering_silent:
  assumes "dispatch e d s a = (new, d', s')" and "resolve_action s'' a = ([], [f])"
    and "(\<exists>i x p. f = Eff_StartProcess i x p) \<or> (\<exists>i p. f = Eff_PollProcess i p)"
  shows "new = [] \<and> 20 < action_weight a"
  using assms by (cases a) (auto simp: handler_defs io_handle_action_def with_io_def with_process_def
      split: option.splits)

lemma event_weight_le: "event_weight ev \<le> 9"
  by (cases ev) simp_all

lemma action_weight_le: "action_weight a \<le> 193"
  by (cases a) simp_all

lemma queue_weight_le: "queue_weight as \<le> 193 * length as"
proof (induction as)
  case (Cons a as)
  with action_weight_le [of a] show ?case by simp
qed simp

section \<open>The daemon's invariant\<close>

text \<open>
  The handles of a job are registered with the executor, and no two jobs share one.
\<close>

definition handles_ok :: "execution_state \<Rightarrow> executor \<Rightarrow> bool" where
  [wf_defs]: "handles_ok s E \<longleftrightarrow>
     (\<forall>i j. jobs s i = Some j \<longrightarrow> set_option (job_process j) \<subseteq> dom (ex_processes E)
        \<and> set_option (job_io j) \<subseteq> dom (ex_drains E))
     \<and> (\<forall>i j k l. jobs s i = Some j \<longrightarrow> jobs s k = Some l \<longrightarrow> i \<noteq> k \<longrightarrow>
          set_option (job_process j) \<inter> set_option (job_process l) = {}
          \<and> set_option (job_io j) \<inter> set_option (job_io l) = {})"

definition daemon_ok :: "daemon \<Rightarrow> bool" where
  [wf_defs]: "daemon_ok D \<longleftrightarrow> wf_dispatcher (dm_core D) \<and> wf_state (dm_state D) \<and> wf_ipc (dm_ipc D)
     \<and> handles_below (dm_exec D) \<and> handles_ok (dm_state D) (dm_exec D)"

lemma handles_ok_from:
  assumes "handles_ok s E" and "handles_from s s'"
    and "dom (ex_processes E) \<subseteq> dom (ex_processes E')" "dom (ex_drains E) \<subseteq> dom (ex_drains E')"
  shows "handles_ok s' E'"
proof -
  have old: "\<exists>j. set_option (job_process j') \<subseteq> set_option (job_process j) \<and> set_option (job_io j') \<subseteq> set_option (job_io j)
      \<and> (jobs s i = Some j \<or> j = new_job i 0)" if "jobs s' i = Some j'" for i j'
    using assms(2) that unfolding handles_from_def by (metis bot.extremum option.set(1) order_refl)
  show ?thesis
    unfolding handles_ok_def
  proof (intro conjI allI impI)
    fix i j' assume "jobs s' i = Some j'"
    from old [OF this] obtain j where j: "set_option (job_process j') \<subseteq> set_option (job_process j)"
      "set_option (job_io j') \<subseteq> set_option (job_io j)" "jobs s i = Some j \<or> j = new_job i 0"
      by blast
    have "set_option (job_process j) \<subseteq> dom (ex_processes E) \<and> set_option (job_io j) \<subseteq> dom (ex_drains E)"
      using j(3)
    proof
      assume "jobs s i = Some j"
      with assms(1) show ?thesis unfolding handles_ok_def by blast
    qed (simp add: new_job_def)
    with j(1,2) assms(3,4) show "set_option (job_process j') \<subseteq> dom (ex_processes E')"
      "set_option (job_io j') \<subseteq> dom (ex_drains E')"
      by blast+
  next
    fix i j' k l' assume "jobs s' i = Some j'" "jobs s' k = Some l'" and ne: "i \<noteq> k"
    from old [OF this(1)] old [OF this(2)] obtain j l where
      j: "set_option (job_process j') \<subseteq> set_option (job_process j)"
      "set_option (job_io j') \<subseteq> set_option (job_io j)" "jobs s i = Some j \<or> j = new_job i 0" and
      l: "set_option (job_process l') \<subseteq> set_option (job_process l)"
      "set_option (job_io l') \<subseteq> set_option (job_io l)" "jobs s k = Some l \<or> l = new_job k 0"
      by blast
    have "set_option (job_process j) \<inter> set_option (job_process l) = {}
        \<and> set_option (job_io j) \<inter> set_option (job_io l) = {}"
    proof (cases "jobs s i = Some j \<and> jobs s k = Some l")
      case True
      with assms(1) ne show ?thesis unfolding handles_ok_def by blast
    next
      case False
      with j(3) l(3) show ?thesis by (auto simp: new_job_def)
    qed
    with j(1,2) l(1,2) show "set_option (job_process j') \<inter> set_option (job_process l') = {}"
      "set_option (job_io j') \<inter> set_option (job_io l') = {}"
      by blast+
  qed
qed

lemma handles_from_refl [simp]: "handles_from s s"
  by (simp add: handles_from_def)

lemma handles_ok_started:
  assumes "handles_ok s E" and "answered E f (Some (Ev_ProcessStarted i p h)) E'"
    and "jobs s i = Some j" and "jobs s' = (jobs s)(i \<mapsto> j\<lparr>job_process := Some p, job_io := Some h\<rparr>)"
  shows "handles_ok s' E'"
proof -
  have fresh: "p \<in> dom (ex_processes E')" "p \<notin> dom (ex_processes E)" "h \<in> dom (ex_drains E')"
    "h \<notin> dom (ex_drains E)" "dom (ex_processes E) \<subseteq> dom (ex_processes E')"
    "dom (ex_drains E) \<subseteq> dom (ex_drains E')"
    using assms(2) by (auto simp: answered_def)
  have reg: "p \<notin> set_option (job_process l) \<and> h \<notin> set_option (job_io l)
      \<and> set_option (job_process l) \<subseteq> dom (ex_processes E')
      \<and> set_option (job_io l) \<subseteq> dom (ex_drains E')" if "jobs s k = Some l" for k l
    using assms(1) that fresh unfolding handles_ok_def by blast
  have priv: "set_option (job_process l) \<inter> set_option (job_process l') = {}
      \<and> set_option (job_io l) \<inter> set_option (job_io l') = {}"
    if "jobs s k = Some l" "jobs s k' = Some l'" "k \<noteq> k'" for k l k' l'
    using assms(1) that unfolding handles_ok_def by blast
  show ?thesis
    unfolding handles_ok_def
  proof (intro conjI allI impI)
    fix k l assume "jobs s' k = Some l"
    then show "set_option (job_process l) \<subseteq> dom (ex_processes E')"
      "set_option (job_io l) \<subseteq> dom (ex_drains E')"
      using fresh(1,3) reg by (auto simp: assms(4) split: if_splits)
  next
    fix k l k' l' assume a: "jobs s' k = Some l" "jobs s' k' = Some l'" "k \<noteq> k'"
    let ?j = "j\<lparr>job_process := Some p, job_io := Some h\<rparr>"
    let ?apart = "\<lambda>l l'. set_option (job_process l) \<inter> set_option (job_process l') = {}
        \<and> set_option (job_io l) \<inter> set_option (job_io l') = {}"
    have new: "?apart ?j l'" if "jobs s k = Some l'" for k l' using reg [OF that] by simp
    have "?apart l l'"
    proof (cases "k = i \<or> k' = i")
      case True
      then show ?thesis
      proof
        assume "k = i"
        with a have "l = ?j" "jobs s k' = Some l'" by (simp_all add: assms(4))
        with new show ?thesis by simp
      next
        assume "k' = i"
        with a have "l' = ?j" "jobs s k = Some l" by (simp_all add: assms(4))
        with new [of k l] show ?thesis by (simp add: Int_commute)
      qed
    next
      case False
      with a have "jobs s k = Some l" "jobs s k' = Some l'" by (simp_all add: assms(4))
      from priv [OF this a(3)] show ?thesis .
    qed
    then show "set_option (job_process l) \<inter> set_option (job_process l') = {}"
      "set_option (job_io l) \<inter> set_option (job_io l') = {}" by blast+
  qed
qed

text \<open>Answering a client keeps jobs, clients and descriptors matched.\<close>

lemma intercept_action_cases:
  assumes "wf_ipc m" and "calls_return K"
  obtains (silent) "intercept_action K S a m w = Some (m, w)"
  | (replied) i cid fd bs w1 where "ipc_job_client m i = Some cid" "ipc_clients m cid = Some fd" "0 \<le> fd"
      "intercept_action K S a m w = Some (m\<lparr>ipc_job_client := (ipc_job_client m)(i := None),
         ipc_clients := (ipc_clients m)(cid := None)\<rparr>, k_close K fd w1)"
      "accepts K fd w bs w1"
proof (cases "\<exists>i resp cid. reply_of a = Some (i, resp) \<and> ipc_job_client m i = Some cid")
  case True
  then obtain i resp cid where r: "reply_of a = Some (i, resp)" and cid: "ipc_job_client m i = Some cid"
    by blast
  have "cid \<in> dom (ipc_clients m)" using assms(1) cid by (auto simp: wf_ipc_def ran_def)
  then obtain fd where fd: "ipc_clients m cid = Some fd" by blast
  then have pos: "0 \<le> fd" using assms(1) ranI [of "ipc_clients m" cid fd] by (simp add: wf_ipc_def held_def)
  have "writes_return K fd" using assms(2) by (simp add: calls_return_def)
  then obtain x w1 where x: "encode_response K S fd resp w = Some (x, w1)"
    using encode_response_returns [of K fd S resp w] assms(2) by (auto simp: calls_return_def)
  have "write_bounded K" using assms(2) by (simp add: calls_return_def)
  then obtain bs where "accepts K fd w bs w1" using transmitted_accepts [OF encode_response_transmits [OF _ x]] by blast
  then show thesis by (rule replied [OF cid fd pos intercept_reply [OF r cid fd pos x]])
next
  case False
  then show thesis
    using silent intercept_silent(1) [of a K S m w] intercept_silent(2) [of a _ _ m K S w]
    by (cases "reply_of a") (fastforce simp: not_Some_eq)+
qed

lemma intercept_all_steps:
  assumes "wf_ipc m" and "calls_return K"
  shows "\<exists>m' w'. intercept_all K S as m w = Some (m', w') \<and> wf_ipc m'"
  using assms(1)
proof (induction as arbitrary: m w)
  case (Cons a as)
  from Cons.prems assms(2) have "\<exists>m' w'. intercept_action K S a m w = Some (m', w') \<and> wf_ipc m'"
  proof (cases rule: intercept_action_cases [where S = S and a = a and w = w])
    case (replied i cid fd bs w1)
    with wf_ipc_forget(1) [OF Cons.prems replied(1,2) refl] show ?thesis by blast
  qed (use Cons.prems in blast)
  then obtain m1 w1 where "intercept_action K S a m w = Some (m1, w1)" "wf_ipc m1" by blast
  with Cons.IH [of m1 w1] show ?case by simp
qed simp

section \<open>The queue is worked off\<close>

lemma handles_left_mono:
  "handles_left n E \<Longrightarrow> unat (ex_next_handle E') \<le> unat (ex_next_handle E) + k \<Longrightarrow> m + k \<le> n \<Longrightarrow>
     handles_left m E'"
  by (simp add: handles_left_def)

text \<open>
  One round: it takes place, keeps the invariant, and leaves strictly less work in the queue and
  enough handles for it (two handles per unit of work suffice).
\<close>

abbreviation next_handle :: "daemon \<Rightarrow> nat" where
  "next_handle D \<equiv> unat (ex_next_handle (dm_exec D))"

definition working :: "action list \<times> daemon \<times> 'w \<Rightarrow> bool" where
  "working st \<longleftrightarrow> (case st of (q, D, w) \<Rightarrow> daemon_ok D \<and> handles_left (2 * queue_weight q) (dm_exec D))"

lemma queue_body_returns:
  assumes "calls_return K" and "wf_ipc (dm_ipc D)"
  shows "queue_body K S (q, D, w) \<noteq> None"
proof (cases q)
  case (Cons a q0)
  obtain e w1 where e: "k_std K w = (e, w1)" by fastforce
  obtain new d s where d: "dispatch e (dm_core D) (dm_state D) a = (new, d, s)" by (rule prod_cases3)
  have i: "intercept_all K S as (dm_ipc D) w1 \<noteq> None" for as
    using intercept_all_steps [OF assms(2,1), of S as w1] by auto
  have f: "apply_effects K fs q0 D w \<noteq> None" for fs q0 D w
  proof (induction fs arbitrary: q0 D w)
    case (Cons f fs)
    obtain ev E w1 where "apply_effect K (dm_exec D) f w = Some (ev, E, w1)"
      using apply_effect_returns [OF assms(1), of "dm_exec D" f w] by (metis prod_cases3)
    with Cons show ?case by (cases ev) (simp_all add: split_beta Let_def del: not_None_eq)
  qed simp
  show ?thesis
    using i f by (simp add: queue_body_def Cons core_act_def e d split_beta bind_eq_None_conv
        del: not_None_eq)
qed (simp add: queue_body_def)

lemma queue_round:
  assumes K: "std_laws K" "calls_return K" and W: "working (q, D, w)"
    and run: "queue_body K S (q, D, w) = Some (Inr (q', D', w'))"
  shows "working (q', D', w')" and "queue_weight q' < queue_weight q"
    and "next_handle D' + 2 * queue_weight q' \<le> next_handle D + 2 * queue_weight q"
proof -
  have ok: "wf_dispatcher (dm_core D)" "wf_state (dm_state D)" "wf_ipc (dm_ipc D)"
    "handles_below (dm_exec D)" "handles_ok (dm_state D) (dm_exec D)"
    and left: "handles_left (2 * queue_weight q) (dm_exec D)"
    using W by (simp_all add: working_def daemon_ok_def)
  have env: "env_ok e" if "k_std K v = (e, v')" for v e v' using K(1) that by (metis fst_conv std_laws_def)
  have "working (q', D', w') \<and> queue_weight q' < queue_weight q
      \<and> next_handle D' + 2 * queue_weight q' \<le> next_handle D + 2 * queue_weight q"
    using run
  proof (cases rule: queue_body_cases)
    case (handled a q0 e d s new m w1 w2)
    have less: "queue_weight q' < queue_weight q"
      using core.act_less [OF handled(3)] handled(1,6) by simp
    have "wf_ipc m" using intercept_all_steps [OF ok(3) K(2), of S "fst (resolve_action s a)" w1]
        handled(5) by auto
    moreover have "handles_left (2 * queue_weight q') (dm_exec D)"
      using less by (auto intro: handles_left_mono [OF left, of _ 0])
    ultimately show ?thesis
      using less handled(6) core.act_inv [OF handled(3) env [OF handled(2)] ok(1,2)] ok(4)
        handles_ok_from [OF ok(5) dispatch_handles [OF handled(3)], of "dm_exec D"]
      by (simp add: working_def daemon_ok_def)
  next
    case (quiet a q0 e d s new f E w1 w2)
    have less: "queue_weight q' < queue_weight q"
      using core.act_less [OF quiet(3)] quiet(1,6) by simp
    have "handles_left 2 (dm_exec D)"
      using less by (intro handles_left_mono [OF left, of _ 0]) simp_all
    note ans = apply_effect_answered [OF quiet(5) ok(4) this]
    have "handles_left (2 * queue_weight q') E" using less by (intro handles_left_mono [OF left ans(3)]) simp
    then show ?thesis
      using less quiet(6) ans(3) core.act_inv [OF quiet(3) env [OF quiet(2)] ok(1,2)] ans(1,2) ok(3)
        handles_ok_from [OF ok(5) dispatch_handles [OF quiet(3)], of E]
      by (simp add: working_def daemon_ok_def answered_def)
  next
    case (answered a q0 e d s new f E w1 w2 w3 ev e' d' s' as)
    have "(\<exists>i x p. f = Eff_StartProcess i x p) \<or> (\<exists>i p. f = Eff_PollProcess i p)"
      using apply_effect_frame [OF answered(5)] by blast
    note silent = answering_silent [OF answered(3,4) this]
    have less: "queue_weight q' < queue_weight q"
      using core.react_less [OF answered(7)] event_weight_le [of ev] silent answered(1,8) by simp
    have "handles_left 2 (dm_exec D)"
      using less by (intro handles_left_mono [OF left, of _ 0]) simp_all
    note ans = apply_effect_answered [OF answered(5) ok(4) this]
    have left': "handles_left (2 * queue_weight q') E"
      using less by (intro handles_left_mono [OF left ans(3)]) simp
    note inv1 = core.act_inv [OF answered(3) env [OF answered(2)] ok(1,2)]
    note inv2 = core.react_inv [OF answered(7) env [OF answered(6)] conjunct1 [OF inv1] conjunct2 [OF inv1]]
    have h1: "handles_ok s (dm_exec D)"
      using handles_ok_from [OF ok(5) dispatch_handles [OF answered(3)], of "dm_exec D"] by simp
    have sub: "dom (ex_processes (dm_exec D)) \<subseteq> dom (ex_processes E)"
      "dom (ex_drains (dm_exec D)) \<subseteq> dom (ex_drains E)"
      using ans(1) by (simp_all add: answered_def)
    have "handles_ok s' E"
      using dispatch_event_handles [OF answered(7)]
    proof
      assume "handles_from s s'"
      from handles_ok_from [OF h1 this sub] show ?thesis .
    next
      assume "\<exists>i p h j. ev = Ev_ProcessStarted i p h \<and> jobs s i = Some j
        \<and> jobs s' = (jobs s)(i \<mapsto> j\<lparr>job_process := Some p, job_io := Some h\<rparr>)"
      then show ?thesis using handles_ok_started [OF h1] ans(1) by blast
    qed
    with less left' answered(8) inv2 ans(2,3) ok(3) show ?thesis
      by (simp add: working_def daemon_ok_def)
  qed (use run in simp)
  then show "working (q', D', w')" and "queue_weight q' < queue_weight q"
    and "next_handle D' + 2 * queue_weight q' \<le> next_handle D + 2 * queue_weight q" by simp_all
qed

lemma work_queue_ok:
  assumes "std_laws K" and "calls_return K" and "working (q, D, w)"
  shows "\<exists>D' w'. work_queue K S q D w = Some (D', w') \<and> daemon_ok D'
    \<and> next_handle D' \<le> next_handle D + 2 * queue_weight q"
proof -
  have step: "working st' \<and> queue_weight (fst st') < queue_weight (fst st)"
    if "working st" "queue_body K S st = Some (Inr st')" for st st'
    using queue_round [OF assms(1,2)] that by (metis prod.exhaust_sel)
  have "\<exists>r. run_loop (queue_body K S) (q, D, w) = Some r"
  proof (rule run_loop_measure [where I = working and m = "\<lambda>st. queue_weight (fst st)"])
    fix st :: "action list \<times> daemon \<times> 'a" assume "working st"
    then show "queue_body K S st \<noteq> None"
      using queue_body_returns [OF assms(2)] by (cases st) (auto simp: working_def daemon_ok_def)
  qed (use step assms(3) in auto)
  then obtain D' w' where r: "run_loop (queue_body K S) (q, D, w) = Some (D', w')" by fastforce
  let ?I = "\<lambda>(q', D', w'). working (q', D', w')
      \<and> next_handle D' + 2 * queue_weight q' \<le> next_handle D + 2 * queue_weight q"
  have "(\<lambda>(D', w'). daemon_ok D' \<and> next_handle D' \<le> next_handle D + 2 * queue_weight q) (D', w')"
    using r
  proof (rule run_loop_rule [where I = ?I])
    fix st st' assume "?I st" "queue_body K S st = Some (Inr st')"
    then show "?I st'"
      using queue_round(1,3) [OF assms(1,2)] by (cases st; cases st') fastforce
  next
    fix st x assume I: "?I st" and b: "queue_body K S st = Some (Inl x)"
    obtain q1 D1 w1 where st: "st = (q1, D1, w1)" by (cases st)
    from b [unfolded st] I st
    show "case x of (D', w') \<Rightarrow> daemon_ok D' \<and> next_handle D' \<le> next_handle D + 2 * queue_weight q"
      by (cases rule: queue_body_cases) (auto simp: working_def)
  qed (use assms(3) in simp)
  with r show ?thesis by (auto simp: work_queue_def)
qed

section \<open>Descriptors\<close>

text \<open>The descriptors the daemon answers for: its clients' and its drains'.\<close>

definition answers_for :: "daemon \<Rightarrow> i32 set" where
  "answers_for D = held (dm_ipc D) \<union> owned (dm_exec D)"

definition daemon_laws :: "'w kernel \<Rightarrow> ('w \<Rightarrow> i32 set) \<Rightarrow> bool" where
  "daemon_laws K opn \<longleftrightarrow> exec_laws K opn \<and> std_laws K \<and> calls_return K
     \<and> (\<forall>w. opn (snd (k_std K w)) = opn w)"

text \<open>
  The books: every descriptor the daemon answers for is open, and none is in two places.
\<close>

definition books :: "('w \<Rightarrow> i32 set) \<Rightarrow> daemon \<Rightarrow> 'w \<Rightarrow> bool" where
  "books opn D w \<longleftrightarrow> held (dm_ipc D) \<subseteq> opn w \<and> booked opn (dm_exec D) w
     \<and> held (dm_ipc D) \<inter> owned (dm_exec D) = {}"

lemma books_open: "books opn D w \<Longrightarrow> answers_for D \<subseteq> opn w"
  by (auto simp: books_def booked_def answers_for_def)

text \<open>Whoever accounts for its own descriptors leaves the others' alone.\<close>

lemma Diff_keeps:
  assumes "A' - X' = A - X" and "Y \<subseteq> A" and "X \<inter> Y = {}"
  shows "Y \<subseteq> A'" and "X' \<inter> Y = {}"
  using assms by blast+

lemma books_exec:
  assumes "books opn D w" and "opn w' - owned E = opn w - owned (dm_exec D)" and "booked opn E w'"
    and "dm_exec D' = E" and "dm_ipc D' = dm_ipc D"
  shows "books opn D' w'"
  using Diff_keeps [OF assms(2), of "held (dm_ipc D)"] assms(1,3-5) by (auto simp: books_def)

lemma books_ipc:
  assumes "books opn D w" and "opn w' - held m = opn w - held (dm_ipc D)" and "held m \<subseteq> opn w'"
    and "dm_exec D' = dm_exec D" and "dm_ipc D' = m"
  shows "books opn D' w'"
  using Diff_keeps [OF assms(2), of "owned (dm_exec D)"] assms(1,3-5)
  by (auto simp: books_def booked_def)

lemma intercept_all_fds:
  assumes "daemon_laws K opn" and "wf_ipc m" and "intercept_all K S as m w = Some (m', w')"
  shows "opn w' - held m' = opn w - held m \<and> (held m \<subseteq> opn w \<longrightarrow> held m' \<subseteq> opn w')
    \<and> (free_ids k m \<longrightarrow> free_ids k m')"
  using assms(2,3)
proof (induction as arbitrary: m w)
  case (Cons a as)
  have K: "calls_return K" "transfers_keep K opn" and c: "opn (k_close K fd v) = opn v - {fd}" for fd v
    using assms(1) fd_laws_simps(1) [of K opn] by (auto simp: daemon_laws_def exec_laws_def closes_fds_def)
  from Cons.prems(1) K(1) obtain m1 w1 where 1: "intercept_action K S a m w = Some (m1, w1)"
    "wf_ipc m1" "opn w1 - held m1 = opn w - held m" "held m \<subseteq> opn w \<longrightarrow> held m1 \<subseteq> opn w1"
    "free_ids k m \<longrightarrow> free_ids k m1"
  proof (cases rule: intercept_action_cases [where S = S and a = a and w = w])
    case silent
    with Cons.prems(1) that show thesis by simp
  next
    case (replied i cid fd bs v)
    let ?m = "m\<lparr>ipc_job_client := (ipc_job_client m)(i := None), ipc_clients := (ipc_clients m)(cid := None)\<rparr>"
    note fg = wf_ipc_forget [OF Cons.prems(1) replied(1,2) refl]
    have "fd \<in> held m" using replied(2) ranI [of "ipc_clients m" cid fd] by (simp add: held_def)
    moreover have "opn (k_close K fd v) = opn w - {fd}" using accepts_keep [OF replied(5) K(2)] by (simp add: c)
    ultimately have "opn (k_close K fd v) - held ?m = opn w - held m"
      "held m \<subseteq> opn w \<longrightarrow> held ?m \<subseteq> opn (k_close K fd v)"
      using fg(2) by auto
    moreover have "free_ids k m \<longrightarrow> free_ids k ?m" using free_ids_forget by blast
    ultimately show thesis using that [OF replied(4) fg(1)] by blast
  qed
  with Cons.prems(2) Cons.IH [OF 1(2), of w1] show ?case by simp
qed simp

lemma Diff_step: "A' - X' = A - X \<Longrightarrow> A' - (X' \<union> Y) = A - (X \<union> Y)"
  by blast

lemma queue_round_fds:
  assumes K: "daemon_laws K opn" and W: "working (q, D, w)"
    and run: "queue_body K S (q, D, w) = Some (Inr (q', D', w'))"
  shows "opn w' - answers_for D' = opn w - answers_for D \<and> (books opn D w \<longrightarrow> books opn D' w')
    \<and> (free_ids k (dm_ipc D) \<longrightarrow> free_ids k (dm_ipc D'))"
proof -
  have K': "exec_laws K opn" using K by (simp add: daemon_laws_def)
  have std: "opn v' = opn v" if "k_std K v = (e, v')" for v e v'
    using K that unfolding daemon_laws_def by (metis snd_conv)
  have wf: "wf_ipc (dm_ipc D)" "handles_below (dm_exec D)"
    using W by (auto simp: working_def daemon_ok_def)
  have left: "handles_left 2 (dm_exec D)" if "q \<noteq> []"
  proof -
    have "1 \<le> queue_weight q" using that length_le_queue_weight [of q] by (cases q) auto
    with W show ?thesis by (auto simp: working_def handles_left_def)
  qed
  have exec: "opn w' - answers_for D' = opn w - answers_for D \<and> (books opn D w \<longrightarrow> books opn D' w')"
    if f: "apply_effect K (dm_exec D) f v = Some (ev, E, v')" "q \<noteq> []"
      and w: "opn v = opn w" "opn v' = opn w'" and D': "dm_exec D' = E" "dm_ipc D' = dm_ipc D"
    for f v ev E v'
  proof
    note fds = apply_effect_fds [OF K' f(1) wf(2) left [OF f(2)]]
    show "opn w' - answers_for D' = opn w - answers_for D"
      using Diff_step [OF fds, of "held (dm_ipc D)"] w D' by (simp add: answers_for_def Un_ac)
    show "books opn D w \<longrightarrow> books opn D' w'"
    proof
      assume b: "books opn D w"
      then have "booked opn (dm_exec D) v" using w(1) by (simp add: books_def booked_def)
      from apply_effect_booked [OF K' f(1) wf(2) left [OF f(2)] this] w(2)
      have "booked opn E w'" by (simp add: booked_def)
      from books_exec [OF b _ this D'] fds w show "books opn D' w'" by simp
    qed
  qed
  from run show ?thesis
  proof (cases rule: queue_body_cases)
    case (handled a q0 e d s new m w1 w2)
    note fds = intercept_all_fds [OF K wf(1) handled(5), of k] std [OF handled(2)]
    then have o: "opn w2 - held m = opn w - held (dm_ipc D)" by simp
    have "books opn D w \<longrightarrow> books opn D' w'"
    proof
      assume b: "books opn D w"
      with fds have "held m \<subseteq> opn w'" using handled(6) by (simp add: books_def)
      with books_ipc [OF b _ this] o handled(6) show "books opn D' w'" by simp
    qed
    with Diff_step [OF o] fds handled(6) show ?thesis by (simp add: answers_for_def)
  next
    case (quiet a q0 e d s new f E w1 w2)
    then show ?thesis using exec [OF quiet(5)] std [OF quiet(2)] by simp
  next
    case (answered a q0 e d s new f E w1 w2 w3 ev e' d' s' as)
    then show ?thesis using exec [OF answered(5)] std [OF answered(2)] std [OF answered(6)] by simp
  qed simp
qed

lemma work_queue_fds:
  assumes K: "daemon_laws K opn" and "working (q, D, w)" and run: "work_queue K S q D w = Some (D', w')"
  shows "opn w' - answers_for D' = opn w - answers_for D \<and> (books opn D w \<longrightarrow> books opn D' w')
    \<and> (free_ids k (dm_ipc D) \<longrightarrow> free_ids k (dm_ipc D'))"
proof -
  have K': "std_laws K" "calls_return K" using K by (simp_all add: daemon_laws_def)
  let ?Q = "\<lambda>(D', w'). opn w' - answers_for D' = opn w - answers_for D \<and> (books opn D w \<longrightarrow> books opn D' w')
    \<and> (free_ids k (dm_ipc D) \<longrightarrow> free_ids k (dm_ipc D'))"
  let ?I = "\<lambda>st. working st \<and> ?Q (snd st)"
  have "?Q (D', w')"
    using run [unfolded work_queue_def]
  proof (rule run_loop_rule [where I = ?I])
    show "?I (q, D, w)" using assms(2) by simp
  next
    fix st st' assume I: "?I st" and b: "queue_body K S st = Some (Inr st')"
    obtain q1 D1 w1 q2 D2 w2 where st: "st = (q1, D1, w1)" "st' = (q2, D2, w2)" by (cases st; cases st')
    then have W: "working (q1, D1, w1)" and r: "queue_body K S (q1, D1, w1) = Some (Inr (q2, D2, w2))"
      using I b by simp_all
    from queue_round(1) [OF K' W r] queue_round_fds [OF K W r, of k] I show "?I st'" by (simp add: st)
  next
    fix st x assume I: "?I st" and b: "queue_body K S st = Some (Inl x)"
    obtain q1 D1 w1 where st: "st = (q1, D1, w1)" by (cases st)
    from b [unfolded st] I st show "?Q x" by (cases rule: queue_body_cases) auto
  qed
  then show ?thesis by simp
qed

section \<open>One iteration\<close>

text \<open>
  \<open>accept_laws\<close> for the server's socket, with at most \<open>N\<close> connections waiting at any time, and
  an \<open>epoll_wait\<close> that reports no more events than there is room for.
\<close>

definition loop_laws :: "'w kernel \<Rightarrow> ('w \<Rightarrow> i32 set) \<Rightarrow> ('w \<Rightarrow> nat) \<Rightarrow> nat \<Rightarrow> bool" where
  "loop_laws K opn bl N \<longleftrightarrow> daemon_laws K opn \<and> accept_laws K opn bl \<and> (\<forall>w. bl w \<le> N)
     \<and> (\<forall>ep n t w. opn (snd (k_epoll_wait K ep n t w)) = opn w)
     \<and> (\<forall>ep n t w evs w'. k_epoll_wait K ep n t w = (Some evs, w') \<longrightarrow> length evs \<le> n)"

lemma reads_end_return: "reads_end K fd \<Longrightarrow> reads_return K fd"
  unfolding reads_end_def reads_return_def
  by (intro allI, erule wfp_subset) (auto simp: busy_read_def)

lemma ipc_events_ok:
  assumes "loop_laws K opn bl N"
  shows "wf_ipc m \<Longrightarrow> held m \<subseteq> opn w \<Longrightarrow> free_ids (k + bl w) m \<Longrightarrow>
    \<exists>as m' w'. ipc_events K S evs m w = Some (as, m', w') \<and> wf_ipc m'
      \<and> opn w' - held m' = opn w - held m \<and> held m' \<subseteq> opn w' \<and> free_ids k m'
      \<and> length as \<le> bl w"
proof (induction evs arbitrary: m w)
  case (Cons ev evs)
  have K: "accept_laws K opn bl" "\<forall>fd. reads_return K fd"
    using assms by (auto simp: loop_laws_def daemon_laws_def calls_return_def intro: reads_end_return)
  have "\<exists>as m1 w1. ipc_handle_event K S m ev w = Some (as, m1, w1) \<and> wf_ipc m1
      \<and> opn w1 - held m1 = opn w - held m \<and> held m1 \<subseteq> opn w1
      \<and> length as + bl w1 \<le> bl w \<and> free_ids (k + bl w1) m1"
    using handle_ready_accounts [OF K Cons.prems, of S] Cons.prems
    by (cases "Some (ev_token ev) = ipc_server_token m \<and> ev_readable ev")
      (auto simp: ipc_handle_event_def)
  then obtain as m1 w1 where 1: "ipc_handle_event K S m ev w = Some (as, m1, w1)" "wf_ipc m1"
    "opn w1 - held m1 = opn w - held m" "held m1 \<subseteq> opn w1" "length as + bl w1 \<le> bl w"
    "free_ids (k + bl w1) m1" by blast
  from Cons.IH [OF 1(2,4,6)] obtain bs m2 w2 where
    "ipc_events K S evs m1 w1 = Some (bs, m2, w2)" "wf_ipc m2" "opn w2 - held m2 = opn w1 - held m1"
    "held m2 \<subseteq> opn w2" "free_ids k m2" "length bs \<le> bl w1" by blast
  with 1(1,3,5) show ?case by auto
next
  case Nil
  then show ?case using free_ids_mono [of "k + bl w" m k] by simp
qed

definition readiness :: "event \<Rightarrow> bool" where
  "readiness ev \<longleftrightarrow> (\<exists>i r w x. ev = Ev_JobFdReady i r w x)"

lemma core_events_ok:
  assumes K: "daemon_laws K opn"
  shows "core_events K evs D w = (as, D', w') \<Longrightarrow> daemon_ok D \<Longrightarrow> \<forall>ev \<in> set evs. readiness ev \<Longrightarrow>
    daemon_ok D' \<and> queue_weight as \<le> 2 * length evs \<and> dm_exec D' = dm_exec D \<and> dm_ipc D' = dm_ipc D
    \<and> opn w' = opn w"
proof (induction evs arbitrary: D w as)
  case (Cons ev evs)
  obtain e w1 where e: "k_std K w = (e, w1)" by fastforce
  obtain xs d s where r: "dispatch_event e (dm_core D) (dm_state D) ev = (xs, d, s)" by (rule prod_cases3)
  let ?D = "D\<lparr>dm_core := d, dm_state := s\<rparr>"
  obtain bs where b: "core_events K evs ?D w1 = (bs, D', w')" "as = xs @ bs"
    using Cons.prems(1) e r by (auto simp: core_react_def split: prod.splits)
  have D: "wf_dispatcher (dm_core D)" "wf_state (dm_state D)" "handles_ok (dm_state D) (dm_exec D)"
    using Cons.prems(2) by (simp_all add: daemon_ok_def)
  have "env_ok e" "opn w1 = opn w" using K e unfolding daemon_laws_def std_laws_def by (metis fst_conv, metis snd_conv)
  note inv = core.react_inv [OF r this(1) D(1,2)]
  have ev: "readiness ev" using Cons.prems(3) by simp
  then have "handles_from (dm_state D) s"
    using dispatch_event_handles [OF r] by (auto simp: readiness_def)
  with inv handles_ok_from [OF D(3)] Cons.prems(2) have "daemon_ok ?D" by (simp add: daemon_ok_def)
  moreover have "queue_weight xs \<le> 2" using core.react_less [OF r] ev by (auto simp: readiness_def)
  ultimately show ?case using Cons.IH [OF b(1)] Cons.prems(3) b(2) \<open>opn w1 = opn w\<close> by simp
qed simp

lemma process_reactor_events_ok:
  assumes "loop_laws K opn bl N" and "process_reactor_events K E t w = (Inr (evs, sys), w')"
  shows "opn w' = opn w" and "length sys \<le> 64" and "\<forall>ev \<in> set sys. readiness ev"
proof -
  from assms(2) have r: "reactor_wait K (ex_reactor E) 64 t w = (Inr evs, w')"
    and sys: "sys = List.map_filter (job_event E) evs"
    by (auto simp: process_reactor_events_def split: prod.splits sum.splits)
  have keep: "opn w' = opn w" if "k_epoll_wait K ep n tt w = (x, w')" for ep n tt x
    using assms(1) that unfolding loop_laws_def by (metis snd_conv)
  have "length evs \<le> 64" "opn w' = opn w"
    using r
  proof (atomize (full), cases rule: reactor_wait_cases)
    case (events es)
    then have "length es \<le> 64" using assms(1) unfolding loop_laws_def by blast
    with events keep show "length evs \<le> 64 \<and> opn w' = opn w" by simp
  qed (use keep in auto)
  then show "opn w' = opn w" by simp
  have "length (List.map_filter f xs) \<le> length xs" for f :: "reactor_event \<Rightarrow> event option" and xs
    by (simp add: List.map_filter_def)
  with \<open>length evs \<le> 64\<close> sys show "length sys \<le> 64" by (metis le_trans)
  show "\<forall>ev \<in> set sys. readiness ev"
    by (auto simp: sys List.map_filter_def job_event_def readiness_def)
qed

lemma daemon_iteration_ok:
  assumes K: "loop_laws K opn bl N" and ok: "daemon_ok D" and open_: "held (dm_ipc D) \<subseteq> opn w"
    and ids: "free_ids (k + N) (dm_ipc D)" and left: "handles_left (386 * N + 256) (dm_exec D)"
  shows "\<exists>D' w'. daemon_iteration K S D w = Some (D', w') \<and> daemon_ok D'
    \<and> opn w' - answers_for D' = opn w - answers_for D \<and> (books opn D w \<longrightarrow> books opn D' w')
    \<and> free_ids k (dm_ipc D') \<and> next_handle D' \<le> next_handle D + (386 * N + 256)"
proof -
  have K': "daemon_laws K opn" "std_laws K" "calls_return K"
    using K by (simp_all add: loop_laws_def daemon_laws_def)
  obtain e w0 where e: "k_std K w = (e, w0)" by fastforce
  have o0: "opn w0 = opn w" using K'(1) e unfolding daemon_laws_def by (metis snd_conv)
  obtain r w1 where r: "process_reactor_events K (dm_exec D) (dispatcher_timeout_ms e (dm_core D)) w0 = (r, w1)"
    by fastforce
  show ?thesis
  proof (cases r)
    case (Inl err)
    with r have "opn w1 = opn w0"
      using K by (auto simp: process_reactor_events_def reactor_wait_def loop_laws_def
          split: prod.splits sum.splits option.splits if_splits) (metis snd_conv)+
    with e r Inl ok o0 free_ids_mono [OF ids, of k] show ?thesis
      by (simp add: daemon_iteration_def books_def booked_def)
  next
    case (Inr es)
    obtain evs sys where es: "es = (evs, sys)" by fastforce
    note p = process_reactor_events_ok [OF K r [unfolded Inr es]]
    have ipc: "wf_ipc (dm_ipc D)" using ok by (simp add: daemon_ok_def)
    have bl: "bl w1 \<le> N" using K by (simp add: loop_laws_def)
    have "free_ids (k + bl w1) (dm_ipc D)" using free_ids_mono [OF ids] bl by simp
    from ipc_events_ok [OF K ipc _ this, of S evs] obtain as m w2 where
      i: "ipc_events K S evs (dm_ipc D) w1 = Some (as, m, w2)" "wf_ipc m"
        "opn w2 - held m = opn w1 - held (dm_ipc D)" "held m \<subseteq> opn w2" "free_ids k m" "length as \<le> N"
      using open_ o0 p(1) bl by auto
    have okm: "daemon_ok (D\<lparr>dm_ipc := m\<rparr>)" using ok i(2) by (simp add: daemon_ok_def)
    obtain bs D1 w3 where c: "core_events K sys (D\<lparr>dm_ipc := m\<rparr>) w2 = (bs, D1, w3)" by (rule prod_cases3)
    note ce = core_events_ok [OF K'(1) c okm p(3)]
    have weight: "queue_weight (as @ bs) \<le> 193 * N + 128" using ce p(2) i(6) queue_weight_le [of as] by simp
    then have W: "working (as @ bs, D1, w3)"
      using ce handles_left_mono [OF left, of "dm_exec D1" 0] by (simp add: working_def)
    from work_queue_ok [OF K'(2,3) W] obtain D' w' where
      q: "work_queue K S (as @ bs) D1 w3 = Some (D', w')" "daemon_ok D'"
        "next_handle D' \<le> next_handle D1 + 2 * queue_weight (as @ bs)" by blast
    note qf = work_queue_fds [OF K'(1) W q(1), of k]
    have "books opn D1 w3" if b: "books opn D w"
    proof -
      have "books opn D w1" using b p(1) o0 by (simp add: books_def booked_def)
      from books_ipc [OF this i(3,4), of "D\<lparr>dm_ipc := m\<rparr>"] ce show ?thesis
        by (simp add: books_def booked_def)
    qed
    moreover have "opn w3 - answers_for D1 = opn w - answers_for D"
      using Diff_step [OF i(3)] p(1) o0 ce by (simp add: answers_for_def)
    moreover have "next_handle D' \<le> next_handle D + (386 * N + 256)" using q(3) ce weight by simp
    moreover have "daemon_iteration K S D w = Some (D', w')"
      using e r Inr es i(1) c q(1) by (simp add: daemon_iteration_def)
    ultimately show ?thesis using qf q(2) i(5) ce
      by (intro exI [of _ D'] exI [of _ w']) simp
  qed
qed

section \<open>Any number of iterations\<close>

lemma iterations_ok:
  assumes K: "loop_laws K opn bl N"
  shows "daemon_ok D \<Longrightarrow> books opn D w \<Longrightarrow> free_ids (n * N) (dm_ipc D) \<Longrightarrow>
    handles_left (n * (386 * N + 256)) (dm_exec D) \<Longrightarrow>
    \<exists>D' w'. iterations K S n D w = Some (D', w') \<and> daemon_ok D' \<and> books opn D' w'
      \<and> opn w' - answers_for D' = opn w - answers_for D"
proof (induction n arbitrary: D w)
  case (Suc n)
  have h: "held (dm_ipc D) \<subseteq> opn w" using Suc.prems(2) by (simp add: books_def)
  have ids: "free_ids (n * N + N) (dm_ipc D)" using Suc.prems(3) by (simp add: add.commute)
  have "handles_left (386 * N + 256) (dm_exec D)"
    using handles_left_mono [OF Suc.prems(4), of "dm_exec D" 0] by simp
  from daemon_iteration_ok [OF K Suc.prems(1) h ids this, of S] Suc.prems(2) obtain D1 w1 where
    1: "daemon_iteration K S D w = Some (D1, w1)" "daemon_ok D1" "books opn D1 w1"
      "opn w1 - answers_for D1 = opn w - answers_for D" "free_ids (n * N) (dm_ipc D1)"
      "next_handle D1 \<le> next_handle D + (386 * N + 256)" by blast
  have "handles_left (n * (386 * N + 256)) (dm_exec D1)"
    using handles_left_mono [OF Suc.prems(4) 1(6)] by simp
  from Suc.IH [OF 1(2,3,5) this] 1(1,4) show ?case by auto
qed simp

end
