(* ===== verification/DaemonRuns.thy ===== *)
theory DaemonRuns
  imports Daemon
begin

text \<open>
  Runs of the daemon of \<open>Daemon\<close>: what one iteration guarantees, what setting up and submitting a
  job lead to, and what never happens in any run.
\<close>

section \<open>Nothing ever finishes\<close>

text \<open>
  The actions that do not end a job: all but \<open>Finished\<close>, and but \<open>PollProcess\<close>, which would
  find out that a process has exited. The core never answers with \<open>PollProcess\<close>, and with
  \<open>Finished\<close> only to \<open>ProcessExited\<close>.
\<close>

definition running_on :: "action \<Rightarrow> bool" where
  "running_on a \<longleftrightarrow> (\<forall>i r. a \<noteq> Finished i r) \<and> (\<forall>i. a \<noteq> PollProcess i)"

lemma running_on_simps [simp]:
  "running_on (Submit i u x p)" "running_on (Admitted i u x p)" "running_on (Rejected i)"
  "running_on (Started i)" "running_on (Controlled i)" "running_on (QueryResult i res)"
  "running_on (StartProcess i x p)" "running_on (SignalProcess i sig)" "running_on (PerformIo i)"
  "running_on (RegisterInterest i st)" "running_on (EmitLog l ev)" "running_on (Control i sig)"
  "running_on (Query i)" "\<not> running_on (Finished i r)" "\<not> running_on (PollProcess i)"
  by (simp_all add: running_on_def)

definition grows :: "dispatcher \<times> execution_state \<Rightarrow> dispatcher \<times> execution_state \<Rightarrow> bool" where
  "grows x y \<longleftrightarrow> max_jobs (d_admission (fst y)) = max_jobs (d_admission (fst x))
     \<and> active_jobs (d_admission (fst x)) \<le> active_jobs (d_admission (fst y))
     \<and> dom (jobs (snd x)) \<subseteq> dom (jobs (snd y))
     \<and> (results (snd x) = Map.empty \<longrightarrow> results (snd y) = Map.empty)"

lemma grows_refl [simp]: "grows x x"
  by (simp add: grows_def)

lemma grows_trans [trans]: "grows x y \<Longrightarrow> grows y z \<Longrightarrow> grows x z"
  by (auto simp: grows_def)

lemma dispatch_running:
  assumes "dispatch e d s a = (as, d', s')" and "running_on a"
  shows "(\<forall>b \<in> set as. running_on b) \<and> grows (d, s) (d', s')"
  using assms by (cases a)
    (auto simp: grows_def handler_defs io_handle_action_def split: option.splits if_splits)

lemma dispatch_event_running:
  assumes "dispatch_event e d s ev = (as, d', s')" and "\<And>i st. ev \<noteq> Ev_ProcessExited i st"
  shows "(\<forall>b \<in> set as. running_on b) \<and> grows (d, s) (d', s')"
  using assms by (cases ev) (auto simp: grows_def handler_defs split: option.splits if_splits)

abbreviation brain :: "daemon \<Rightarrow> dispatcher \<times> execution_state" where
  "brain D \<equiv> (dm_core D, dm_state D)"

definition all_running :: "daemon \<Rightarrow> action list \<times> daemon \<times> 'w \<Rightarrow> bool" where
  "all_running D0 st \<longleftrightarrow> (\<forall>a \<in> set (fst st). running_on a) \<and> grows (brain D0) (brain (fst (snd st)))"

lemma queue_round_running:
  assumes "all_running D0 (q, D, w)" and "queue_body K S (q, D, w) = Some (Inr st')"
  shows "all_running D0 st'"
  using assms(2)
proof (cases rule: queue_body_cases)
  case (handled a q0 e d s new m w1 w2)
  with assms(1) dispatch_running [OF handled(3)] grows_trans show ?thesis
    by (fastforce simp: all_running_def)
next
  case (quiet a q0 e d s new f E w1 w2)
  with assms(1) dispatch_running [OF quiet(3)] grows_trans show ?thesis
    by (fastforce simp: all_running_def)
next
  case (answered a q0 e d s new f E w1 w2 w3 ev e' d' s' as)
  have a: "running_on a" using assms(1) answered(1) by (simp add: all_running_def)
  have "ev \<noteq> Ev_ProcessExited i st" for i st
  proof
    assume ev: "ev = Ev_ProcessExited i st"
    show False
    proof (cases "\<exists>j x p. f = Eff_StartProcess j x p")
      case True
      then obtain j x p where "start_process K (dm_exec D) j x p w1 = Some (Some ev, E, w2)"
        using answered(5) by auto
      then show False using ev by (cases rule: start_process_cases) auto
    next
      case False
      with apply_effect_frame [OF answered(5)] obtain j p where "f = Eff_PollProcess j p" by blast
      with answered(4) a show False
        by (cases a) (auto simp: with_io_def with_process_def split: option.splits)
    qed
  qed
  note r = dispatch_event_running [OF answered(7) this]
  note d = dispatch_running [OF answered(3) a]
  have "grows (brain D0) (d', s')"
    using assms(1) d r by (auto simp: all_running_def intro: grows_trans)
  with assms(1) answered(1,8) d r show ?thesis by (auto simp: all_running_def)
qed simp

lemma work_queue_running:
  assumes "work_queue K S q D w = Some (D', w')" and "\<forall>a \<in> set q. running_on a"
  shows "grows (brain D) (brain D')"
proof -
  have "(\<lambda>x. grows (brain D) (brain (fst x))) (D', w')"
    using assms(1) [unfolded work_queue_def]
  proof (rule run_loop_rule [where I = "all_running D"])
    show "all_running D (q, D, w)" using assms(2) by (simp add: all_running_def)
  next
    fix st st' assume "all_running D st" "queue_body K S st = Some (Inr st')"
    then show "all_running D st'" by (cases st) (auto intro: queue_round_running)
  next
    fix st x assume I: "all_running D st" and b: "queue_body K S st = Some (Inl x)"
    obtain q1 D1 w1 where st: "st = (q1, D1, w1)" by (cases st)
    from b [unfolded st] I st show "grows (brain D) (brain (fst x))"
      by (cases rule: queue_body_cases) (auto simp: all_running_def)
  qed
  then show ?thesis by simp
qed

lemma router_handle_running: "router_handle r req = (Some a, r') \<Longrightarrow> running_on a"
  by (cases req) (auto simp: split_beta Let_def split: if_splits)

lemma handle_ready_running:
  assumes "handle_ready K S m w = Some (acts, m', w')"
  shows "\<forall>a \<in> set acts. running_on a"
proof -
  have keep: "socket_keep K (\<lambda>_. ())" by (simp add: socket_keep_def transfers_keep_def)
  let ?I = "\<lambda>st. \<forall>a \<in> set (fst st). running_on a"
  have "?I (acts, m', w')"
    using assms [unfolded handle_ready_def]
  proof (rule run_loop_rule [where I = ?I])
    fix st st' assume I: "?I st" and b: "ready_body K S st = Some (Inr st')"
    obtain as m1 w1 where st: "st = (as, m1, w1)" by (cases st)
    from b st obtain fd w2 where "st' = (as, m1, w2) \<or> serve_connection K S fd (as, m1, w2) = Some st'"
      by (auto simp: ready_body_def split: prod.splits sum.splits if_splits)
    then show "?I st'"
    proof
      assume "serve_connection K S fd (as, m1, w2) = Some st'"
      with keep show ?thesis
        by (cases rule: serve_connection_cases)
          (use I router_handle_running in \<open>auto simp: st\<close>)
    qed (use I st in simp)
  next
    fix st x assume "?I st" and "ready_body K S st = Some (Inl x)"
    then show "?I x" by (auto simp: ready_body_def split: prod.splits sum.splits if_splits)
  qed simp
  then show ?thesis by simp
qed

lemma ipc_events_running:
  "ipc_events K S evs m w = Some (as, m', w') \<Longrightarrow> \<forall>a \<in> set as. running_on a"
proof (induction evs arbitrary: m w as)
  case (Cons ev evs)
  from Cons.prems obtain xs m1 w1 ys where
    x: "ipc_handle_event K S m ev w = Some (xs, m1, w1)" "ipc_events K S evs m1 w1 = Some (ys, m', w')"
    "as = xs @ ys"
    by (auto simp: bind_eq_Some_conv)
  have "\<forall>a \<in> set xs. running_on a"
    using x(1) by (auto simp: ipc_handle_event_def dest: handle_ready_running split: if_splits)
  with Cons.IH [OF x(2)] x(3) show ?case by auto
qed simp

lemma core_events_running:
  "core_events K evs D w = (as, D', w') \<Longrightarrow> \<forall>ev \<in> set evs. readiness ev \<Longrightarrow>
     (\<forall>a \<in> set as. running_on a) \<and> grows (brain D) (brain D')"
proof (induction evs arbitrary: D w as)
  case (Cons ev evs)
  obtain xs D1 w1 where x: "core_react K ev D w = (xs, D1, w1)" by (rule prod_cases3)
  with Cons.prems(1) obtain ys where y: "core_events K evs D1 w1 = (ys, D', w')" "as = xs @ ys"
    by (auto split: prod.splits)
  from x obtain e d s where r: "dispatch_event e (dm_core D) (dm_state D) ev = (xs, d, s)"
    and D1: "D1 = D\<lparr>dm_core := d, dm_state := s\<rparr>" by (auto simp: core_react_eq)
  have "ev \<noteq> Ev_ProcessExited i st" for i st using Cons.prems(2) by (auto simp: readiness_def)
  from dispatch_event_running [OF r this] Cons.IH [OF y(1)] Cons.prems(2) D1 y(2) grows_trans
  show ?case by fastforce
qed simp

lemma daemon_iteration_running:
  assumes "daemon_iteration K S D w = Some (D', w')"
  shows "grows (brain D) (brain D')"
proof -
  obtain e w0 where e: "k_std K w = (e, w0)" by fastforce
  obtain r w1 where r: "process_reactor_events K (dm_exec D) (dispatcher_timeout_ms e (dm_core D)) w0 = (r, w1)"
    by fastforce
  show ?thesis
  proof (cases r)
    case (Inl err)
    with assms e r show ?thesis by (simp add: daemon_iteration_def)
  next
    case (Inr es)
    obtain evs sys where es: "es = (evs, sys)" by fastforce
    have sys: "\<forall>ev \<in> set sys. readiness ev"
      using r Inr es by (auto simp: process_reactor_events_def List.map_filter_def job_event_def
          readiness_def split: prod.splits sum.splits)
    from assms e r Inr es obtain as m w2 where
      i: "ipc_events K S evs (dm_ipc D) w1 = Some (as, m, w2)"
      by (auto simp: daemon_iteration_def bind_eq_Some_conv)
    obtain bs D1 w3 where c: "core_events K sys (D\<lparr>dm_ipc := m\<rparr>) w2 = (bs, D1, w3)" by (rule prod_cases3)
    with assms e r Inr es i have q: "work_queue K S (as @ bs) D1 w3 = Some (D', w')"
      by (simp add: daemon_iteration_def)
    note ce = core_events_running [OF c sys]
    have "\<forall>a \<in> set (as @ bs). running_on a" using ipc_events_running [OF i] ce by auto
    from work_queue_running [OF q this] ce show ?thesis by (auto intro: grows_trans)
  qed
qed

lemma iterations_running: "iterations K S n D w = Some (D', w') \<Longrightarrow> grows (brain D) (brain D')"
proof (induction n arbitrary: D w)
  case (Suc n)
  then show ?case
    by (auto simp: bind_eq_Some_conv dest: daemon_iteration_running intro: grows_trans)
qed simp

section \<open>Setting up\<close>

text \<open>What opening the epoll instance and the socket does to the descriptor table.\<close>

definition opens :: "('w \<Rightarrow> i32 set) \<Rightarrow> ('w \<Rightarrow> i32 \<times> 'w) \<Rightarrow> bool" where
  "opens opn call \<longleftrightarrow> (\<forall>w fd w'. call w = (fd, w') \<longrightarrow>
     (if fd < 0 then fd = -1 \<and> opn w' = opn w else fd \<notin> opn w \<and> opn w' = insert fd (opn w)))"

definition setup_laws :: "'w kernel \<Rightarrow> ('w \<Rightarrow> i32 set) \<Rightarrow> bool" where
  "setup_laws K opn \<longleftrightarrow> closes_fds K opn \<and> opens opn (k_epoll_create1 K) \<and> opens opn (k_socket K)
     \<and> (\<forall>ep fd op w. opn (snd (k_epoll_ctl K ep fd op w)) = opn w)"

lemma daemon_start_cases:
  assumes "setup_laws K opn" and "daemon_start K w = (r, w')"
  obtains (failed) e where "r = Inl e" "opn w' = opn w"
  | (ready) ep fd where "r = Inr \<lparr>dm_core = dispatcher_new, dm_state = execution_state_new,
       dm_exec = executor_new \<lparr>epfd = ep, next_token = 1, signalfd = None, sigchld_token = None\<rparr>,
       dm_ipc = ipc_new fd router_new ipc_token\<rparr>"
      "ep \<noteq> fd" "{ep, fd} \<inter> opn w = {}" "opn w' = {ep, fd} \<union> opn w"
proof -
  have c: "opn (k_close K fd v) = opn v - {fd}" for fd v
    using assms(1) by (simp add: setup_laws_def closes_fds_def)
  have ctl: "opn v' = opn v" if "k_epoll_ctl K ep fd op v = (x, v')" for ep fd op v x v'
    using assms(1) that unfolding setup_laws_def by (metis snd_conv)
  obtain ep w1 where ep: "k_epoll_create1 K w = (ep, w1)" by fastforce
  obtain fd w2 where fd: "k_socket K w1 = (fd, w2)" by fastforce
  have o1: "if ep < 0 then ep = -1 \<and> opn w1 = opn w else ep \<notin> opn w \<and> opn w1 = insert ep (opn w)"
    and o2: "if fd < 0 then fd = -1 \<and> opn w2 = opn w1 else fd \<notin> opn w1 \<and> opn w2 = insert fd (opn w1)"
    using assms(1) ep fd unfolding setup_laws_def opens_def by blast+
  let ?r = "\<lparr>epfd = ep, next_token = 1, signalfd = None, sigchld_token = None\<rparr>"
  consider "ep < 0" | "0 \<le> ep" "fd < 0" | "0 \<le> ep" "0 \<le> fd" by linarith
  then show thesis
  proof cases
    case 1
    with assms(2) ep o1 failed show thesis
      by (auto simp: daemon_start_def reactor_new_def syscall_ret_def)
  next
    case 2
    with assms(2) ep fd have "w' = reactor_drop K ?r w2" "\<exists>e. r = Inl e"
      by (auto simp: daemon_start_def reactor_new_def syscall_ret_def fd_new_def)
    with 2 o1 o2 failed show thesis by (auto simp: reactor_drop_def fd_drop_opt_def c)
  next
    case 3
    obtain x w3 where x: "add_with_token K ?r fd ipc_token True False w2 = (x, w3)" by fastforce
    have o3: "opn w3 = opn w2" using x ctl by (auto simp: add_with_token_def Let_def split: prod.splits)
    show thesis
    proof (cases x)
      case (Inl e)
      with assms(2) ep fd x 3 have "w' = reactor_drop K ?r (fd_drop K fd w3)" "r = Inl e"
        by (auto simp: daemon_start_def reactor_new_def syscall_ret_def fd_new_def)
      with 3 o1 o2 o3 failed show thesis by (auto simp: reactor_drop_def fd_drop_opt_def fd_drop_def c)
    next
      case (Inr u)
      with assms(2) ep fd x 3 have "w' = w3" and "r = Inr \<lparr>dm_core = dispatcher_new,
          dm_state = execution_state_new, dm_exec = executor_new ?r, dm_ipc = ipc_new fd router_new ipc_token\<rparr>"
        by (auto simp: daemon_start_def reactor_new_def syscall_ret_def fd_new_def)
      with 3 o1 o2 o3 ready show thesis by auto
    qed
  qed
qed

text \<open>The daemon as it enters its loop.\<close>

lemma daemon_start_ok:
  assumes "D = \<lparr>dm_core = dispatcher_new, dm_state = execution_state_new, dm_exec = executor_new r,
    dm_ipc = ipc_new fd router_new ipc_token\<rparr>"
  shows "daemon_ok D" and "answers_for D = {}" and "books opn D w"
    and "k \<le> 2 ^ 32 - 1 \<Longrightarrow> free_ids k (dm_ipc D)" and "n + 1 < 2 ^ 64 \<Longrightarrow> handles_left n (dm_exec D)"
proof -
  have none: "held (dm_ipc D) = {}" "owned (dm_exec D) = {}" "ipc_clients (dm_ipc D) = Map.empty"
    "ex_drains (dm_exec D) = Map.empty" "ex_next_handle (dm_exec D) = 1"
    by (simp_all add: assms held_def owned_def ipc_new_def executor_new_def)
  show "daemon_ok D"
    using wf_state_new handles_below_new
    by (simp add: assms daemon_ok_def wf_dispatcher_new wf_ipc_new handles_ok_def execution_state_new_def)
  show "answers_for D = {}" using none by (simp add: answers_for_def)
  show "books opn D w" using none by (simp add: books_def booked_def drains_apart_def)
  show "k \<le> 2 ^ 32 - 1 \<Longrightarrow> free_ids k (dm_ipc D)" using none(3) by (simp add: free_ids_def)
  show "n + 1 < 2 ^ 64 \<Longrightarrow> handles_left n (dm_exec D)" using none(5) by (simp add: handles_left_def)
qed

lemma daemon_start_state:
  assumes "daemon_start K w = (Inr D, w')"
  obtains r fd where "D = \<lparr>dm_core = dispatcher_new, dm_state = execution_state_new,
    dm_exec = executor_new r, dm_ipc = ipc_new fd router_new ipc_token\<rparr>"
  using assms by (auto simp: daemon_start_def split: prod.splits sum.splits)

lemma run_daemon_loops: "run_loop (daemon_body K S) st = None"
proof -
  have False if "run_loop (daemon_body K S) st = Some r" for r
  proof -
    from that have "(\<lambda>_. False) r"
      by (rule run_loop_rule [where I = "\<lambda>_. True"]) (auto simp: daemon_body_def)
    then show False .
  qed
  then show ?thesis by (cases "run_loop (daemon_body K S) st") auto
qed

section \<open>A submission, from the action to the reply\<close>

text \<open>
  The tail of a submission's queue: log lines, replies and stream registrations, to which the
  core answers nothing and which change neither jobs nor processes.
\<close>

definition tail_action :: "action \<Rightarrow> bool" where
  "tail_action a \<longleftrightarrow> (case a of EmitLog _ _ \<Rightarrow> True | Started _ \<Rightarrow> True | Rejected _ \<Rightarrow> True
     | RegisterInterest _ _ \<Rightarrow> True | _ \<Rightarrow> False)"

lemma dispatch_tail: "tail_action a \<Longrightarrow> dispatch e d s a = ([], d, s)"
  by (cases a) (simp_all add: tail_action_def handler_defs)

lemma resolve_tail:
  assumes "tail_action a" and "resolve_action s a = ([], [f])"
  shows "(\<exists>l ev. f = Eff_Log l ev) \<or> (\<exists>i io st. f = Eff_WatchStream i io st)"
  using assms by (cases a) (auto simp: tail_action_def with_io_def split: option.splits)

lemma reply_tail: "tail_action a \<Longrightarrow> fst (resolve_action s a) = (if reply_of a = None then [] else [a])"
  by (cases a) (simp_all add: tail_action_def reply_of_def)

text \<open>Once the reply is out, the rest of the queue changes nothing but logs and registrations.\<close>

definition tailing :: "daemon \<Rightarrow> action list \<times> daemon \<times> 'w \<Rightarrow> bool" where
  "tailing D0 st \<longleftrightarrow> (case st of (q, D, w) \<Rightarrow> (\<forall>a \<in> set q. tail_action a \<and> reply_of a = None)
     \<and> brain D = brain D0 \<and> dm_ipc D = dm_ipc D0 \<and> ex_processes (dm_exec D) = ex_processes (dm_exec D0)
     \<and> ex_drains (dm_exec D) = ex_drains (dm_exec D0))"

lemma tailing_round:
  assumes T: "tailing D0 (q, D, w)" and run: "queue_body K S (q, D, w) = Some (Inr st')"
  shows "tailing D0 st'"
  using run
proof (cases rule: queue_body_cases)
  case (handled a q0 e d s new m w1 w2)
  have tl: "tail_action a" "reply_of a = None" using T handled(1) by (simp_all add: tailing_def)
  have "new = []" "d = dm_core D" "s = dm_state D" using handled(3) dispatch_tail [OF tl(1)] by simp_all
  moreover have "m = dm_ipc D" using handled(5) reply_tail [OF tl(1)] tl(2) by simp
  ultimately show ?thesis using T handled(1,6) by (auto simp: tailing_def)
next
  case (quiet a q0 e d s new f E w1 w2)
  have tl: "tail_action a" using T quiet(1) by (simp add: tailing_def)
  have keep: "new = []" "d = dm_core D" "s = dm_state D" using quiet(3) dispatch_tail [OF tl] by simp_all
  have "ex_processes E = ex_processes (dm_exec D) \<and> ex_drains E = ex_drains (dm_exec D)"
    using resolve_tail [OF tl quiet(4)] quiet(5) watch_stream_frame [of K "dm_exec D" _ _ _ w1]
    by (elim disjE exE) (fastforce simp: watch_stream_def split: option.splits prod.splits sum.splits)+
  then show ?thesis using T quiet(1,6) keep by (auto simp: tailing_def)
next
  case (answered a q0 e d s new f E w1 w2 w3 ev e' d' s' as)
  have tl: "tail_action a" using T answered(1) by (simp add: tailing_def)
  from resolve_tail [OF tl answered(4)] answered(5) show ?thesis by auto
qed simp

lemma work_queue_tail:
  assumes "work_queue K S q D w = Some (D', w')" and "tailing D0 (q, D, w)"
  shows "tailing D0 ([], D', w')"
proof -
  have "(\<lambda>(D', w'). tailing D0 ([], D', w')) (D', w')"
    using assms(1) [unfolded work_queue_def] assms(2)
  proof (rule run_loop_rule [where I = "tailing D0"])
    fix st st' assume "tailing D0 st" "queue_body K S st = Some (Inr st')"
    then show "tailing D0 st'" by (cases st) (auto intro: tailing_round)
  next
    fix st x assume I: "tailing D0 st" and b: "queue_body K S st = Some (Inl x)"
    obtain q1 D1 w1 where st: "st = (q1, D1, w1)" by (cases st)
    from b [unfolded st] I st show "case x of (D', w') \<Rightarrow> tailing D0 ([], D', w')"
      by (cases rule: queue_body_cases) (auto simp: tailing_def)
  qed
  then show ?thesis by simp
qed

text \<open>The rounds before the reply: a log line, then the reply itself.\<close>

abbreviation logged :: "log_level \<Rightarrow> log_event \<Rightarrow> daemon \<Rightarrow> daemon" where
  "logged l ev D \<equiv> D\<lparr>dm_exec := (dm_exec D)\<lparr>ex_log := ex_log (dm_exec D) @ [(l, log_message ev)]\<rparr>\<rparr>"

lemma log_round: "queue_body K S (EmitLog l ev # q, D, w) = Some (Inr (q, logged l ev D, snd (k_std K w)))"
proof -
  obtain e w1 where "k_std K w = (e, w1)" by fastforce
  then show ?thesis
    by (simp add: queue_body_def core_act_def handler_defs resolve_effects_single intercept_silent reply_of_def)
qed

lemma reply_round:
  assumes "tail_action a" and "reply_of a \<noteq> None"
    and "intercept_action K S a (dm_ipc D) (snd (k_std K w)) = Some (m, w')"
  shows "queue_body K S (a # q, D, w) = Some (Inr (q, D\<lparr>dm_ipc := m\<rparr>, w'))"
proof -
  obtain e w1 where "k_std K w = (e, w1)" by fastforce
  with assms show ?thesis
    by (cases a) (simp_all add: tail_action_def reply_of_def queue_body_def core_act_def handler_defs
        resolve_effects_single)
qed

lemma work_queue_again:
  "queue_body K S (q, D, w) = Some (Inr (q', D', w')) \<Longrightarrow> work_queue K S q D w = work_queue K S q' D' w'"
  by (simp add: work_queue_def run_loop_again)

lemma submit_admitted:
  assumes "active_jobs (d_admission (dm_core D)) < max_jobs (d_admission (dm_core D))"
  obtains D1 w1 where "queue_body K S ([Submit i u x p], D, w) = Some (Inr ([Admitted i u x p], D1, w1))"
    "D1 = D\<lparr>dm_core := (dm_core D)\<lparr>d_admission := (d_admission (dm_core D))
       \<lparr>active_jobs := active_jobs (d_admission (dm_core D)) + 1\<rparr>\<rparr>\<rparr>"
proof -
  obtain e w1 where "k_std K w = (e, w1)" by fastforce
  with assms that show thesis
    by (simp add: queue_body_def core_act_def handler_defs resolve_effects_single intercept_silent reply_of_def)
qed

lemma admitted_starting:
  obtains D2 w2 where "queue_body K S ([Admitted i u x p], D, w) =
      Some (Inr ([StartProcess i x p, EmitLog Info (Log_Submit i)], D2, w2))"
    "d_admission (dm_core D2) = d_admission (dm_core D)"
    "dm_state D2 = (dm_state D)\<lparr>jobs := (jobs (dm_state D))(i \<mapsto> new_job i u),
       lifecycle := (lifecycle (dm_state D))(i \<mapsto> Lc_Admitted)\<rparr>"
    "dm_ipc D2 = dm_ipc D" "dm_exec D2 = dm_exec D"
proof -
  obtain e w1 where "k_std K w = (e, w1)" by fastforce
  with that show thesis
    by (simp add: queue_body_def core_act_def handler_defs resolve_effects_single intercept_silent reply_of_def)
qed

text \<open>What the start of the process leads to: a started job, or one that stays without a process.\<close>

lemma starting_outcome:
  assumes "calls_return K" and "jobs (dm_state D) i = Some j"
  obtains q D3 w3 r v v' where
    "queue_body K S ([StartProcess i x p, EmitLog l ev], D, w) =
      Some (Inr (EmitLog l ev # (case r of Inr _ \<Rightarrow> Started i | Inl _ \<Rightarrow> Rejected i) # q, D3, w3))"
    "\<forall>a \<in> set q. tail_action a \<and> reply_of a = None"
    "spawn_start K i (spawn_request x p) v = Some (r, v')"
    "dm_core D3 = dm_core D" "dm_ipc D3 = dm_ipc D"
    "case r of
       Inr rp \<Rightarrow> (let pr = ProcessHandle (ex_next_handle (dm_exec D));
           io = IoHandle (ex_next_handle (dm_exec D) + 1)
         in dm_state D3 = (dm_state D)
              \<lparr>jobs := (jobs (dm_state D))(i \<mapsto> j\<lparr>job_process := Some pr, job_io := Some io\<rparr>),
               lifecycle := (lifecycle (dm_state D))(i \<mapsto> Lc_Running)\<rparr>
            \<and> ex_processes (dm_exec D3) = (ex_processes (dm_exec D))(pr \<mapsto> run_process rp)
            \<and> ex_drains (dm_exec D3) = (ex_drains (dm_exec D))(io \<mapsto> run_drain rp))
     | Inl e \<Rightarrow> dm_state D3 = (dm_state D)\<lparr>lifecycle := (lifecycle (dm_state D))(i \<mapsto> Lc_Finished)\<rparr>
         \<and> dm_exec D3 = dm_exec D"
proof -
  obtain e w1 where e: "k_std K w = (e, w1)" by fastforce
  obtain ev' E w2 where f: "start_process K (dm_exec D) i x p w1 = Some (ev', E, w2)"
    using apply_effect_returns [OF assms(1), of "dm_exec D" "Eff_StartProcess i x p" w1]
    by (metis apply_effect.simps(4) prod_cases3)
  obtain e' w3 where e': "k_std K w2 = (e', w3)" by fastforce
  from f show thesis
  proof (cases rule: start_process_cases)
    case (failed err)
    have "queue_body K S ([StartProcess i x p, EmitLog l ev], D, w) =
        Some (Inr (EmitLog l ev # (case (Inl err :: sys_error + running_process) of Inr _ \<Rightarrow> Started i | Inl _ \<Rightarrow> Rejected i) #
          [EmitLog LevelError (Log_Error i (''spawn_failed: '' @ display_error err))],
          D\<lparr>dm_state := (dm_state D)\<lparr>lifecycle := (lifecycle (dm_state D))(i \<mapsto> Lc_Finished)\<rparr>\<rparr>, w3))"
      using e e' f failed(2,3)
      by (simp add: queue_body_def core_act_def core_react_def handler_defs io_handle_action_def
          resolve_effects_single)
    from that [OF this _ failed(1)] show thesis by (simp add: tail_action_def reply_of_def)
  next
    case (started rp v)
    have "queue_body K S ([StartProcess i x p, EmitLog l ev], D, w) =
        Some (Inr (EmitLog l ev # (case (Inr rp :: sys_error + running_process) of Inr _ \<Rightarrow> Started i | Inl _ \<Rightarrow> Rejected i) #
          [RegisterInterest i Stdout, RegisterInterest i Stderr, RegisterInterest i Stdin],
          D\<lparr>dm_state := (dm_state D)
              \<lparr>jobs := (jobs (dm_state D))(i \<mapsto> j\<lparr>job_process := Some (ProcessHandle (ex_next_handle (dm_exec D))),
                 job_io := Some (IoHandle (ex_next_handle (dm_exec D) + 1))\<rparr>),
               lifecycle := (lifecycle (dm_state D))(i \<mapsto> Lc_Running)\<rparr>, dm_exec := E\<rparr>, w3))"
      using e e' f started(2) assms(2)
      by (simp add: queue_body_def core_act_def core_react_def handler_defs io_handle_action_def
          resolve_effects_single)
    from that [OF this _ started(1)] started(3) show thesis
      by (simp add: tail_action_def reply_of_def)
  qed
qed

text \<open>
  How a submission ends, seen from the daemon before and after, by what \<open>spawn_start\<close> returned: a
  running job whose two new handles stand for the process and its streams, or a job marked
  finished that has neither.
\<close>

definition submission_end :: "u64 \<Rightarrow> daemon \<Rightarrow> daemon \<Rightarrow> job_state \<Rightarrow> sys_error + running_process \<Rightarrow> bool" where
  "submission_end i D D' j r \<longleftrightarrow> (case r of
       Inr rp \<Rightarrow> lifecycle (dm_state D') i = Some Lc_Running \<and>
         (\<exists>pr io. job_process j = Some pr \<and> job_io j = Some io
            \<and> ex_processes (dm_exec D) pr = None \<and> ex_processes (dm_exec D') pr = Some (run_process rp)
            \<and> ex_drains (dm_exec D) io = None \<and> ex_drains (dm_exec D') io = Some (run_drain rp))
     | Inl e \<Rightarrow> lifecycle (dm_state D') i = Some Lc_Finished \<and> job_process j = None \<and> job_io j = None
         \<and> ex_processes (dm_exec D') = ex_processes (dm_exec D))"

text \<open>
  How the client of a job is answered between a state of the queue and the end: in one of the
  rounds that lead from there the reply \<open>a\<close> is popped; its response is transmitted on the
  client's descriptor, which is then closed, and the client is forgotten. If no client waits, no
  client is touched.
\<close>

definition queue_step :: "'w kernel \<Rightarrow> serde \<Rightarrow> action list \<times> daemon \<times> 'w \<Rightarrow> action list \<times> daemon \<times> 'w \<Rightarrow> bool"
  where "queue_step K S st st' \<longleftrightarrow> queue_body K S st = Some (Inr st')"

definition job_answered :: "'w kernel \<Rightarrow> serde \<Rightarrow> u64 \<Rightarrow> action \<Rightarrow> wire_response \<Rightarrow>
    action list \<times> daemon \<times> 'w \<Rightarrow> daemon \<Rightarrow> bool" where
  "job_answered K S i a resp st D' \<longleftrightarrow> (case ipc_job_client (dm_ipc (fst (snd st))) i of
     None \<Rightarrow> dm_ipc D' = dm_ipc (fst (snd st))
   | Some cid \<Rightarrow> dm_ipc D' = forget_client i cid (dm_ipc (fst (snd st))) \<and>
       (\<exists>fd q D1 v D2 r v'. ipc_clients (dm_ipc (fst (snd st))) cid = Some fd
          \<and> (queue_step K S)\<^sup>*\<^sup>* st (a # q, D1, v) \<and> queue_step K S (a # q, D1, v) (q, D2, k_close K fd v')
          \<and> transmitted K fd (length_header (response_payload S resp)) (response_payload S resp)
              (snd (k_std K v)) r v'))"

lemma reply_round_answers:
  assumes K: "calls_return K" and wf: "wf_ipc (dm_ipc D)" and a: "tail_action a" "reply_of a = Some (i, resp)"
    and to: "(queue_step K S)\<^sup>*\<^sup>* st (a # q, D, v)" and same: "dm_ipc D = dm_ipc (fst (snd st))"
  shows "\<exists>m v'. queue_body K S (a # q, D, v) = Some (Inr (q, D\<lparr>dm_ipc := m\<rparr>, v'))
    \<and> (\<forall>D'. dm_ipc D' = m \<longrightarrow> job_answered K S i a resp st D')"
proof (cases "ipc_job_client (dm_ipc D) i")
  case None
  have "queue_body K S (a # q, D, v) = Some (Inr (q, D\<lparr>dm_ipc := dm_ipc D\<rparr>, snd (k_std K v)))"
    by (rule reply_round [OF a(1) _ intercept_silent(2) [OF a(2) None]]) (simp add: a(2))
  then show ?thesis using None by (intro exI conjI) (auto simp: job_answered_def same)
next
  case (Some cid)
  from K have w: "\<forall>fd. writes_return K fd" "write_bounded K" by (simp_all add: calls_return_def)
  from reply_sent [OF wf a(2) Some w, where S = S and w = "snd (k_std K v)"] obtain fd r v' where
    s: "ipc_clients (dm_ipc D) cid = Some fd"
      "transmitted K fd (length_header (response_payload S resp)) (response_payload S resp) (snd (k_std K v)) r v'"
      "intercept_action K S a (dm_ipc D) (snd (k_std K v)) = Some (forget_client i cid (dm_ipc D), k_close K fd v')"
    by blast
  let ?D = "D\<lparr>dm_ipc := forget_client i cid (dm_ipc D)\<rparr>"
  have run: "queue_body K S (a # q, D, v) = Some (Inr (q, ?D, k_close K fd v'))"
    by (rule reply_round [OF a(1) _ s(3)]) (simp add: a(2))
  have "job_answered K S i a resp st D'" if "dm_ipc D' = forget_client i cid (dm_ipc D)" for D'
    using that Some s(1,2) to run [folded queue_step_def] unfolding job_answered_def same [symmetric]
    by (simp only: option.case) blast
  with run show ?thesis by blast
qed

lemma submit_outcome_lemma:
  assumes K: "std_laws K" "calls_return K" and W: "working ([Submit i u x p], D, w)"
    and slots: "active_jobs (d_admission (dm_core D)) < max_jobs (d_admission (dm_core D))"
  shows "\<exists>D' w' r v v' j. work_queue K S [Submit i u x p] D w = Some (D', w')
    \<and> spawn_start K i (spawn_request x p) v = Some (r, v')
    \<and> active_jobs (d_admission (dm_core D')) = active_jobs (d_admission (dm_core D)) + 1
    \<and> (case r of
        Inr _ \<Rightarrow> job_answered K S i (Started i) (RespExec i) ([Submit i u x p], D, w) D'
      | Inl _ \<Rightarrow> job_answered K S i (Rejected i) RespError ([Submit i u x p], D, w) D')
    \<and> jobs (dm_state D') = (jobs (dm_state D))(i \<mapsto> j) \<and> job_owner j = u
    \<and> submission_end i D D' j r"
proof -
  let ?st = "([Submit i u x p], D, w)"
  from slots obtain D1 w1 where 1: "queue_body K S ?st = Some (Inr ([Admitted i u x p], D1, w1))"
    "D1 = D\<lparr>dm_core := (dm_core D)\<lparr>d_admission := (d_admission (dm_core D))
       \<lparr>active_jobs := active_jobs (d_admission (dm_core D)) + 1\<rparr>\<rparr>\<rparr>" by (rule submit_admitted)
  obtain D2 w2 where 2: "queue_body K S ([Admitted i u x p], D1, w1) =
      Some (Inr ([StartProcess i x p, EmitLog Info (Log_Submit i)], D2, w2))"
    "d_admission (dm_core D2) = d_admission (dm_core D1)"
    "dm_state D2 = (dm_state D1)\<lparr>jobs := (jobs (dm_state D1))(i \<mapsto> new_job i u),
       lifecycle := (lifecycle (dm_state D1))(i \<mapsto> Lc_Admitted)\<rparr>"
    "dm_ipc D2 = dm_ipc D1" "dm_exec D2 = dm_exec D1" by (rule admitted_starting)
  note W1 = queue_round(1) [OF K W 1(1)]
  note W2 = queue_round(1) [OF K W1 2(1)]
  have "jobs (dm_state D2) i = Some (new_job i u)" by (simp add: 2(3))
  then obtain q D3 w3 r v v' where
    3: "queue_body K S ([StartProcess i x p, EmitLog Info (Log_Submit i)], D2, w2) =
      Some (Inr (EmitLog Info (Log_Submit i) # (case r of Inr _ \<Rightarrow> Started i | Inl _ \<Rightarrow> Rejected i) # q, D3, w3))"
    "\<forall>a \<in> set q. tail_action a \<and> reply_of a = None"
    "spawn_start K i (spawn_request x p) v = Some (r, v')" "dm_core D3 = dm_core D2" "dm_ipc D3 = dm_ipc D2" and
    out: "case r of
       Inr rp \<Rightarrow> (let pr = ProcessHandle (ex_next_handle (dm_exec D2));
           io = IoHandle (ex_next_handle (dm_exec D2) + 1)
         in dm_state D3 = (dm_state D2)
              \<lparr>jobs := (jobs (dm_state D2))(i \<mapsto> (new_job i u)\<lparr>job_process := Some pr, job_io := Some io\<rparr>),
               lifecycle := (lifecycle (dm_state D2))(i \<mapsto> Lc_Running)\<rparr>
            \<and> ex_processes (dm_exec D3) = (ex_processes (dm_exec D2))(pr \<mapsto> run_process rp)
            \<and> ex_drains (dm_exec D3) = (ex_drains (dm_exec D2))(io \<mapsto> run_drain rp))
     | Inl e \<Rightarrow> dm_state D3 = (dm_state D2)\<lparr>lifecycle := (lifecycle (dm_state D2))(i \<mapsto> Lc_Finished)\<rparr>
         \<and> dm_exec D3 = dm_exec D2"
    by (rule starting_outcome [OF K(2), of D2 i "new_job i u" S x p Info "Log_Submit i" w2])
  let ?a = "case r of Inr _ \<Rightarrow> Started i | Inl _ \<Rightarrow> Rejected i"
  let ?resp = "case r of Inr _ \<Rightarrow> RespExec i | Inl _ \<Rightarrow> RespError"
  define D4 where "D4 = logged Info (Log_Submit i) D3"
  have 4: "queue_body K S (EmitLog Info (Log_Submit i) # ?a # q, D3, w3) = Some (Inr (?a # q, D4, snd (k_std K w3)))"
    unfolding D4_def by (rule log_round)
  note W3 = queue_round(1) [OF K W2 3(1)]
  note W4 = queue_round(1) [OF K W3 4]
  have a: "tail_action ?a" "reply_of ?a = Some (i, ?resp)"
    by (cases r; simp add: tail_action_def reply_of_def)+
  have to: "(queue_step K S)\<^sup>*\<^sup>* ?st (?a # q, D4, snd (k_std K w3))"
    using 1(1) 2(1) 3(1) 4 by (meson converse_rtranclp_into_rtranclp queue_step_def rtranclp.rtrancl_refl)
  have wf: "wf_ipc (dm_ipc D4)" using W4 by (simp add: working_def daemon_ok_def)
  have same: "dm_ipc D4 = dm_ipc (fst (snd ?st))" using 1(2) 2(4) 3(5) by (simp add: D4_def)
  from reply_round_answers [OF K(2) wf a to same] obtain m w5 where
    5: "queue_body K S (?a # q, D4, snd (k_std K w3)) = Some (Inr (q, D4\<lparr>dm_ipc := m\<rparr>, w5))"
    and ans: "\<And>D'. dm_ipc D' = m \<Longrightarrow> job_answered K S i ?a ?resp ?st D'" by blast
  let ?D = "D4\<lparr>dm_ipc := m\<rparr>"
  from work_queue_ok [OF K queue_round(1) [OF K W4 5]] obtain D' w' where
    run: "work_queue K S q ?D w5 = Some (D', w')" by blast
  have "tailing ?D (q, ?D, w5)" using 3(2) by (simp add: tailing_def)
  from work_queue_tail [OF run this] have T: "brain D' = brain D3" "dm_ipc D' = m"
    "ex_processes (dm_exec D') = ex_processes (dm_exec D3)" "ex_drains (dm_exec D') = ex_drains (dm_exec D3)"
    by (simp_all add: tailing_def D4_def)
  have all: "work_queue K S [Submit i u x p] D w = Some (D', w')"
    using run by (simp add: work_queue_again [OF 1(1)] work_queue_again [OF 2(1)] work_queue_again [OF 3(1)]
        work_queue_again [OF 4] work_queue_again [OF 5])
  have answer: "case r of Inr _ \<Rightarrow> job_answered K S i (Started i) (RespExec i) ?st D'
      | Inl _ \<Rightarrow> job_answered K S i (Rejected i) RespError ?st D'"
    using ans [OF T(2)] by (cases r) simp_all
  have act: "active_jobs (d_admission (dm_core D')) = active_jobs (d_admission (dm_core D)) + 1"
    using T(1) 3(4) 2(2) 1(2) by simp
  have "handles_left 2 (dm_exec D)" "handles_below (dm_exec D)"
    using W by (auto simp: working_def daemon_ok_def handles_left_def)
  note fresh = fresh_handles(1,2) [OF this(2,1)]
  have state: "dm_state D' = dm_state D3" using T(1) by simp
  define j where "j = (case r of Inl _ \<Rightarrow> new_job i u
    | Inr _ \<Rightarrow> (new_job i u)\<lparr>job_process := Some (ProcessHandle (ex_next_handle (dm_exec D))),
        job_io := Some (IoHandle (ex_next_handle (dm_exec D) + 1))\<rparr>)"
  have done': "jobs (dm_state D') = (jobs (dm_state D))(i \<mapsto> j) \<and> job_owner j = u \<and> submission_end i D D' j r"
    using out T(3,4) state 1(2) 2(3,5) fresh
    by (cases r) (simp_all add: submission_end_def new_job_def Let_def j_def)
  show ?thesis
    by (rule exI [of _ D'], rule exI [of _ w'], rule exI [of _ r], rule exI [of _ v], rule exI [of _ v'],
        rule exI [of _ j]) (intro conjI all 3(3) act answer done' [THEN conjunct1]
        done' [THEN conjunct2, THEN conjunct1] done' [THEN conjunct2, THEN conjunct2])
qed

section \<open>Properties\<close>

text \<open>C2: The queue of actions is always worked off. However the answers of the core feed back into
  the queue, the loop of \<open>run_daemon\<close> that pops it ends, because every action is replaced by
  strictly less work; it keeps the daemon's invariant (in particular no two jobs ever share a
  process or stream handle, and a job's handles are registered), and of the open descriptors
  only those of clients and drains can have come or gone.\<close>

theorem queue_drains:
  assumes "daemon_laws K opn" and "daemon_ok D" and "handles_left (2 * queue_weight q) (dm_exec D)"
  shows "\<exists>D' w'. work_queue K S q D w = Some (D', w') \<and> daemon_ok D'
    \<and> opn w' - answers_for D' = opn w - answers_for D"
proof -
  have "working (q, D, w)" using assms(2,3) by (simp add: working_def)
  moreover from this work_queue_ok [of K q D w S] assms(1) obtain D' w' where
    "work_queue K S q D w = Some (D', w')" "daemon_ok D'" by (auto simp: daemon_laws_def)
  ultimately show ?thesis using work_queue_fds [OF assms(1)] by blast
qed

text \<open>C1: The daemon keeps running. With at most \<open>N\<close> connections waiting at a time, every iteration
  after a successful set-up (wait, serve the clients, answer the events, work the queue off)
  returns, whatever the clients sent, whatever the system calls answered and however many
  processes could not be started. After any number \<open>n\<close> of them, up to the point where client
  ids or handles could have been used up, the invariant holds and the books balance: the open
  descriptors are those from before, the epoll instance, the socket, and the descriptors held
  for clients and drains, each of which is open.\<close>

theorem daemon_runs:
  assumes "loop_laws K opn bl N" and "setup_laws K opn" and "daemon_start K w = (Inr D0, w0)"
    and "n * N < 2 ^ 32" and "n * (386 * N + 256) + 1 < 2 ^ 64"
  shows "\<exists>D v. iterations K S n D0 w0 = Some (D, v) \<and> daemon_ok D \<and> answers_for D \<subseteq> opn v
    \<and> opn v - answers_for D = {epfd (ex_reactor (dm_exec D0)), ipc_fd (dm_ipc D0)} \<union> opn w"
  using assms(2,3)
proof (cases rule: daemon_start_cases)
  case (ready ep fd)
  have D0: "D0 = \<lparr>dm_core = dispatcher_new, dm_state = execution_state_new,
      dm_exec = executor_new \<lparr>epfd = ep, next_token = 1, signalfd = None, sigchld_token = None\<rparr>,
      dm_ipc = ipc_new fd router_new ipc_token\<rparr>" using ready(1) by simp
  have "n * N \<le> 2 ^ 32 - 1" using assms(4) by simp
  note start = daemon_start_ok(1,3) [OF D0] daemon_start_ok(4) [OF D0 this] daemon_start_ok(5) [OF D0 assms(5)]
  from iterations_ok [where w = w0 and n = n and S = S, OF assms(1) start(1,2)] start(3,4) obtain D v where
    D: "iterations K S n D0 w0 = Some (D, v)" "daemon_ok D" "books opn D v"
      "opn v - answers_for D = opn w0 - answers_for D0" by blast
  have "epfd (ex_reactor (dm_exec D0)) = ep" "ipc_fd (dm_ipc D0) = fd"
    by (simp_all add: D0 executor_new_def ipc_new_def)
  with D books_open [OF D(3)] daemon_start_ok(2) [OF D0] ready(4) show ?thesis by simp
qed simp

section \<open>Closed instances\<close>

text \<open>A kernel that always reports the server's socket as readable, with nobody connecting.\<close>

definition loop_kernel :: "i32 set kernel" where
  "loop_kernel = table_kernel\<lparr>k_epoll_wait := \<lambda>ep n t w. (Some (take n [(1, 1)]), w),
     k_epoll_create1 := \<lambda>w. if 100 \<in> w then (-1, w) else (100, insert 100 w),
     k_socket := \<lambda>w. if 101 \<in> w then (-1, w) else (101, insert 101 w),
     k_epoll_ctl := \<lambda>ep fd op w. (0, w)\<rparr>"

lemma loop_kernel_loop_laws: "loop_laws loop_kernel table_fds (\<lambda>_. 0) 0"
proof -
  have "exec_laws loop_kernel table_fds"
    using table_exec_laws
    by (simp add: loop_kernel_def exec_laws_def fd_laws_def closes_fds_def transfers_keep_def
        read_bounded_def write_bounded_def)
  moreover have "\<not> interrupted loop_kernel (k_read loop_kernel fd n) w w'"
    "\<not> interrupted loop_kernel (k_write loop_kernel fd bs) w w'"
    "\<not> interrupted loop_kernel (k_waitpid loop_kernel pid) w w'"
    "\<not> busy_read loop_kernel fd w w'" for fd n bs pid w w'
    by (simp_all add: interrupted_def busy_read_def loop_kernel_def table_kernel_def quiet_kernel_def
        EINTR_def)
  then have "calls_return loop_kernel"
    by (simp add: calls_return_def reads_end_def writes_return_def waits_end_def wfp_on_def)
      (simp add: write_bounded_def loop_kernel_def table_kernel_def quiet_kernel_def)
  moreover have "std_laws loop_kernel"
    by (simp add: std_laws_def loop_kernel_def table_kernel_def quiet_kernel_def)
  moreover have "accept_laws loop_kernel table_fds (\<lambda>_. 0)"
    by (auto simp: accept_laws_def closes_fds_def socket_keep_def transfers_keep_def loop_kernel_def
        table_kernel_def quiet_kernel_def table_fds_def)
  ultimately show ?thesis
    by (simp add: loop_laws_def daemon_laws_def loop_kernel_def table_kernel_def quiet_kernel_def)
qed

definition fresh_daemon :: daemon where
  "fresh_daemon = \<lparr>dm_core = dispatcher_new, dm_state = execution_state_new, dm_exec = fresh_executor,
     dm_ipc = ipc_new 4 router_new 1\<rparr>"

lemma fresh_daemon_ok: "daemon_ok fresh_daemon"
  using fresh_executor_ok(1) wf_state_new
  by (simp add: daemon_ok_def fresh_daemon_def wf_dispatcher_new wf_state_new wf_ipc_new
      handles_ok_def execution_state_new_def)

lemma fresh_daemon_handles: "n < 2 ^ 63 \<Longrightarrow> handles_left n (dm_exec fresh_daemon)"
  by (simp add: handles_left_def fresh_daemon_def fresh_executor_def executor_new_def)

lemma queue_drains_witness:
  "\<exists>D' w'. work_queue loop_kernel no_json [first_submit] fresh_daemon {0, 1, 2, 3, 4} = Some (D', w')
     \<and> daemon_ok D' \<and> table_fds w' - answers_for D' = {0, 1, 2, 3, 4}"
proof -
  have K: "daemon_laws loop_kernel table_fds" using loop_kernel_loop_laws by (simp add: loop_laws_def)
  have none: "answers_for fresh_daemon = {}" "table_fds {0, 1, 2, 3, 4} = {0, 1, 2, 3, 4}"
    by (auto simp: answers_for_def fresh_daemon_def ipc_new_def held_def owned_def fresh_executor_def
        executor_new_def table_fds_def)
  have "handles_left (2 * queue_weight [first_submit]) (dm_exec fresh_daemon)"
    by (rule fresh_daemon_handles) (simp add: first_submit_def)
  from queue_drains [OF K fresh_daemon_ok this, of no_json "{0, 1, 2, 3, 4}"] none show ?thesis by simp
qed

text \<open>C34: Setting up and stopping. Whatever fails before the loop, every descriptor opened so far
  is closed again and the error is returned; otherwise the daemon starts in its invariant with
  exactly two new descriptors, the epoll instance and the socket. After that \<open>run_daemon\<close>
  never returns: the only way out is a set-up error.\<close>

theorem daemon_stops_only_at_setup:
  assumes "setup_laws K opn" and "daemon_start K w = (r, w')"
  shows "(case r of Inl e \<Rightarrow> opn w' = opn w \<and> run_daemon K S w = Some (Inl e, w')
    | Inr D \<Rightarrow> daemon_ok D \<and> answers_for D = {} \<and> run_daemon K S w = None
        \<and> opn w' = {epfd (ex_reactor (dm_exec D)), ipc_fd (dm_ipc D)} \<union> opn w
        \<and> {epfd (ex_reactor (dm_exec D)), ipc_fd (dm_ipc D)} \<inter> opn w = {})"
proof -
  from assms show ?thesis
  proof (cases rule: daemon_start_cases)
    case (failed e)
    with assms(2) show ?thesis by (simp add: run_daemon_def)
  next
    case (ready ep fd)
    let ?D = "\<lparr>dm_core = dispatcher_new, dm_state = execution_state_new,
       dm_exec = executor_new \<lparr>epfd = ep, next_token = 1, signalfd = None, sigchld_token = None\<rparr>,
       dm_ipc = ipc_new fd router_new ipc_token\<rparr>"
    have "ex_reactor (dm_exec ?D) = \<lparr>epfd = ep, next_token = 1, signalfd = None, sigchld_token = None\<rparr>"
      "ipc_fd (dm_ipc ?D) = fd" by (simp_all add: ipc_new_def executor_new_def)
    with daemon_start_ok(1,2) [of ?D, OF refl] ready assms(2) show ?thesis by (simp add: run_daemon_def run_daemon_loops)
  qed
qed

lemma loop_kernel_start:
  "\<exists>D w'. daemon_start loop_kernel {0, 1, 2} = (Inr D, w') \<and> dm_ipc D = ipc_new 101 router_new 1
     \<and> handles_left 256 (dm_exec D) \<and> daemon_ok D"
proof -
  let ?r = "\<lparr>epfd = 100, next_token = 1, signalfd = None, sigchld_token = None\<rparr>"
  let ?D = "\<lparr>dm_core = dispatcher_new, dm_state = execution_state_new, dm_exec = executor_new ?r,
      dm_ipc = ipc_new 101 router_new ipc_token\<rparr>"
  have "handles_left 256 (dm_exec ?D)" by (rule daemon_start_ok(5) [OF refl]) simp
  with daemon_start_ok(1) [of ?D, OF refl] show ?thesis
    by (simp add: daemon_start_def reactor_new_def loop_kernel_def syscall_ret_def fd_new_def
        add_with_token_def ipc_token_def)
qed

lemma daemon_stops_only_at_setup_witness:
  "run_daemon loop_kernel no_json {0, 1, 2} = None \<and> (\<exists>D. daemon_start loop_kernel {0, 1, 2} = (Inr D, {0, 1, 2, 100, 101}))"
proof -
  have laws: "setup_laws loop_kernel (\<lambda>w. w)"
    by (simp add: setup_laws_def opens_def closes_fds_def loop_kernel_def table_kernel_def)
  obtain D w' where D: "daemon_start loop_kernel {0, 1, 2} = (Inr D, w')" "dm_ipc D = ipc_new 101 router_new 1"
    using loop_kernel_start by blast
  moreover have "w' = {0, 1, 2, 100, 101}"
    using D(1) by (auto simp: daemon_start_def reactor_new_def loop_kernel_def syscall_ret_def fd_new_def
        add_with_token_def ipc_token_def)
  ultimately show ?thesis using daemon_stops_only_at_setup [OF laws D(1), of no_json] by auto
qed

lemma daemon_runs_witness:
  "\<exists>D0 w0 D v. daemon_start loop_kernel {0, 1, 2} = (Inr D0, w0)
     \<and> iterations loop_kernel no_json 1000 D0 w0 = Some (D, v) \<and> daemon_ok D
     \<and> {0, 1, 2} \<subseteq> table_fds v"
proof -
  obtain D0 w0 where D0: "daemon_start loop_kernel {0, 1, 2} = (Inr D0, w0)"
    using loop_kernel_start by blast
  have laws: "setup_laws loop_kernel table_fds"
    by (auto simp: setup_laws_def opens_def closes_fds_def loop_kernel_def table_kernel_def table_fds_def)
  have "(1000 * 0 :: nat) < 2 ^ 32" "1000 * (386 * 0 + 256) + 1 < (2 ^ 64 :: nat)" by simp_all
  from daemon_runs [OF loop_kernel_loop_laws laws D0 this, of no_json] obtain D v where
    "iterations loop_kernel no_json 1000 D0 w0 = Some (D, v)" "daemon_ok D"
    "table_fds {0, 1, 2} \<subseteq> table_fds v" by blast
  with D0 show ?thesis by (auto simp: table_fds_def)
qed

text \<open>C3: The way of a submission. While a slot is free, a submitted job takes exactly one and enters
  the job table under its owner; all other jobs are untouched. If the process could be started,
  the job is running and its two handles are new and stand for that process and its streams; if
  it could not, the job is marked finished, but it stays in the job table and keeps its slot. In
  both cases its client, if one waits, is answered: its response (the job's id if the process was
  started, an error if not) is transmitted on the client's descriptor, the descriptor is closed,
  and this client and no other is forgotten.\<close>

theorem submit_outcome:
  assumes "daemon_laws K opn" and "daemon_ok D" and "handles_left 386 (dm_exec D)"
    and "active_jobs (d_admission (dm_core D)) < max_jobs (d_admission (dm_core D))"
  shows "\<exists>D' w' r v v' j. work_queue K S [Submit i u x p] D w = Some (D', w')
    \<and> spawn_start K i (spawn_request x p) v = Some (r, v')
    \<and> active_jobs (d_admission (dm_core D')) = active_jobs (d_admission (dm_core D)) + 1
    \<and> (case r of
        Inr _ \<Rightarrow> job_answered K S i (Started i) (RespExec i) ([Submit i u x p], D, w) D'
      | Inl _ \<Rightarrow> job_answered K S i (Rejected i) RespError ([Submit i u x p], D, w) D')
    \<and> jobs (dm_state D') = (jobs (dm_state D))(i \<mapsto> j) \<and> job_owner j = u
    \<and> submission_end i D D' j r"
proof -
  have "std_laws K" "calls_return K" "working ([Submit i u x p], D, w)"
    using assms(1-3) by (simp_all add: daemon_laws_def working_def)
  then show ?thesis using assms(4) by (rule submit_outcome_lemma)
qed

text \<open>A daemon in which one client waits, for job 5.\<close>

definition waiting_daemon :: daemon where
  "waiting_daemon = fresh_daemon\<lparr>dm_ipc := one_waiting\<rparr>"

lemma submit_outcome_witness:
  "\<exists>D' w'. work_queue loop_kernel no_json [Submit 5 7 demo_spec demo_policy] waiting_daemon {0, 1, 2, 3, 4, 9} = Some (D', w')
     \<and> active_jobs (d_admission (dm_core D')) = 1 \<and> 5 \<in> dom (jobs (dm_state D'))
     \<and> ipc_clients one_waiting 1 = Some 9 \<and> ipc_clients (dm_ipc D') 1 = None"
proof -
  have K: "daemon_laws loop_kernel table_fds" using loop_kernel_loop_laws by (simp add: loop_laws_def)
  have ok: "daemon_ok waiting_daemon"
    using fresh_daemon_ok one_waiting_wf by (simp add: daemon_ok_def waiting_daemon_def)
  have n: "handles_left 386 (dm_exec waiting_daemon)"
    using fresh_daemon_handles [of 386] by (simp add: waiting_daemon_def)
  have a: "active_jobs (d_admission (dm_core waiting_daemon)) = 0" "max_jobs (d_admission (dm_core waiting_daemon)) = 64"
    by (simp_all add: waiting_daemon_def fresh_daemon_def dispatcher_new_def admission_default_def)
  then have slots: "active_jobs (d_admission (dm_core waiting_daemon)) < max_jobs (d_admission (dm_core waiting_daemon))"
    by simp
  have m: "dm_ipc waiting_daemon = one_waiting" "ipc_job_client one_waiting 5 = Some 1" "ipc_clients one_waiting 1 = Some 9"
    by (simp_all add: waiting_daemon_def one_waiting_def)
  let ?w = "{0, 1, 2, 3, 4, 9} :: i32 set"
  from submit_outcome [OF K ok n slots, of no_json 5 7 demo_spec demo_policy ?w]
  obtain D' w' r j where
    D': "work_queue loop_kernel no_json [Submit 5 7 demo_spec demo_policy] waiting_daemon ?w = Some (D', w')"
      "active_jobs (d_admission (dm_core D')) = active_jobs (d_admission (dm_core waiting_daemon)) + 1"
      "jobs (dm_state D') = (jobs (dm_state waiting_daemon))(5 \<mapsto> j)" and
    ans: "case r of
        Inr (_ :: running_process) \<Rightarrow> job_answered loop_kernel no_json 5 (Started 5) (RespExec 5)
          ([Submit 5 7 demo_spec demo_policy], waiting_daemon, ?w) D'
      | Inl (_ :: sys_error) \<Rightarrow> job_answered loop_kernel no_json 5 (Rejected 5) RespError
          ([Submit 5 7 demo_spec demo_policy], waiting_daemon, ?w) D'"
    by blast
  from ans have "dm_ipc D' = forget_client 5 1 one_waiting"
    by (cases r) (simp_all add: job_answered_def m)
  with D' a(1) m(3) show ?thesis by simp
qed

text \<open>C33: No job ever finishes. From the start of the daemon on, over any number of iterations and
  whatever the kernel and the clients do, jobs never leave the job table, slots are never returned
  and no result is ever stored: the exit of a process is only noticed by \<open>PollProcess\<close>, which
  nothing emits. So every query is answered with "no result", and once 64 jobs have been admitted
  every further submission is rejected for ever.\<close>

theorem jobs_never_finish:
  assumes "daemon_start K w = (Inr D0, w0)" and "iterations K S n D0 w0 = Some (D, v)"
    and "iterations K S k D v = Some (D', v')"
  shows "dom (jobs (dm_state D)) \<subseteq> dom (jobs (dm_state D'))
    \<and> active_jobs (d_admission (dm_core D)) \<le> active_jobs (d_admission (dm_core D'))
    \<and> results (dm_state D') = Map.empty
    \<and> dispatch e (dm_core D') (dm_state D') (Query i) = ([QueryResult i None], dm_core D', dm_state D')
    \<and> (64 \<le> active_jobs (d_admission (dm_core D)) \<longrightarrow>
         dispatch e (dm_core D') (dm_state D') (Submit i u x p) =
           ([Rejected i, EmitLog LevelError (Log_Error i (max_jobs_message 64))], dm_core D', dm_state D'))"
proof -
  obtain r fd where D0: "D0 = \<lparr>dm_core = dispatcher_new, dm_state = execution_state_new,
    dm_exec = executor_new r, dm_ipc = ipc_new fd router_new ipc_token\<rparr>"
    using daemon_start_state [OF assms(1)] by blast
  have g: "grows (brain D0) (brain D)" "grows (brain D) (brain D')"
    using iterations_running [OF assms(2)] iterations_running [OF assms(3)] .
  have "results (dm_state D') = Map.empty" "max_jobs (d_admission (dm_core D')) = 64"
    using g by (auto simp: grows_def D0 execution_state_new_def dispatcher_new_def admission_default_def)
  with g(2) show ?thesis by (auto simp: grows_def handler_defs)
qed

lemma jobs_never_finish_witness:
  "\<exists>D0 w0 D' v'. daemon_start loop_kernel {0, 1, 2} = (Inr D0, w0)
     \<and> iterations loop_kernel no_json 1 D0 w0 = Some (D', v') \<and> results (dm_state D') = Map.empty"
proof -
  obtain D0 w0 where D0: "daemon_start loop_kernel {0, 1, 2} = (Inr D0, w0)"
    "dm_ipc D0 = ipc_new 101 router_new 1" "handles_left 256 (dm_exec D0)" "daemon_ok D0"
    using loop_kernel_start by blast
  have m: "held (dm_ipc D0) \<subseteq> table_fds w0" "free_ids 0 (dm_ipc D0)" "handles_left (386 * 0 + 256) (dm_exec D0)"
    using D0(2,3) by (simp_all add: held_def ipc_new_def free_ids_def)
  from daemon_iteration_ok [OF loop_kernel_loop_laws D0(4) m(1) _ m(3), of 0 no_json] m(2) obtain D' v' where
    "iterations loop_kernel no_json 1 D0 w0 = Some (D', v')" by (auto simp: One_nat_def)
  with jobs_never_finish [OF D0(1) this, of 0] D0(1) show ?thesis by auto
qed

text \<open>C38: A cancellation that does nothing is not answered. When the job to be cancelled is unknown,
  has not been started or has already been told to stop, the request is worked off, wherever it
  stands in the queue, by dropping it: nothing is sent and nothing changes in the daemon. The
  client that asked keeps waiting, connected, through whatever actions follow, unless one of them
  happens to be a reply for the same job.\<close>

theorem cancel_unanswered:
  assumes "case jobs (dm_state D) i of None \<Rightarrow> True | Some j \<Rightarrow> job_process j = None \<or> job_timed_out j"
    and "wf_ipc (dm_ipc D)" and "ipc_job_client (dm_ipc D) i = Some cid"
  shows "queue_body K S (Control i signal # q, D, w) = Some (Inr (q, D, snd (k_std K w)))
    \<and> (\<forall>later v m' v'. (\<forall>a \<in> set later. \<forall>resp. reply_of a \<noteq> Some (i, resp)) \<and>
         intercept_all K S later (dm_ipc D) v = Some (m', v') \<longrightarrow>
         ipc_job_client m' i = Some cid \<and> ipc_clients m' cid = ipc_clients (dm_ipc D) cid \<and> ipc_clients m' cid \<noteq> None)"
proof (intro conjI)
  obtain e w1 where e: "k_std K w = (e, w1)" by fastforce
  with assms(1) show "queue_body K S (Control i signal # q, D, w) = Some (Inr (q, D, snd (k_std K w)))"
    by (auto simp: queue_body_def core_act_def handler_defs resolve_effects_single
        intercept_silent reply_of_def split: option.splits)
  have "ipc_clients (dm_ipc D) cid \<noteq> None" using assms(2,3) by (auto simp: wf_ipc_def ran_def)
  with intercept_all_other [OF _ assms(2,3)] show "\<forall>later v m' v'.
      (\<forall>a \<in> set later. \<forall>resp. reply_of a \<noteq> Some (i, resp)) \<and> intercept_all K S later (dm_ipc D) v = Some (m', v') \<longrightarrow>
         ipc_job_client m' i = Some cid \<and> ipc_clients m' cid = ipc_clients (dm_ipc D) cid \<and> ipc_clients m' cid \<noteq> None"
    by metis
qed

lemma cancel_unanswered_witness:
  "queue_body loop_kernel no_json ([Control 5 GracefulStop, Query 9], waiting_daemon, {0, 1, 2}) =
    Some (Inr ([Query 9], waiting_daemon, {0, 1, 2}))"
proof -
  have "jobs (dm_state waiting_daemon) 5 = None"
    by (simp add: waiting_daemon_def fresh_daemon_def execution_state_new_def)
  moreover have "dm_ipc waiting_daemon = one_waiting" by (simp add: waiting_daemon_def)
  moreover have "ipc_job_client one_waiting 5 = Some 1" by (simp add: one_waiting_def)
  ultimately have "queue_body loop_kernel no_json (Control 5 GracefulStop # [Query 9], waiting_daemon, {0, 1, 2})
      = Some (Inr ([Query 9], waiting_daemon, snd (k_std loop_kernel {0, 1, 2})))"
    using one_waiting_wf by (intro cancel_unanswered [THEN conjunct1]) simp_all
  then show ?thesis by (simp add: loop_kernel_def table_kernel_def quiet_kernel_def)
qed

end
