(* ===== verification/ChildWiring.thy ===== *)
theory ChildWiring
  imports SpawnFds
begin

text \<open>
  From the calls of \<open>src/low_level/spawn/mod.rs\<close> to what the child has open. The laws of a
  descriptor table \<open>tbl\<close> say what the system calls do to it; under them \<open>Pipes::new\<close> makes good
  pipes, the closes collected from \<open>/proc/self/fd\<close> cover every inheritable descriptor,
  \<open>close_range_fast\<close> closes everything above 2 by either of its two routes, and so both back ends
  implement \<open>wired\<close>.
\<close>

section \<open>Laws of the descriptor table\<close>

text \<open>
  \<open>dup2\<close> of an open descriptor onto a standard one succeeds; \<open>close_range\<close> closes its range or, if
  it fails, nothing; a listing of \<open>/proc/self/fd\<close> names every open descriptor, in decimal; and a
  close action can be added for an open descriptor.
\<close>

definition table_laws :: "'w kernel \<Rightarrow> ('w \<Rightarrow> 'f fd_table) \<Rightarrow> bool" where
  "table_laws K tbl \<longleftrightarrow>
     (\<forall>w fd. tbl w fd \<noteq> None \<longrightarrow> 0 \<le> fd \<and> fd \<le> i32_max)
   \<and> (\<forall>w fd. tbl (k_close K fd w) = (tbl w)(fd := None))
   \<and> (\<forall>w a b f c. tbl w a = Some (f, c) \<and> 0 \<le> b \<and> b \<le> 2 \<longrightarrow>
        tbl (snd (k_dup2 K a b w)) = (if a = b then tbl w else (tbl w)(b \<mapsto> (f, False))))
   \<and> (\<forall>w a b r w'. k_close_range K a b w = (r, w') \<longrightarrow> tbl w' =
        (if r = 0 then (\<lambda>fd. if uint a \<le> fd \<and> fd \<le> uint b then None else tbl w fd) else tbl w))
   \<and> (\<forall>w d w'. k_open_proc_fd K w = (d, w') \<longrightarrow>
        (if d < 0 then tbl w' = tbl w
         else tbl w d = None \<and> (\<exists>f. tbl w' = (tbl w)(d \<mapsto> (f, True)))))
   \<and> (\<forall>w d ns w'. k_read_dir K d w = (ns, w') \<longrightarrow> tbl w' = tbl w \<and>
        (\<forall>names. ns = Some names \<longrightarrow> dec_int ` dom (tbl w) \<subseteq> set names))
   \<and> (\<forall>w fd. tbl w fd \<noteq> None \<longrightarrow> fst (k_file_action K (AddClose fd) w) = 0)
   \<and> (\<forall>w a. tbl (snd (k_file_action K a w)) = tbl w)"

text \<open>In this world, \<open>/proc/self/fd\<close> can be opened and listed.\<close>

definition can_list :: "'w kernel \<Rightarrow> 'w \<Rightarrow> bool" where
  "can_list K w \<longleftrightarrow> (case k_open_proc_fd K w of (d, w) \<Rightarrow> 0 \<le> d \<and> fst (k_read_dir K d w) \<noteq> None)"

text \<open>The calls of the forked child that touch descriptors, on the kernel's state.\<close>

definition child_fd_step :: "'w kernel \<Rightarrow> child_call \<Rightarrow> 'w \<Rightarrow> 'w" where
  "child_fd_step K c w =
     (case c of
        Dup2 a b \<Rightarrow> snd (k_dup2 K a b w)
      | CloseRange keep \<Rightarrow> close_range_fast K keep w
      | _ \<Rightarrow> w)"

lemma table_laws_facts:
  assumes "table_laws K tbl"
  shows "tbl w fd = Some x \<Longrightarrow> 0 \<le> fd \<and> fd \<le> i32_max"
    and "tbl (k_close K fd w) = (tbl w)(fd := None)"
    and "tbl w a = Some (f, c) \<Longrightarrow> 0 \<le> b \<Longrightarrow> b \<le> 2 \<Longrightarrow>
      tbl (snd (k_dup2 K a b w)) = (if a = b then tbl w else (tbl w)(b \<mapsto> (f, False)))"
    and "k_close_range K lo hi w = (r, w') \<Longrightarrow> tbl w' =
      (if r = 0 then (\<lambda>fd. if uint lo \<le> fd \<and> fd \<le> uint hi then None else tbl w fd) else tbl w)"
    and "k_open_proc_fd K w = (d, w') \<Longrightarrow> d < 0 \<Longrightarrow> tbl w' = tbl w"
    and "k_open_proc_fd K w = (d, w') \<Longrightarrow> \<not> d < 0 \<Longrightarrow>
      tbl w d = None \<and> (\<exists>f. tbl w' = (tbl w)(d \<mapsto> (f, True)))"
    and "k_read_dir K d w = (ns, w') \<Longrightarrow> tbl w' = tbl w"
    and "k_read_dir K d w = (Some names, w') \<Longrightarrow> dec_int ` dom (tbl w) \<subseteq> set names"
    and "tbl w fd = Some x \<Longrightarrow> fst (k_file_action K (AddClose fd) w) = 0"
    and "tbl (snd (k_file_action K act w)) = tbl w"
proof -
  note L = assms [unfolded table_laws_def]
  note bound = L [THEN conjunct1] and r1 = L [THEN conjunct2]
  note close = r1 [THEN conjunct1] and r2 = r1 [THEN conjunct2]
  note dup = r2 [THEN conjunct1] and r3 = r2 [THEN conjunct2]
  note range = r3 [THEN conjunct1] and r4 = r3 [THEN conjunct2]
  note proc = r4 [THEN conjunct1] and r5 = r4 [THEN conjunct2]
  note list = r5 [THEN conjunct1] and r6 = r5 [THEN conjunct2]
  show "tbl w fd = Some x \<Longrightarrow> 0 \<le> fd \<and> fd \<le> i32_max"
    using bound [THEN spec, THEN spec, THEN mp, of w fd] by simp
  show "tbl (k_close K fd w) = (tbl w)(fd := None)" by (rule close [rule_format])
  show "tbl w a = Some (f, c) \<Longrightarrow> 0 \<le> b \<Longrightarrow> b \<le> 2 \<Longrightarrow>
      tbl (snd (k_dup2 K a b w)) = (if a = b then tbl w else (tbl w)(b \<mapsto> (f, False)))"
    by (rule dup [rule_format]) simp
  show "k_close_range K lo hi w = (r, w') \<Longrightarrow> tbl w' =
      (if r = 0 then (\<lambda>fd. if uint lo \<le> fd \<and> fd \<le> uint hi then None else tbl w fd) else tbl w)"
    by (rule range [rule_format])
  note p = proc [THEN spec, THEN spec, THEN spec, THEN mp, of w d w']
  show "k_open_proc_fd K w = (d, w') \<Longrightarrow> d < 0 \<Longrightarrow> tbl w' = tbl w"
    and "k_open_proc_fd K w = (d, w') \<Longrightarrow> \<not> d < 0 \<Longrightarrow>
      tbl w d = None \<and> (\<exists>f. tbl w' = (tbl w)(d \<mapsto> (f, True)))"
    using p by simp_all
  have l: "tbl w' = tbl w \<and> (\<forall>names. ns = Some names \<longrightarrow> dec_int ` dom (tbl w) \<subseteq> set names)"
    if "k_read_dir K d w = (ns, w')" for ns
    by (rule list [THEN spec, THEN spec, THEN spec, THEN spec, THEN mp, OF that])
  show "k_read_dir K d w = (ns, w') \<Longrightarrow> tbl w' = tbl w" using l [of ns] by simp
  show "k_read_dir K d w = (Some names, w') \<Longrightarrow> dec_int ` dom (tbl w) \<subseteq> set names"
    using l [of "Some names"] by simp
  show "tbl w fd = Some x \<Longrightarrow> fst (k_file_action K (AddClose fd) w) = 0"
    using r6 [THEN conjunct1, THEN spec, THEN spec, THEN mp, of w fd] by simp
  show "tbl (snd (k_file_action K act w)) = tbl w" by (rule r6 [THEN conjunct2, THEN spec, THEN spec])
qed

section \<open>Listing the open descriptors\<close>

text \<open>Every open descriptor above 2 other than the skipped ones is in the list.\<close>

lemma listed_all:
  assumes "table_laws K tbl" and "k_read_dir K d w = (Some names, w')"
    and "tbl w fd \<noteq> None" and "fd > 2" and "fd \<notin> set skip"
  shows "fd \<in> set (listed_fds skip names)"
proof -
  from assms(3) obtain x where x: "tbl w fd = Some x" by blast
  with table_laws_facts(8) [OF assms(1,2)] have "dec_int fd \<in> set names" by blast
  moreover have "parse_i32 (dec_int fd) = Some fd"
    using table_laws_facts(1) [OF assms(1) x] by (intro parse_i32_dec_int) (auto simp: i32_max_def)
  ultimately have "fd \<in> set (List.map_filter parse_i32 names)"
    by (force simp: List.map_filter_def)
  with assms(4,5) show ?thesis by (simp add: listed_fds_def)
qed

lemma listed_high: "fd \<in> set (listed_fds skip names) \<Longrightarrow> fd > 2 \<and> fd \<notin> set skip"
  by (simp add: listed_fds_def)

lemma fold_close_table:
  assumes "table_laws K tbl"
  shows "tbl (fold (k_close K) fds w) = unplug (set fds) (tbl w)"
  by (induction fds arbitrary: w) (auto simp: table_laws_facts(2) [OF assms] unplug_def fun_eq_iff)

text \<open>The closes that could be added are among the listed ones and name all that are open.\<close>

lemma call_all_actions:
  assumes "table_laws K tbl" and "call_all (k_file_action K) (map AddClose fds) w = (cls, w')"
  shows "tbl w' = tbl w \<and> (\<exists>fds'. cls = map AddClose fds' \<and> set fds' \<subseteq> set fds \<and>
    {fd \<in> set fds. tbl w fd \<noteq> None} \<subseteq> set fds')"
  using assms(2)
proof (induction fds arbitrary: w cls)
  case (Cons fd fds)
  obtain r w1 where r: "k_file_action K (AddClose fd) w = (r, w1)" by fastforce
  obtain ys where ys: "call_all (k_file_action K) (map AddClose fds) w1 = (ys, w')"
    and cls: "cls = (if r = 0 then AddClose fd # ys else ys)"
    using Cons.prems r by (auto split: prod.splits)
  have t: "tbl w1 = tbl w" using table_laws_facts(10) [OF assms(1), of "AddClose fd" w] r by simp
  from Cons.IH [OF ys] obtain fds' where f: "tbl w' = tbl w" "ys = map AddClose fds'"
    "set fds' \<subseteq> set fds" "{fd \<in> set fds. tbl w fd \<noteq> None} \<subseteq> set fds'" by (auto simp: t)
  show ?case
  proof (cases "r = 0")
    case True
    with f cls show ?thesis by (intro conjI exI [of _ "fd # fds'"]) auto
  next
    case False
    with table_laws_facts(9) [OF assms(1), of w fd] r have "tbl w fd = None" by (cases "tbl w fd") auto
    with False f cls show ?thesis by (intro conjI exI [of _ fds']) auto
  qed
qed simp

text \<open>The closes collected by the parent cover what the child would inherit.\<close>

lemma inherited_closes_cover:
  assumes L: "table_laws K tbl" and "can_list K w" and "inherited_closes K w = (cls, w')"
  shows "covers cls (tbl w) \<and> tbl w' = tbl w"
proof -
  obtain d w1 where d: "k_open_proc_fd K w = (d, w1)" by fastforce
  obtain ns w2 where n: "k_read_dir K d w1 = (ns, w2)" by fastforce
  from assms(2) d n obtain names where pos: "0 \<le> d" and names: "ns = Some names"
    by (auto simp: can_list_def)
  from pos have nneg: "\<not> d < 0" by simp
  from table_laws_facts(6) [OF L d this] obtain f where new: "tbl w d = None"
    and t1: "tbl w1 = (tbl w)(d \<mapsto> (f, True))" by blast
  let ?fds = "listed_fds [d] names"
  have t2: "tbl w2 = tbl w1" by (rule table_laws_facts(7) [OF L n])
  obtain cs w3 where cs: "call_all (k_file_action K) (map AddClose ?fds) w2 = (cs, w3)" by fastforce
  from call_all_actions [OF L cs] t2 obtain fds where t3: "tbl w3 = tbl w1" and
    fds: "cs = map AddClose fds" "set fds \<subseteq> set ?fds" "{fd \<in> set ?fds. tbl w1 fd \<noteq> None} \<subseteq> set fds"
    by auto
  from assms(3) d n names pos cs have cls: "cls = cs" and w': "w' = k_close K d w3"
    by (simp_all add: inherited_closes_def)
  have "fd \<in> set fds" if "fd > 2" "at_exec (tbl w) fd \<noteq> None" for fd
  proof -
    from that(2) have "tbl w fd \<noteq> None" using at_exec_None by metis
    with new have open1: "tbl w1 fd \<noteq> None" and "fd \<notin> set [d]" by (auto simp: t1)
    from listed_all [OF L n [unfolded names] this(1) that(1) this(2)] open1 fds(3) show ?thesis by blast
  qed
  moreover have "\<forall>fd \<in> set fds. fd > 2" using fds(2) listed_high by blast
  ultimately have "covers cls (tbl w)" unfolding cls fds(1) by (intro coversI) blast+
  moreover have "tbl w' = tbl w"
    using t1 t3 new by (simp add: w' table_laws_facts(2) [OF L] fun_eq_iff)
  ultimately show ?thesis ..
qed

section \<open>Closing everything in the forked child\<close>

definition only_std :: "'f fd_table \<Rightarrow> 'f fd_table" where
  "only_std t = (\<lambda>fd. if fd > 2 then None else t fd)"

lemma close_listed_table:
  assumes L: "table_laws K tbl" and "can_list K w"
  shows "tbl (close_listed K (-1) w) = only_std (tbl w)"
proof -
  obtain d w1 where d: "k_open_proc_fd K w = (d, w1)" by fastforce
  obtain ns w2 where n: "k_read_dir K d w1 = (ns, w2)" by fastforce
  from assms(2) d n obtain names where pos: "0 \<le> d" and names: "ns = Some names"
    by (auto simp: can_list_def)
  from pos have nneg: "\<not> d < 0" by simp
  from table_laws_facts(6) [OF L d this] obtain f where new: "tbl w d = None"
    and t1: "tbl w1 = (tbl w)(d \<mapsto> (f, True))" by blast
  let ?fds = "listed_fds [-1, d] names"
  have t2: "tbl w2 = tbl w1" by (rule table_laws_facts(7) [OF L n])
  have "close_listed K (-1) w = k_close K d (fold (k_close K) ?fds w2)"
    using d n names pos by (simp add: close_listed_def)
  then have "tbl (close_listed K (-1) w) = (unplug (set ?fds) (tbl w1))(d := None)"
    by (simp add: table_laws_facts(2) [OF L] fold_close_table [OF L] t2)
  also have "\<dots> = only_std (tbl w)"
  proof
    fix fd
    show "((unplug (set ?fds) (tbl w1))(d := None)) fd = only_std (tbl w) fd"
    proof (cases "fd = d")
      case True
      with new show ?thesis by (simp add: only_std_def)
    next
      case other: False
      show ?thesis
      proof (cases "fd > 2 \<and> tbl w1 fd \<noteq> None")
        case True
        with listed_all [OF L n [unfolded names], of fd "[-1, d]"] other
        have "fd \<in> set ?fds" by simp
        with other True show ?thesis by (simp add: unplug_def only_std_def)
      next
        case False
        with listed_high [of fd "[-1, d]" names] other t1 show ?thesis
          by (cases "tbl w fd") (auto simp: unplug_def only_std_def)
      qed
    qed
  qed
  finally show ?thesis .
qed

lemma close_range_fast_table:
  assumes L: "table_laws K tbl" and "\<And>v. tbl v = tbl w \<Longrightarrow> can_list K v"
  shows "tbl (close_range_fast K None w) = only_std (tbl w)"
proof -
  obtain r w1 where r: "k_close_range K 3 (- 1) w = (r, w1)" by fastforce
  note t = table_laws_facts(4) [OF L r]
  show ?thesis
  proof (cases "r = 0")
    case True
    have "uint (- 1 :: u32) = 4294967295" "uint (3 :: u32) = 3"
      by (simp_all add: unsigned_minus_1_eq_mask mask_eq_exp_minus_1)
    moreover have "fd \<le> i32_max" if "tbl w fd = Some x" for fd x
      using table_laws_facts(1) [OF L that] by simp
    ultimately have "(if uint (3 :: u32) \<le> fd \<and> fd \<le> uint (- 1 :: u32) then None else tbl w fd) = only_std (tbl w) fd" for fd
      by (cases "tbl w fd") (force simp: only_std_def i32_max_def)+
    with t True have "tbl w1 = only_std (tbl w)" by (simp add: fun_eq_iff)
    with r True show ?thesis by (simp add: close_range_fast_def)
  next
    case False
    with t have t1: "tbl w1 = tbl w" by simp
    with r False close_listed_table [OF L assms(2) [OF t1]] show ?thesis
      by (simp add: close_range_fast_def)
  qed
qed

text \<open>The child's calls on the kernel do to the table what \<open>do_child_call\<close> says.\<close>

definition dup_within :: "i32 set \<Rightarrow> child_call \<Rightarrow> bool" where
  "dup_within fds c \<longleftrightarrow>
     (case c of Dup2 a b \<Rightarrow> a \<in> fds \<and> b \<in> fds \<and> 0 \<le> b \<and> b \<le> 2 | CloseRange keep \<Rightarrow> False | _ \<Rightarrow> True)"

lemma child_step_table:
  assumes "table_laws K tbl" and "dup_within (dom (tbl w)) c"
  shows "tbl (child_fd_step K c w) = do_child_call c (tbl w)
    \<and> dom (tbl (child_fd_step K c w)) = dom (tbl w)"
proof (cases c)
  case (Dup2 a b)
  with assms(2) obtain f x where a: "tbl w a = Some (f, x)" and b: "b \<in> dom (tbl w)" "0 \<le> b" "b \<le> 2"
    by (auto simp: dup_within_def)
  from table_laws_facts(3) [OF assms(1) a b(2,3)] Dup2 a b(1) show ?thesis
    by (auto simp: child_fd_step_def)
qed (use assms(2) in \<open>simp_all add: child_fd_step_def dup_within_def\<close>)

lemma child_steps_table:
  assumes "table_laws K tbl" and "\<forall>c \<in> set cs. dup_within (dom (tbl w)) c"
  shows "tbl (fold (child_fd_step K) cs w) = fold do_child_call cs (tbl w)
    \<and> dom (tbl (fold (child_fd_step K) cs w)) = dom (tbl w)"
  using assms(2)
proof (induction cs arbitrary: w)
  case (Cons c cs)
  then have "dup_within (dom (tbl w)) c" by simp
  from child_step_table [OF assms(1) this]
  have d: "dom (tbl (child_fd_step K c w)) = dom (tbl w)"
    and t: "tbl (child_fd_step K c w) = do_child_call c (tbl w)" by blast+
  have "\<forall>c' \<in> set cs. dup_within (dom (tbl (child_fd_step K c w))) c'"
    using Cons.prems by (simp only: d) simp
  from Cons.IH [OF this] show ?case unfolding fold_simps comp_def d unfolding t .
qed simp

lemma child_tail_table:
  assumes "\<forall>c \<in> set cs. case c of Dup2 a b \<Rightarrow> False | CloseRange keep \<Rightarrow> False | _ \<Rightarrow> True"
  shows "fold (child_fd_step K) cs w = w" and "fold do_child_call cs t = t"
  using assms
  by (induction cs arbitrary: w t) (auto simp: child_fd_step_def split: child_call.splits)

lemma fork_child_steps:
  assumes L: "table_laws K tbl" and g: "good_pipes p (tbl w)" and "{0, 1, 2} \<subseteq> dom (tbl w)"
    and can: "\<And>v. dom (tbl v) = dom (tbl w) \<Longrightarrow> can_list K v"
  shows "tbl (fold (child_fd_step K) (fork_child opts p) w) = fold do_child_call (fork_child opts p) (tbl w)"
proof -
  let ?ds = "child_dup (stdin_r p) (stdin_w p) 0 @ child_dup (stdout_w p) (stdout_r p) 1 @
    child_dup (stderr_w p) (stderr_r p) 2"
  define tl where "tl = drop (Suc (length ?ds)) (fork_child opts p)"
  have tl: "fork_child opts p = ?ds @ CloseRange None # tl" by (simp add: tl_def fork_child_def)
  have quiet: "\<forall>c \<in> set tl. case c of Dup2 a b \<Rightarrow> False | CloseRange keep \<Rightarrow> False | _ \<Rightarrow> True"
    by (auto simp: tl_def fork_child_def split: option.splits)
  note s = good_pipes_sources(4-6) [OF g]
  have "\<forall>c \<in> set ?ds. dup_within (dom (tbl w)) c"
    using s assms(3) by (auto simp: child_dup_def dup_within_def sources_def split: option.splits)
  from child_steps_table [OF L this] obtain
    1: "tbl (fold (child_fd_step K) ?ds w) = fold do_child_call ?ds (tbl w)"
       "dom (tbl (fold (child_fd_step K) ?ds w)) = dom (tbl w)" by blast
  let ?v = "fold (child_fd_step K) ?ds w"
  have "can_list K v" if "tbl v = tbl ?v" for v by (rule can) (simp only: that 1(2))
  then have "tbl (close_range_fast K None ?v) = only_std (tbl ?v)"
    by (rule close_range_fast_table [OF L])
  then show ?thesis
    unfolding tl fold_append comp_def fold_simps child_tail_table [OF quiet]
    by (simp add: child_fd_step_def 1(1) [unfolded fold_append comp_def] only_std_def)
qed

section \<open>The pipes\<close>

lemma pipes_new_steps:
  assumes "pipes_new K ib out err w0 = (Inr p, w)"
  obtains w1 w2 where "maybe_pipe K (ib \<noteq> None) w0 = (Inr (stdin_r p, stdin_w p), w1)"
    and "maybe_pipe K out w1 = (Inr (stdout_r p, stdout_w p), w2)"
    and "maybe_pipe K err w2 = (Inr (stderr_r p, stderr_w p), w)"
  using assms by (auto simp: pipes_new_def split: prod.splits sum.splits)

lemma pipes_new_good:
  assumes K: "fd_laws K (\<lambda>w. dom (tbl w))" and p: "pipes_new K ib out err w0 = (Inr p, w)"
    and std: "{0, 1, 2} \<subseteq> dom (tbl w0)"
  shows "good_pipes p (tbl w) \<and> {0, 1, 2} \<subseteq> dom (tbl w)"
proof -
  from p obtain w1 w2 where s: "maybe_pipe K (ib \<noteq> None) w0 = (Inr (stdin_r p, stdin_w p), w1)"
    "maybe_pipe K out w1 = (Inr (stdout_r p, stdout_w p), w2)"
    "maybe_pipe K err w2 = (Inr (stderr_r p, stderr_w p), w)" by (rule pipes_new_steps)
  let ?I = "set_option (stdin_r p) \<union> set_option (stdin_w p)"
  let ?O = "set_option (stdout_r p) \<union> set_option (stdout_w p)"
  let ?E = "set_option (stderr_r p) \<union> set_option (stderr_w p)"
  from maybe_pipe_fds [OF K s(1)] have i: "dom (tbl w1) = dom (tbl w0) \<union> ?I" "?I \<inter> dom (tbl w0) = {}"
    "\<forall>fd \<in> ?I. 0 \<le> fd" "set_option (stdin_r p) \<inter> set_option (stdin_w p) = {}"
    "stdin_r p = None \<longleftrightarrow> stdin_w p = None" by (auto simp: valid_fd_def)
  from maybe_pipe_fds [OF K s(2)] have o: "dom (tbl w2) = dom (tbl w1) \<union> ?O" "?O \<inter> dom (tbl w1) = {}"
    "\<forall>fd \<in> ?O. 0 \<le> fd" "set_option (stdout_r p) \<inter> set_option (stdout_w p) = {}"
    "stdout_r p = None \<longleftrightarrow> stdout_w p = None" by (auto simp: valid_fd_def)
  from maybe_pipe_fds [OF K s(3)] have e: "dom (tbl w) = dom (tbl w2) \<union> ?E" "?E \<inter> dom (tbl w2) = {}"
    "\<forall>fd \<in> ?E. 0 \<le> fd" "set_option (stderr_r p) \<inter> set_option (stderr_w p) = {}"
    "stderr_r p = None \<longleftrightarrow> stderr_w p = None" by (auto simp: valid_fd_def)
  have ends: "set (pipe_ends p) = ?I \<union> ?O \<union> ?E" by (auto simp: set_pipe_ends)
  have "?O \<inter> ?I = {}" "?E \<inter> ?I = {}" "?E \<inter> ?O = {}" using i(1) o(1,2) e(2) by blast+
  then have "distinct (pipe_ends p)"
    using i(4) o(4) e(4)
    by (auto simp: pipe_ends_def List.map_filter_simps split: option.splits)
  moreover have "fd > 2 \<and> tbl w fd \<noteq> None" if fd: "fd \<in> set (pipe_ends p)" for fd
  proof
    have "fd \<notin> dom (tbl w0)" using fd i(1,2) o(1,2) e(1,2) unfolding ends by blast
    with std have "fd \<noteq> 0" "fd \<noteq> 1" "fd \<noteq> 2" by blast+
    moreover have "0 \<le> fd" using fd i(3) o(3) e(3) unfolding ends by blast
    ultimately show "fd > 2" by linarith
    have "fd \<in> dom (tbl w)" using fd i(1) o(1) e(1) unfolding ends by blast
    then show "tbl w fd \<noteq> None" by blast
  qed
  moreover have "{0, 1, 2} \<subseteq> dom (tbl w)" using std i(1) o(1) e(1) by blast
  ultimately show ?thesis using i(5) o(5) e(5) by (simp add: good_pipes_def paired_def)
qed

section \<open>Properties\<close>

text \<open>C15: Both back ends wire the child alike. Let the three standard descriptors be open in the
  parent, let \<open>Pipes::new\<close> have made the pipes, and let \<open>/proc/self/fd\<close> be listable with these
  descriptors open. Then the file actions given to \<open>posix_spawn\<close> (the wiring of the pipes and the
  closes collected from the directory) and the calls of the forked child (its \<open>dup2\<close>s and
  \<open>close_range_fast\<close>, whether the \<open>close_range\<close> call works or the directory is walked) leave
  the same descriptors open at \<open>exec\<close>: the child's ends of the pipes as 0, 1 and 2, the inherited
  ones where a stream is not piped, and nothing above 2.\<close>

theorem backends_agree:
  assumes "table_laws K tbl" and "fd_laws K (\<lambda>w. dom (tbl w))" and "{0, 1, 2} \<subseteq> dom (tbl w0)"
    and "pipes_new K (opt_stdin opts) (opt_capture_stdout opts) (opt_capture_stderr opts) w0 = (Inr p, w)"
    and "\<And>v. dom (tbl v) = dom (tbl w) \<Longrightarrow> can_list K v" and "tbl v = tbl w"
  shows "posix_table p (fst (inherited_closes K v)) (tbl (snd (inherited_closes K v))) = wired p (tbl w)
    \<and> at_exec (tbl (fold (child_fd_step K) (fork_child opts p) v)) = wired p (tbl w)"
proof -
  from pipes_new_good [OF assms(2,4,3)] have g: "good_pipes p (tbl w)" "{0, 1, 2} \<subseteq> dom (tbl w)"
    by simp_all
  have "can_list K v" by (rule assms(5)) (simp add: assms(6))
  from inherited_closes_cover [OF assms(1) this prod.collapse [symmetric]]
  have "covers (fst (inherited_closes K v)) (tbl w)" "tbl (snd (inherited_closes K v)) = tbl w"
    by (simp_all add: assms(6))
  with posix_wired [OF g(1)] have
    "posix_table p (fst (inherited_closes K v)) (tbl (snd (inherited_closes K v))) = wired p (tbl w)"
    by simp
  moreover have "tbl (fold (child_fd_step K) (fork_child opts p) v) = fold do_child_call (fork_child opts p) (tbl v)"
    by (rule fork_child_steps [OF assms(1)]) (use g assms(5,6) in simp_all)
  ultimately show ?thesis using fork_wired [OF g(1), of opts] by (simp add: fork_table_def assms(6))
qed
text \<open>
  A kernel whose world is the table: new descriptors get the numbers above all open ones,
  \<open>close_range\<close> is not implemented, and the directory lists what is open.
\<close>

definition live_table :: "string fd_table \<Rightarrow> string fd_table" where
  "live_table w = (if finite (dom w) then w |` {0..i32_max} else Map.empty)"

definition next_fd :: "string fd_table \<Rightarrow> i32" where
  "next_fd w = Max (insert 2 (dom (live_table w))) + 1"

definition wiring_kernel :: "string fd_table kernel" where
  "wiring_kernel = (quiet_kernel (\<lambda>_. 0))\<lparr>
     k_close := \<lambda>fd w. w(fd := None), k_fcntl := \<lambda>fd c w. (0, w),
     k_dup2 := \<lambda>a b w. (case live_table w a of
         None \<Rightarrow> (None, w) | Some (f, c) \<Rightarrow> (Some b, if a = b then w else w(b \<mapsto> (f, False)))),
     k_pipe2 := \<lambda>w. (let n = next_fd w in
         if finite (dom w) \<and> n < i32_max
         then (Some (n, n + 1), w(n \<mapsto> (''read end'', True), n + 1 \<mapsto> (''write end'', True)))
         else (None, w)),
     k_open_proc_fd := \<lambda>w. (if finite (dom w) \<and> next_fd w \<le> i32_max
         then (next_fd w, w(next_fd w \<mapsto> (''fd dir'', True))) else (-1, w)),
     k_read_dir := \<lambda>fd w. (Some (map dec_int (sorted_list_of_set (dom (live_table w)))), w)\<rparr>"

lemma live_table_finite [simp]: "finite (dom (live_table w))"
  by (simp add: live_table_def)

lemma live_table_upd [simp]:
  "live_table (w(a := None)) = (live_table w)(a := None)"
  "0 \<le> a \<Longrightarrow> a \<le> i32_max \<Longrightarrow> finite (dom w) \<Longrightarrow> live_table (w(a \<mapsto> x)) = (live_table w)(a \<mapsto> x)"
  by (auto simp: live_table_def restrict_map_def fun_eq_iff)

lemma next_fd_new [simp]:
  "live_table w (next_fd w) = None" "live_table w (next_fd w + 1) = None"
  "2 < next_fd w" "0 \<le> next_fd w" "\<not> next_fd w < 0"
proof -
  have le: "fd < next_fd w" if "fd \<in> insert 2 (dom (live_table w))" for fd
    using Max_ge [of "insert 2 (dom (live_table w))" fd] that by (simp add: next_fd_def)
  from le [of 2] show "2 < next_fd w" "0 \<le> next_fd w" "\<not> next_fd w < 0" by simp_all
  from le [of "next_fd w"] show "live_table w (next_fd w) = None" by blast
  from le [of "next_fd w + 1"] show "live_table w (next_fd w + 1) = None" by fastforce
qed

lemma live_table_dom: "live_table w fd = Some x \<Longrightarrow> 0 \<le> fd \<and> fd \<le> i32_max \<and> finite (dom w)"
  by (auto simp: live_table_def restrict_map_def split: if_splits)

lemma wiring_kernel_laws: "table_laws wiring_kernel live_table"
  unfolding table_laws_def
proof (intro conjI allI impI, goal_cases)
  case (4 w a b f c)
  then have "finite (dom w)" "0 \<le> b" "b \<le> i32_max"
    using live_table_dom [of w a] by (auto simp: i32_max_def)
  with 4 show ?case by (simp add: wiring_kernel_def)
qed (auto simp: wiring_kernel_def quiet_kernel_def split: if_splits dest: live_table_dom)

lemma wiring_kernel_pipe:
  assumes "k_pipe2 wiring_kernel w = (Some (a, b), w')"
  shows "0 \<le> a \<and> 0 \<le> b \<and> a \<noteq> b \<and> a \<notin> dom (live_table w) \<and> b \<notin> dom (live_table w)
    \<and> dom (live_table w') = insert a (insert b (dom (live_table w)))"
proof -
  from assms have f: "finite (dom w)" "next_fd w < i32_max" and ab: "a = next_fd w" "b = next_fd w + 1"
    and w': "w' = w(next_fd w \<mapsto> (''read end'', True), next_fd w + 1 \<mapsto> (''write end'', True))"
    by (auto simp: wiring_kernel_def Let_def split: if_splits)
  from f have "live_table w' = (live_table w)(next_fd w \<mapsto> (''read end'', True), next_fd w + 1 \<mapsto> (''write end'', True))"
    unfolding w' by (subst live_table_upd(2); simp)+
  then show ?thesis unfolding ab by (simp add: domIff) blast
qed

lemma wiring_kernel_fds: "fd_laws wiring_kernel (\<lambda>w. dom (live_table w))"
  unfolding fd_laws_def closes_fds_def
proof (intro conjI allI impI, goal_cases)
  case (3 w w')
  then show ?case by (simp add: wiring_kernel_def Let_def split: if_splits)
next
  case (10 w d w')
  then show ?case by (auto simp: wiring_kernel_def split: if_splits)
qed (use wiring_kernel_pipe in \<open>blast | simp add: wiring_kernel_def quiet_kernel_def\<close>)+

definition log_table :: "string fd_table" where
  "log_table = [0 \<mapsto> (''tty'', False), 1 \<mapsto> (''tty'', False), 2 \<mapsto> (''tty'', False), 3 \<mapsto> (''log'', False)]"

text \<open>
  The standard output is piped; the child inherits the other two, but not the log file, although
  its descriptor is inheritable.
\<close>

lemma backends_agree_witness:
  "\<exists>p w. pipes_new wiring_kernel None True False log_table = (Inr p, w)
     \<and> posix_table p (fst (inherited_closes wiring_kernel w)) (live_table (snd (inherited_closes wiring_kernel w)))
         = [0 \<mapsto> ''tty'', 1 \<mapsto> ''write end'', 2 \<mapsto> ''tty'']
     \<and> at_exec (live_table (fold (child_fd_step wiring_kernel) (fork_child demo_options p) w)) 3 = None"
proof -
  have dom: "dom log_table = {0, 1, 2, 3}" by (auto simp: log_table_def)
  have live: "live_table log_table = log_table"
    by (auto simp: live_table_def dom log_table_def restrict_map_def i32_max_def fun_eq_iff)
  have nf: "next_fd log_table = 4" by (simp add: next_fd_def live dom)
  let ?p = "\<lparr>stdin_r = None, stdin_w = None, stdout_r = Some 4, stdout_w = Some 5,
      stderr_r = None, stderr_w = None\<rparr>"
  let ?w = "log_table(4 \<mapsto> (''read end'', True), 5 \<mapsto> (''write end'', True))"
  have p: "pipes_new wiring_kernel None True False log_table = (Inr ?p, ?w)"
    by (simp add: pipes_new_def maybe_pipe_def make_pipe_def fd_new_def wiring_kernel_def
        nf dom i32_max_def Let_def)
  have o: "opt_stdin demo_options = None" "opt_capture_stdout demo_options = True"
    "opt_capture_stderr demo_options = False" by (simp_all add: demo_options_def)
  have live': "live_table ?w = ?w"
    by (simp add: dom i32_max_def live)
  have can: "can_list wiring_kernel v" if "dom (live_table v) = dom (live_table ?w)" for v
  proof -
    have d: "dom (live_table v) = {5, 4, 0, 1, 2, 3}" using that by (simp add: live' dom)
    then obtain x where "live_table v 0 = Some x" by (metis domD insertCI)
    with live_table_dom have "finite (dom v)" by blast
    moreover have "next_fd v = 6" by (simp add: next_fd_def d)
    ultimately show ?thesis by (simp add: can_list_def wiring_kernel_def i32_max_def)
  qed
  have agree: "posix_table ?p (fst (inherited_closes wiring_kernel ?w))
        (live_table (snd (inherited_closes wiring_kernel ?w))) = wired ?p (live_table ?w)
      \<and> at_exec (live_table (fold (child_fd_step wiring_kernel) (fork_child demo_options ?p) ?w)) =
        wired ?p (live_table ?w)"
    by (rule backends_agree [OF wiring_kernel_laws wiring_kernel_fds, where opts = demo_options
          and w = ?w and ?w0.0 = log_table])
      (simp_all add: live dom o p can)
  have "wired ?p (live_table ?w) = [0 \<mapsto> ''tty'', 1 \<mapsto> ''write end'', 2 \<mapsto> ''tty'']"
    unfolding live' by (auto simp: wired_def log_table_def at_exec_def fun_eq_iff)
  with agree p show ?thesis by (intro exI [of _ ?p] exI [of _ ?w]) simp
qed

end
