(* ===== verification/Spec2Isabelle.thy ===== *)
theory Spec2Isabelle
  imports DaemonRuns ChildWiring
begin

text \<open>
  CoreShift is an action-oriented execution daemon. Clients ask it over a Unix socket to run
  commands; the core, six modules behind a dispatcher, turns requests and events into actions;
  actions are resolved into effects; an executor carries the effects out with pipes, processes and
  an epoll reactor. This development models all of that in HOL and proves what makes it correct.

  \<^bold>\<open>How the parts interact.\<close> \<open>run_daemon\<close> (\<open>src/lib.rs\<close>) waits for the reactor, lets
  \<open>IpcModule::handle_event\<close> turn connections into actions (through \<open>decode_request\<close> and
  \<open>Router::handle\<close>), lets the dispatcher turn readiness into actions, and works the queue of actions
  off: \<open>Dispatcher::dispatch\<close> answers an action with new ones, \<open>Core::resolve_effects\<close> splits it
  into replies for the IPC layer and effects, \<open>EffectExecutor::apply\<close> carries the effects out and
  may answer with an event, which is dispatched in turn. All state is passed explicitly.

  \<^bold>\<open>Foundations.\<close>
  \<^item> \<open>Prelude\<close>: the integer and byte types, the \<open>std_env\<close> record (clock and hash-map order, the two
    things the standard library supplies to the core), fact collections, lemmas on maps.
  \<^item> \<open>Loops\<close>: \<open>run_loop\<close>, the \<open>loop\<close> of the sources as a partial function into option, \<open>None\<close>
    being "never ends" (for \<open>spawn_start\<close> and \<open>run_daemon\<close> also "in the forked child", which never
    returns from them); rules for partial and total correctness. No fuel is used anywhere: that a
    loop ends is always proved, by a measure or a well-founded order.
  \<^item> \<open>Syscalls\<close>: the kernel as a record of functions over an arbitrary world, the error type and the
    return-value checks, the \<open>EINTR\<close> retry loop, the \<open>Fd\<close> wrapper (\<open>reactor/mod.rs\<close>).
  \<^item> \<open>IdSupply\<close>: the interface of a wrapping counter of identifiers (locale \<open>id_supply\<close>), interpreted
    by the router's, the IPC server's, the executor's and the reactor's counters.
  \<^item> \<open>Decimal\<close>: decimal printing of numbers, \<open>/proc/self/fd\<close> names included.

  \<^bold>\<open>The core\<close> (\<open>src/core\<close>).
  \<^item> \<open>CoreTypes\<close>: the data of \<open>core/mod.rs\<close>, the execution state and its well-formedness.
  \<^item> \<open>ModuleTrait\<close>: the \<open>Module\<close> trait as locales \<open>core_module\<close>, \<open>reactive_module\<close> and
    \<open>action_engine\<close>: a module keeps its invariant and the state well-formed, touches only the job its
    input names, and answers with strictly less work (weights of actions and events) than it was
    given. Every module's theory interprets it; so does the dispatcher.
  \<^item> \<open>Policy\<close> (\<open>policy.rs\<close>: timeouts, admission), \<open>Lifecycle\<close> (\<open>lifecycle.rs\<close>, \<open>process.rs\<close>,
    \<open>io.rs\<close>), \<open>ResultModule\<close> (\<open>result.rs\<close>), \<open>Dispatcher\<close> and \<open>Effects\<close> (the dispatcher and
    \<open>resolve_effects\<close> of \<open>core/mod.rs\<close>).

  \<^bold>\<open>The operating-system layer\<close> (\<open>src/low_level\<close>).
  \<^item> \<open>Buffer\<close>, \<open>Writer\<close>, \<open>Drain\<close> (\<open>io/*.rs\<close>): capture of output up to a limit, feeding of standard
    input, the three slots of a child; \<open>Observers\<close>: what transfers leave alone.
  \<^item> \<open>SysLayer\<close> (\<open>sys/mod.rs\<close>): execution contexts and pointer arrays. \<open>Reactor\<close>
    (\<open>reactor/mod.rs\<close>): epoll registration, event masks, the signal descriptor.
  \<^item> \<open>Process\<close>, \<open>Spawn\<close>, \<open>ChildFds\<close>, \<open>SpawnFds\<close>, \<open>ChildWiring\<close>, \<open>WaitLoop\<close> (\<open>spawn/mod.rs\<close>):
    wait statuses and signals, both ways of creating a process, the descriptor table of the child
    (\<open>ChildFds\<close> for the documented effect of the calls, \<open>ChildWiring\<close> from the calls on the kernel,
    with both routes of \<open>close_range_fast\<close>), descriptor accounting in the parent, the wait loop
    with its kill escalation. Polling with \<open>WNOHANG\<close> and the blocking \<open>waitpid\<close> are two kernel
    functions; the second is partial, \<open>None\<close> being a child that never exits.

  \<^bold>\<open>Requests and the daemon.\<close>
  \<^item> \<open>HighLevel\<close> (\<open>high_level/*.rs\<close>), \<open>Router\<close> (\<open>router.rs\<close>), \<open>Wire\<close> (the two codecs of
    \<open>ipc.rs\<close>), \<open>Ipc\<close> (\<open>IpcModule\<close>).
  \<^item> \<open>Runtime\<close> (\<open>runtime.rs\<close>): the executor. \<open>Daemon\<close> and \<open>DaemonRuns\<close> (\<open>lib.rs\<close>): the main loop.

  \<^bold>\<open>What the lemmas show.\<close> For the core: the laws of the module interface, from which
  well-formedness, isolation of jobs and termination of the action queue follow for the dispatcher
  as a whole; per module the exact behaviour of each operation. For the low level: the bytes
  captured are exactly those delivered up to the limit, those fed are exactly those between the
  offsets; no descriptor leaks on any path of starting a process, of the drain, of an effect, of the
  accept loop; both back ends give the child the same descriptors; the escalation refines a
  three-state machine; what \<open>wait_loop\<close> returns is the child's decoded status and the bytes its
  streams delivered. For the protocol: frames are accepted exactly, and each way reading one from a
  non-blocking stream can end is characterised; responses are transmitted whole unless the socket
  refuses a write (\<open>transmitted\<close>); jobs, clients and descriptors match one to one. For the daemon:
  the queue is always worked off, every iteration returns, its invariant (\<open>daemon_ok\<close>) is kept and
  its books (\<open>books\<close>: every descriptor of a client or a drain is open, and in one place only)
  balance after any number of iterations, and a submission has exactly two outcomes, each with the
  answer its client gets (\<open>job_answered\<close>). Several theorems state behaviour the program probably
  does not intend: deadlines are never swept, jobs never finish, slots of failed starts stay taken,
  some requests are not answered, a request that is not there at once is dropped, output is lost
  at a hang-up, the timeout of \<open>spawn\<close> is not enforced, a long timeout wraps to a negative one.

  \<^bold>\<open>Bounds.\<close> Machine integers are words where the code's arithmetic can wrap (identifiers, tokens,
  masks, the poll timeout's cast), \<open>i32\<close> values that are only compared or passed on are integers,
  \<open>usize\<close> lengths are naturals. Theorems that need identifiers not to repeat say how many are left
  (\<open>free_ids\<close>, \<open>handles_left\<close>): two handles per unit of work in the queue are enough, since only
  starting a process takes handles, two at a time, and every round uses up work. A submission
  weighs 193 units, so an iteration that accepts at most \<open>N\<close> connections needs at most
  \<open>2 * (193 * N + 128)\<close> handles and \<open>N\<close> client ids; \<open>daemon_runs\<close> adds them up over \<open>n\<close>
  iterations.

  \<^bold>\<open>What is assumed of code outside the repository\<close>, always as a named hypothesis with a concrete
  instance: the documented effect of system calls on the descriptor table (\<open>fd_laws\<close>,
  \<open>accept_laws\<close>, \<open>setup_laws\<close>, and \<open>table_laws\<close> for the table with its close-on-exec flags), that
  transfers move at most what was asked for (\<open>read_bounded\<close>, \<open>write_bounded\<close>), that a stream
  socket delivers its bytes in order (\<open>byte_stream\<close>), that no call is interrupted for ever and
  \<open>fork\<close> returns in the parent (\<open>calls_return\<close>, \<open>reads_return\<close>, \<open>writes_return\<close>, \<open>waits_end\<close>),
  that a child exits (\<open>child_exits\<close>) or runs on (\<open>runs_on\<close>), and that hash maps iterate over their
  keys (\<open>env_ok\<close>).
  \<open>serde_json\<close> is a pair of functions (\<open>serde\<close>).

  \<^bold>\<open>Not modelled.\<close> \<open>getprop\<close> and \<open>setprop\<close> of \<open>android.rs\<close> and the \<open>extern\<close> declarations (thin
  bindings of libc; their uses appear as kernel calls); the construction and freeing of
  \<open>sigset_t\<close> and spawn-attribute objects (memory only: a signal set is the list of its signals);
  panics on arithmetic overflow of debug builds (the release behaviour, wrapping, is modelled) and
  on failed allocation.
\<close>

end
